(* ===== verification/P4_Prelude.thy ===== *)
theory P4_Prelude
  imports Main "HOL-Library.Word" "HOL-Library.Multiset"
begin

text \<open>
  Shared vocabulary of the development: the machine-integer types of the C++ code, the
  errors a call can end in, the result type of fallible code, the index scan for a least
  weight that several placement routines of the code repeat, and the generic theory of
  invariants of step relations.
\<close>

section \<open>Collections\<close>

text \<open>
  \<open>res_elims\<close>: the facts that take a successful call apart, \<open>store_simps\<close>: reads over updates of the stores
  (tables, nodes, queues).
\<close>

named_theorems res_elims
named_theorems store_simps

section \<open>Machine types and results\<close>

type_synonym u8 = "8 word"
type_synonym u16 = "16 word"
type_synonym u32 = "32 word"
type_synonym u64 = "64 word"

text \<open>A database key (\<open>db_key_t\<close>, a \<open>uint64_t\<close> that the code only compares, divides and
  uses as an index).\<close>

type_synonym db_key = nat

text \<open>
  How a call can fail: a false \<open>assert\<close> (the build leaves assertions on), an exception of
  \<open>ee/errors.hpp\<close> or of the standard library, or an operation C++ leaves undefined: an
  access outside an array (or of memory never written), a division by zero. \<open>Blocked\<close> is a
  wait whose condition nobody is left to make true.
\<close>

datatype err =
    AssertFailed
  | TableFull
  | TableCastFailed
  | InvalidAccessMode
  | UndoException
  | RuntimeError
  | PacketBufferTooSmall
  | LogicError
  | OutOfBounds
  | DivisionByZero
  | Blocked

type_synonym 'a result = "err + 'a"

abbreviation ok :: "'a \<Rightarrow> 'a result" where
  "ok \<equiv> Inr"

abbreviation fail :: "err \<Rightarrow> 'a result" where
  "fail \<equiv> Inl"

definition bind_res :: "'a result \<Rightarrow> ('a \<Rightarrow> 'b result) \<Rightarrow> 'b result" where
  "bind_res r f = (case r of Inl e \<Rightarrow> Inl e | Inr x \<Rightarrow> f x)"

definition assert_res :: "bool \<Rightarrow> unit result" where
  "assert_res b = (if b then ok () else fail AssertFailed)"

lemma bind_res_simps [simp]:
  "bind_res (Inl e) f = Inl e"
  "bind_res (Inr x) f = f x"
  by (simp_all add: bind_res_def)

lemma bind_res_assoc [simp]:
  "bind_res (bind_res r f) g = bind_res r (\<lambda>x. bind_res (f x) g)"
  by (cases r) simp_all

lemma bind_res_Inr [simp]: "bind_res r Inr = r"
  by (cases r) simp_all

lemma bind_res_eq_Inr [res_elims]: "bind_res r f = Inr y \<longleftrightarrow> (\<exists>x. r = Inr x \<and> f x = Inr y)"
  by (cases r) auto

lemma bind_res_eq_Inl: "bind_res r f = Inl e \<longleftrightarrow> r = Inl e \<or> (\<exists>x. r = Inr x \<and> f x = Inl e)"
  by (cases r) auto

lemma bind_res_cong [fundef_cong]:
  "r = r' \<Longrightarrow> (\<And>x. r' = Inr x \<Longrightarrow> f x = g x) \<Longrightarrow> bind_res r f = bind_res r' g"
  by (cases r') simp_all

lemma assert_res_simps [simp]:
  "assert_res True = Inr ()"
  "assert_res False = Inl AssertFailed"
  by (simp_all add: assert_res_def)

lemma assert_res_Inr [simp]: "assert_res b = Inr u \<longleftrightarrow> b"
  by (simp add: assert_res_def)

text \<open>Reading an array of the source at an index.\<close>

definition at_res :: "'a list \<Rightarrow> nat \<Rightarrow> 'a result" where
  "at_res xs i = (if i < length xs then ok (xs ! i) else fail OutOfBounds)"

lemma at_res_Inr [simp]: "at_res xs i = Inr x \<longleftrightarrow> i < length xs \<and> x = xs ! i"
  by (auto simp: at_res_def)

lemma at_res_lt: "i < length xs \<Longrightarrow> at_res xs i = Inr (xs ! i)"
  by simp

section \<open>Least-weight scan\<close>

text \<open>
  The loop
  \<^verbatim>\<open>
  size_t low = 0;
  for (size_t r = 0; r < N; ++r) { if (weight[low] > weight[r]) { low = r; } }
  \<close>
  recurs in the placement code (the register and the switch lock of
  \<open>layout/declustered_layout.cpp\<close>, the worker in \<open>main/main.cpp\<close>, the register grid of
  \<open>fast_layout/src/layout.cpp\<close>).
\<close>

definition argmin_upto :: "nat list \<Rightarrow> nat \<Rightarrow> nat" where
  "argmin_upto w n = foldl (\<lambda>low r. if w ! low > w ! r then r else low) 0 [0..<n]"

definition argmin_scan :: "nat list \<Rightarrow> nat" where
  "argmin_scan w = argmin_upto w (length w)"

lemma argmin_upto_Suc [simp]:
  "argmin_upto w (Suc n) = (if w ! argmin_upto w n > w ! n then n else argmin_upto w n)"
  by (simp add: argmin_upto_def)

lemma argmin_upto_0 [simp]: "argmin_upto w 0 = 0"
  by (simp add: argmin_upto_def)

lemma argmin_prefix:
  "0 < n \<Longrightarrow> argmin_upto w n < n \<and> (\<forall>r < n. w ! argmin_upto w n \<le> w ! r) \<and>
     (\<forall>r < argmin_upto w n. w ! argmin_upto w n < w ! r)"
proof (induction n)
  case 0
  then show ?case by simp
next
  case (Suc n)
  show ?case
  proof (cases "n = 0")
    case True
    then show ?thesis by simp
  next
    case False
    with Suc.IH have IH: "argmin_upto w n < n" "\<forall>r < n. w ! argmin_upto w n \<le> w ! r"
        "\<forall>r < argmin_upto w n. w ! argmin_upto w n < w ! r" by auto
    then show ?thesis by (fastforce simp: less_Suc_eq)
  qed
qed

lemma argmin_scan_less [simp, intro]: "w \<noteq> [] \<Longrightarrow> argmin_scan w < length w"
  using argmin_prefix [of "length w" w] by (simp add: argmin_scan_def)

lemma argmin_scan_least: "r < length w \<Longrightarrow> w ! argmin_scan w \<le> w ! r"
  using argmin_prefix [of "length w" w] by (cases "w = []") (auto simp: argmin_scan_def)

lemma argmin_scan_first: "r < argmin_scan w \<Longrightarrow> w \<noteq> [] \<Longrightarrow> w ! argmin_scan w < w ! r"
  using argmin_prefix [of "length w" w] by (auto simp: argmin_scan_def)

section \<open>Invariants of step relations\<close>

text \<open>
  A concurrent component is a set of initial states and a step relation; an invariant that
  holds initially and is kept by every step holds in every reachable state. The components
  interpret this locale with their own relation and invariant.
\<close>

locale inv_system =
  fixes init :: "'s \<Rightarrow> bool"
    and step :: "'s \<Rightarrow> 's \<Rightarrow> bool"
    and inv :: "'s \<Rightarrow> bool"
  assumes init_inv: "init s \<Longrightarrow> inv s"
    and step_inv: "inv s \<Longrightarrow> step s t \<Longrightarrow> inv t"
begin

lemma steps_inv: "step\<^sup>*\<^sup>* s t \<Longrightarrow> inv s \<Longrightarrow> inv t"
  by (induction rule: rtranclp_induct) (auto intro: step_inv)

lemma reach_inv: "init s \<Longrightarrow> step\<^sup>*\<^sup>* s t \<Longrightarrow> inv t"
  using steps_inv init_inv by blast

end

section \<open>List and multiset facts\<close>

lemma take_Suc_update: "i < length xs \<Longrightarrow> take (Suc i) (xs[i := x]) = take i xs @ [x]"
  by (simp add: take_Suc_conv_app_nth)

lemma mset_take_Suc: "i < length xs \<Longrightarrow> mset (take (Suc i) xs) = add_mset (xs ! i) (mset (take i xs))"
  by (simp add: take_Suc_conv_app_nth)

end
