(* ===== verification/P4_Types.thy ===== *)
theory P4_Types
  imports P4_Prelude
begin

text \<open>
  The value types of \<open>ee/types.hpp\<close>, \<open>comm/msg.hpp\<close> (\<open>node_t\<close>), \<open>ee/errors.hpp\<close>,
  \<open>ee/defs.hpp\<close> and \<open>utils/ts_factory.hpp\<close>: access modes, packed transaction ids, packed
  node ids, error codes, build constants and timestamps.
\<close>

unbundle bit_operations_syntax

section \<open>Build constants\<close>

text \<open>
  The constants of \<open>ee/defs.hpp\<close>. Those that depend on \<open>IS_ORIG_MODE\<close> (or that the code
  checks against a second legal value, \<open>MAX_PASSES_ACCEL\<close>) are fields of a configuration;
  \<open>default_build\<close> is the checked-in one and \<open>orig_build\<close> the one with \<open>IS_ORIG_MODE\<close>.
\<close>

record build_cfg =
  ORIG_MODE :: bool
  USE_FLOW_ORDER :: bool
  DO_SCHED :: bool
  SLOTS_PER_SCHED_BLOCK :: nat
  MAX_PASSES_ACCEL :: nat

definition default_build :: build_cfg where
  "default_build = \<lparr>ORIG_MODE = False, USE_FLOW_ORDER = True, DO_SCHED = True,
     SLOTS_PER_SCHED_BLOCK = 32, MAX_PASSES_ACCEL = 1\<rparr>"

definition orig_build :: build_cfg where
  "orig_build = \<lparr>ORIG_MODE = True, USE_FLOW_ORDER = False, DO_SCHED = False,
     SLOTS_PER_SCHED_BLOCK = 8, MAX_PASSES_ACCEL = 1\<rparr>"

definition N_OPS :: nat where "N_OPS = 8"
definition MAX_TIMES_ACCEL_ABORT :: nat where "MAX_TIMES_ACCEL_ABORT = 1"
definition REMOTE_FRAC :: nat where "REMOTE_FRAC = 10"
definition BATCH_SIZE_TGT :: nat where "BATCH_SIZE_TGT = 100000"
definition MINI_BATCH_SIZE_TGT :: nat where "MINI_BATCH_SIZE_TGT = 5000"
definition MAX_OPS_PASS2_ACCEL :: nat where "MAX_OPS_PASS2_ACCEL = 8"
definition N_REGS :: nat where "N_REGS = 72"
definition N_SW_LOCKS :: nat where "N_SW_LOCKS = 32"

section \<open>Access modes and error codes\<close>

datatype AccessMode = INVALID | READ | WRITE

primrec mode_byte :: "AccessMode \<Rightarrow> u8" where
  "mode_byte INVALID = 0"
| "mode_byte READ = 1"
| "mode_byte WRITE = 2"

datatype ErrorCode =
    SUCCESS
  | READ_LOCK_FAILED
  | WRITE_LOCK_FAILED
  | INVALID_ROW_ID
  | INVALID_ACCESS_MODE

text \<open>\<open>operator!\<close> of \<open>ErrorCode\<close>: true for every code but \<open>SUCCESS\<close>.\<close>

definition err_not :: "ErrorCode \<Rightarrow> bool" where
  "err_not e \<longleftrightarrow> e \<noteq> SUCCESS"

section \<open>Transaction ids\<close>

text \<open>
  \<open>struct TxnId\<close>: a union of a \<open>uint32_t\<close> and a packed struct of a 4-bit node id, a valid
  bit and a 27-bit mini-batch id. On the little-endian targets of the project the bit
  fields fill the word from its low end.
\<close>

record TxnId =
  node_id :: "4 word"
  valid :: bool
  mini_batch_id :: "27 word"

text \<open>The three constructors. The field constructor truncates its \<open>size_t\<close> arguments.\<close>

definition TxnId_mk :: "bool \<Rightarrow> nat \<Rightarrow> nat \<Rightarrow> TxnId" where
  "TxnId_mk v nid mb = \<lparr>node_id = of_nat nid, valid = v, mini_batch_id = of_nat mb\<rparr>"

definition TxnId_default :: TxnId where
  "TxnId_default = TxnId_mk False 0 0"

definition TxnId_unpack :: "u32 \<Rightarrow> TxnId" where
  "TxnId_unpack r = \<lparr>node_id = ucast r, valid = bit r 4, mini_batch_id = ucast (drop_bit 5 r)\<rparr>"

definition get_packed :: "TxnId \<Rightarrow> u32" where
  "get_packed t = ucast (node_id t) OR push_bit 4 (of_bool (valid t)) OR
     push_bit 5 (ucast (mini_batch_id t))"

lemma bit_get_packed:
  "bit (get_packed t) n \<longleftrightarrow>
     (if n < 4 then bit (node_id t) n else if n = 4 then valid t
      else n < 32 \<and> bit (mini_batch_id t) (n - 5))"
  by (auto simp: get_packed_def bit_simps not_le not_less dest: bit_imp_le_length)

lemma TxnId_unpack_pack [simp]: "TxnId_unpack (get_packed t) = t"
  by (rule TxnId.equality)
    (auto simp: TxnId_unpack_def bit_get_packed intro!: bit_word_eqI
       simp: bit_ucast_iff bit_drop_bit_eq dest: bit_imp_le_length)

lemma get_packed_unpack [simp]: "get_packed (TxnId_unpack r) = r"
  by (rule bit_word_eqI) (auto simp: bit_get_packed TxnId_unpack_def bit_ucast_iff bit_drop_bit_eq)

lemma get_packed_inject: "get_packed a = get_packed b \<longleftrightarrow> a = b"
  by (metis TxnId_unpack_pack)

lemma TxnId_mk_sel [simp]:
  "valid (TxnId_mk v n m) = v"
  "node_id (TxnId_mk v n m) = of_nat n"
  "mini_batch_id (TxnId_mk v n m) = of_nat m"
  by (simp_all add: TxnId_mk_def)

section \<open>Node ids\<close>

text \<open>
  \<open>msg::node_t\<close>: a thread id above the low byte, a node id in the low byte. The implicit
  conversion to \<open>uint32_t\<close> keeps the low byte only, and comparisons go through it.
\<close>

type_synonym node_t = u32

definition node_t_mk :: "u32 \<Rightarrow> u32 \<Rightarrow> node_t" where
  "node_t_mk nid tid = push_bit 8 tid OR (nid AND 0xff)"

definition get_tid :: "node_t \<Rightarrow> u32" where
  "get_tid v = drop_bit 8 v"

definition node_u32 :: "node_t \<Rightarrow> u32" where
  "node_u32 v = v AND 0x000000ff"

lemma and_0xff: "(x :: u32) AND 255 = take_bit 8 x"
  by (simp add: take_bit_eq_mask mask_eq_exp_minus_1)

lemma node_u32_mk [simp]: "node_u32 (node_t_mk nid tid) = take_bit 8 nid"
  by (rule bit_word_eqI) (auto simp: node_u32_def node_t_mk_def and_0xff bit_simps)

lemma get_tid_mk: "unat tid < 2 ^ 24 \<Longrightarrow> get_tid (node_t_mk nid tid) = tid"
proof -
  assume "unat tid < 2 ^ 24"
  then have "take_bit 24 tid = tid"
    by (simp add: word_unat_eq_iff unsigned_take_bit_eq take_bit_nat_eq_self)
  then have b: "n < 24" if "bit tid n" for n
    using that by (metis bit_take_bit_iff)
  show ?thesis
    by (rule bit_word_eqI) (auto simp: get_tid_def node_t_mk_def and_0xff bit_simps dest: b)
qed

section \<open>Timestamps\<close>

text \<open>
  \<open>UniqueClockTimestampFactory\<close>: the nanoseconds since the factory's start, shifted past a
  16-bit mask made of the node id and the worker's thread id. The clock reading is an
  argument.
\<close>

definition ts_mask :: "u32 \<Rightarrow> u32 \<Rightarrow> u64" where
  "ts_mask node tid = ucast (push_bit 8 (node_u32 node) OR tid)"

definition ts_get :: "u64 \<Rightarrow> u64 \<Rightarrow> u64" where
  "ts_get msk ns = push_bit 16 ns OR msk"

text \<open>\<open>AtomicTimestampFactory\<close>: a shared counter, fetched and incremented.\<close>

definition atomic_ts_get :: "u64 \<Rightarrow> u64 \<times> u64" where
  "atomic_ts_get cntr = (cntr, cntr + 1)"

section \<open>Run-time configuration\<close>

text \<open>The fields of the \<open>Config\<close> singleton that the modelled code reads.\<close>

record config =
  cfg_node_id :: node_t
  num_nodes :: nat
  num_txn_workers :: nat
  cfg_switch_id :: node_t
  tenant_id :: nat
  use_switch :: bool
  verify :: bool
  table_size :: nat

lemma node_u32_of_nat [simp]: "n < 256 \<Longrightarrow> node_u32 (word_of_nat n) = word_of_nat n"
  by (simp add: node_u32_def and_0xff take_bit_nat_eq_self flip: take_bit_of_nat)
   (simp add: take_bit_of_nat take_bit_nat_eq_self)

end
