(* ===== verification/P4_Messages.thy ===== *)
theory P4_Messages
  imports P4_Types
begin

text \<open>
  The messages of \<open>comm/msg.hpp\<close>, the packet buffer of \<open>comm/buffer.hpp\<close> that carries them,
  and the future of \<open>ee/future.hpp\<close> that a worker waits on.
\<close>

section \<open>Tuples and messages\<close>

text \<open>\<open>struct KV\<close> of \<open>ee/table.hpp\<close>.\<close>

record KV =
  kv_id :: nat
  kv_value :: u32

datatype msg_type =
    INIT
  | BARRIER
  | TUPLE_GET_REQ
  | TUPLE_GET_RES
  | TUPLE_PUT_REQ
  | TUPLE_PUT_RES

primrec msg_type_code :: "msg_type \<Rightarrow> u32" where
  "msg_type_code INIT = 0x00010001"
| "msg_type_code BARRIER = 0x00010002"
| "msg_type_code TUPLE_GET_REQ = 0x00000001"
| "msg_type_code TUPLE_GET_RES = 0x00000002"
| "msg_type_code TUPLE_PUT_REQ = 0x00000003"
| "msg_type_code TUPLE_PUT_RES = 0x00000004"

text \<open>
  A packet. The code reinterprets one buffer as any of the message structs, whose fields
  share their offsets: the header, then \<open>TupleMsgHeader\<close>, then one \<open>uint32_t\<close> (\<open>me_pack\<close>
  of a get request, \<open>last_acq_pack\<close> of a get response and of a put request), then the tuple.
  The record therefore has one field per offset, and \<open>convert\<close> changes the type alone.
  The tuple is \<open>None\<close> as long as its bytes have not been written; \<open>plen\<close> is the length
  the packet buffer keeps, \<open>num\<close> the barrier number.
\<close>

record msg =
  m_type :: msg_type
  sender :: node_t
  msg_id :: nat
  m_ts :: u64
  m_tid :: nat
  rid :: db_key
  m_mode :: AccessMode
  pack :: u32
  m_tuple :: "KV option"
  num :: u32
  plen :: nat

definition convert :: "msg_type \<Rightarrow> msg \<Rightarrow> msg" where
  "convert ty m = m\<lparr>m_type := ty\<rparr>"

text \<open>The sizes of the message structs, in bytes, and of the tuple they carry.\<close>

definition MSG_SIZE :: nat where "MSG_SIZE = 72"
definition BUF_SIZE :: nat where "BUF_SIZE = 1500"
definition sizeof_KV :: nat where "sizeof_KV = 16"
definition sizeof_Header :: nat where "sizeof_Header = 16"
definition sizeof_TupleMsgHeader :: nat where "sizeof_TupleMsgHeader = 32"

primrec sizeof_msg :: "msg_type \<Rightarrow> nat" where
  "sizeof_msg INIT = sizeof_Header"
| "sizeof_msg BARRIER = sizeof_Header + 8"
| "sizeof_msg TUPLE_PUT_RES = sizeof_Header + sizeof_TupleMsgHeader"
| "sizeof_msg TUPLE_GET_REQ = sizeof_Header + sizeof_TupleMsgHeader + 8"
| "sizeof_msg TUPLE_GET_RES = sizeof_Header + sizeof_TupleMsgHeader + 8"
| "sizeof_msg TUPLE_PUT_REQ = sizeof_Header + sizeof_TupleMsgHeader + 8"

declare sizeof_msg.simps [simp del]

text \<open>\<open>PacketBuffer::resize\<close>.\<close>

definition resize :: "nat \<Rightarrow> msg \<Rightarrow> msg result" where
  "resize len m = (if len > BUF_SIZE then fail PacketBufferTooSmall else ok (m\<lparr>plen := len\<rparr>))"

text \<open>The message constructors that the program calls through \<open>PacketBuffer::ctor\<close>.\<close>

definition TupleGetReq_mk :: "u64 \<Rightarrow> nat \<Rightarrow> db_key \<Rightarrow> AccessMode \<Rightarrow> TxnId \<Rightarrow> msg" where
  "TupleGetReq_mk t tbl key md me = \<lparr>m_type = TUPLE_GET_REQ, sender = 0, msg_id = 0, m_ts = t,
     m_tid = tbl, rid = key, m_mode = md, pack = get_packed me, m_tuple = None, num = 0,
     plen = sizeof_msg TUPLE_GET_REQ\<rparr>"

definition Init_mk :: "node_t \<Rightarrow> msg" where
  "Init_mk from = \<lparr>m_type = INIT, sender = from, msg_id = 0, m_ts = 0, m_tid = 0, rid = 0,
     m_mode = INVALID, pack = 0, m_tuple = None, num = 0, plen = sizeof_msg INIT\<rparr>"

definition Barrier_mk :: "node_t \<Rightarrow> u32 \<Rightarrow> msg" where
  "Barrier_mk from n = \<lparr>m_type = BARRIER, sender = from, msg_id = 0, m_ts = 0, m_tid = 0, rid = 0,
     m_mode = INVALID, pack = 0, m_tuple = None, num = n, plen = sizeof_msg BARRIER\<rparr>"

lemma resize_ok [simp]: "n \<le> BUF_SIZE \<Longrightarrow> resize n m = Inr (m\<lparr>plen := n\<rparr>)"
  by (simp add: resize_def)

lemma sizeof_msg_fits [simp]: "sizeof_msg ty + sizeof_KV \<le> BUF_SIZE" "sizeof_msg ty \<le> BUF_SIZE"
  by (cases ty; simp add: sizeof_msg.simps sizeof_KV_def sizeof_Header_def sizeof_TupleMsgHeader_def BUF_SIZE_def)+

section \<open>Futures\<close>

text \<open>
  \<open>TupleFuture::tuple\<close> points into a row of the local table, into the response packet, or is
  null or the \<open>EXCEPTION\<close> marker.
\<close>

datatype tuple_ptr = NullPtr | ExceptionPtr | RowPtr nat | PktPtr

record future =
  f_pkt :: "msg option"
  f_tuple :: tuple_ptr
  f_last_acq :: TxnId

definition TupleFuture_mk :: future where
  "TupleFuture_mk = \<lparr>f_pkt = None, f_tuple = NullPtr, f_last_acq = TxnId_default\<rparr>"

definition set_pkt :: "msg \<Rightarrow> future \<Rightarrow> future" where
  "set_pkt m f = f\<lparr>f_pkt := Some m\<rparr>"

text \<open>
  \<open>get_pkt\<close>, \<open>wait\<close> and \<open>get\<close> spin until the message handler has stored a packet:
  \<open>None\<close> stands for a call that is still spinning. \<open>get\<close> returns the null pointer for a
  refused request.
\<close>

definition get_pkt :: "future \<Rightarrow> msg option" where
  "get_pkt f = f_pkt f"

definition future_wait :: "future \<Rightarrow> (future \<times> tuple_ptr) option" where
  "future_wait f =
     (case f_pkt f of
        None \<Rightarrow> None
      | Some res \<Rightarrow>
          if m_mode res = INVALID then Some (f\<lparr>f_tuple := ExceptionPtr\<rparr>, NullPtr)
          else Some (f\<lparr>f_tuple := PktPtr, f_last_acq := TxnId_unpack (pack res)\<rparr>, PktPtr))"

definition future_get :: "future \<Rightarrow> (future \<times> tuple_ptr) option" where
  "future_get f =
     (case f_tuple f of
        ExceptionPtr \<Rightarrow> Some (f, NullPtr)
      | NullPtr \<Rightarrow> future_wait f
      | p \<Rightarrow> Some (f, p))"

lemma future_get_twice:
  "future_get f = Some (g, p) \<Longrightarrow> future_get g = Some (g, p)"
  by (auto simp: future_get_def future_wait_def split: tuple_ptr.splits option.splits if_splits)

end
