(* ===== verification/P4_Row.thy ===== *)
theory P4_Row
  imports P4_Messages
begin

text \<open>
  The lock word of a row, \<open>Row<Tuple_t>\<close> of \<open>ee/row.hpp\<close>: a reader/writer lock that never
  waits, with the mini-batch rule on top. The abstract lock is a \<open>rw_state\<close>; the step
  relations interleave any number of transactions on one row.
\<close>

section \<open>The row and its operations\<close>

record row =
  lock_type :: AccessMode
  owner_cnt :: u32
  r_tuple :: KV
  last_acq :: TxnId

definition Row_mk :: "KV \<Rightarrow> row" where
  "Row_mk t = \<lparr>lock_type = INVALID, owner_cnt = 0, r_tuple = t, last_acq = TxnId_mk True 0 0\<rparr>"

definition is_compatible :: "row \<Rightarrow> AccessMode \<Rightarrow> bool" where
  "is_compatible r md =
     (if lock_type r = INVALID then True
      else if lock_type r = WRITE \<or> md = WRITE then False
      else True)"

definition row_check :: "row \<Rightarrow> bool" where
  "row_check r \<longleftrightarrow> lock_type r = INVALID"

definition mb_allow_lock :: "build_cfg \<Rightarrow> row \<Rightarrow> TxnId \<Rightarrow> bool result" where
  "mb_allow_lock cfg r t =
     (if valid t then
        bind_res (assert_res (mini_batch_id t \<ge> mini_batch_id (last_acq r))) (\<lambda>_.
          if mini_batch_id t = mini_batch_id (last_acq r) \<and>
             (\<not> USE_FLOW_ORDER cfg \<or> node_id t \<noteq> node_id (last_acq r))
          then ok False else ok True)
      else ok True)"

text \<open>The error code both early returns of \<open>local_lock\<close> compute from the mode.\<close>

primrec lock_failed :: "AccessMode \<Rightarrow> ErrorCode" where
  "lock_failed READ = READ_LOCK_FAILED"
| "lock_failed WRITE = WRITE_LOCK_FAILED"
| "lock_failed INVALID = INVALID_ACCESS_MODE"

text \<open>
  \<open>local_lock\<close> tests the mode once without the mutex and then runs the rest under it.
  \<open>local_lock_locked\<close> is that critical section, the unit of interleaving; \<open>self\<close> is the
  address of the row's tuple that the future receives.
\<close>

definition local_lock_locked ::
  "build_cfg \<Rightarrow> tuple_ptr \<Rightarrow> row \<Rightarrow> AccessMode \<Rightarrow> future \<Rightarrow> (ErrorCode \<times> row \<times> future) result" where
  "local_lock_locked cfg self r md f =
     bind_res (mb_allow_lock cfg r (f_last_acq f)) (\<lambda>allow_lock.
       if \<not> is_compatible r md \<or> \<not> allow_lock then ok (lock_failed md, r, f)
       else ok (SUCCESS, r\<lparr>owner_cnt := owner_cnt r + 1, lock_type := md\<rparr>,
                f\<lparr>f_tuple := self, f_last_acq := last_acq r\<rparr>))"

definition local_lock ::
  "build_cfg \<Rightarrow> tuple_ptr \<Rightarrow> row \<Rightarrow> AccessMode \<Rightarrow> future \<Rightarrow> (ErrorCode \<times> row \<times> future) result" where
  "local_lock cfg self r md f =
     (if \<not> is_compatible r md then ok (lock_failed md, r, f)
      else local_lock_locked cfg self r md f)"

text \<open>\<open>remote_lock\<close> answers the request it was given; the second component is the response it
  sends to \<open>res->sender\<close>.\<close>

definition remote_lock :: "build_cfg \<Rightarrow> row \<Rightarrow> msg \<Rightarrow> (row \<times> msg) result" where
  "remote_lock cfg r req =
     bind_res (mb_allow_lock cfg r (TxnId_unpack (pack req))) (\<lambda>allow_lock.
       if \<not> is_compatible r (m_mode req) \<or> \<not> allow_lock
       then ok (r, (convert TUPLE_GET_RES req)\<lparr>m_mode := INVALID\<rparr>)
       else bind_res (resize (sizeof_msg TUPLE_GET_RES + sizeof_KV) (convert TUPLE_GET_RES req)) (\<lambda>res.
              ok (r\<lparr>owner_cnt := owner_cnt r + 1, lock_type := m_mode req\<rparr>,
                  res\<lparr>pack := get_packed (last_acq r), m_tuple := Some (r_tuple r)\<rparr>)))"

definition local_unlock :: "row \<Rightarrow> AccessMode \<Rightarrow> TxnId \<Rightarrow> ErrorCode \<times> row" where
  "local_unlock r md i =
     (let r = r\<lparr>last_acq := i\<rparr> in
      if lock_type r \<noteq> md then (INVALID_ACCESS_MODE, r)
      else let r = r\<lparr>owner_cnt := owner_cnt r - 1\<rparr> in
           if owner_cnt r > 0 then (SUCCESS, r)
           else (SUCCESS, r\<lparr>lock_type := INVALID\<rparr>))"

definition remote_unlock :: "row \<Rightarrow> msg \<Rightarrow> row result" where
  "remote_unlock r req =
     bind_res (if m_mode req = WRITE
               then (case m_tuple req of None \<Rightarrow> fail OutOfBounds | Some t \<Rightarrow> ok (r\<lparr>r_tuple := t\<rparr>))
               else ok r) (\<lambda>r.
       ok (snd (local_unlock r (m_mode req) (TxnId_unpack (pack req)))))"

section \<open>The abstract lock\<close>

datatype rw_state = Free | Shared nat | Exclusive

fun rw_acquire :: "rw_state \<Rightarrow> AccessMode \<Rightarrow> rw_state option" where
  "rw_acquire Free READ = Some (Shared 1)"
| "rw_acquire Free WRITE = Some Exclusive"
| "rw_acquire (Shared n) READ = Some (Shared (Suc n))"
| "rw_acquire _ _ = None"

fun rw_release :: "rw_state \<Rightarrow> AccessMode \<Rightarrow> rw_state option" where
  "rw_release Exclusive WRITE = Some Free"
| "rw_release (Shared n) READ = (if n \<le> 1 then Some Free else Some (Shared (n - 1)))"
| "rw_release _ _ = None"

definition row_abs :: "row \<Rightarrow> rw_state" where
  "row_abs r = (case lock_type r of INVALID \<Rightarrow> Free | READ \<Rightarrow> Shared (unat (owner_cnt r)) | WRITE \<Rightarrow> Exclusive)"

text \<open>The type invariant of a row: no owners exactly when unlocked, one owner when write-locked.\<close>

definition row_wf :: "row \<Rightarrow> bool" where
  "row_wf r \<longleftrightarrow> (lock_type r = INVALID \<longleftrightarrow> owner_cnt r = 0) \<and>
     (lock_type r = WRITE \<longrightarrow> owner_cnt r = 1)"

text \<open>Room for one more owner in the 32-bit counter.\<close>

definition owner_room :: "row \<Rightarrow> bool" where
  "owner_room r \<longleftrightarrow> unat (owner_cnt r) < 2 ^ 32 - 1"

lemma unat_Suc_room: "owner_room r \<Longrightarrow> unat (owner_cnt r + 1) = Suc (unat (owner_cnt r))"
  by (simp add: owner_room_def unat_word_ariths)

lemma unat_dec: "w \<noteq> (0 :: u32) \<Longrightarrow> unat (w - 1) = unat w - 1"
  by (simp add: unat_minus_one)

lemma owner_pos: "(0 < (w :: u32)) \<longleftrightarrow> unat w \<noteq> 0"
  using unat_gt_0 [of w] by (simp add: word_gt_0)

lemma row_wf_mk [simp]: "row_wf (Row_mk t)"
  by (simp add: row_wf_def Row_mk_def)

lemma row_abs_mk [simp]: "row_abs (Row_mk t) = Free"
  by (simp add: row_abs_def Row_mk_def)

lemma compatible_acquire:
  "row_wf r \<Longrightarrow> md \<noteq> INVALID \<Longrightarrow> is_compatible r md \<longleftrightarrow> rw_acquire (row_abs r) md \<noteq> None"
  by (cases md; cases "lock_type r") (auto simp: is_compatible_def row_abs_def)

text \<open>Granting the lock (the two assignments both lock routines share).\<close>

definition grant :: "row \<Rightarrow> AccessMode \<Rightarrow> row" where
  "grant r md = r\<lparr>owner_cnt := owner_cnt r + 1, lock_type := md\<rparr>"

lemma grant_sel [simp]:
  "lock_type (grant r md) = md" "r_tuple (grant r md) = r_tuple r" "last_acq (grant r md) = last_acq r"
  "owner_cnt (grant r md) = owner_cnt r + 1"
  by (simp_all add: grant_def)

lemma grant_abs:
  assumes "row_wf r" "owner_room r" "md \<noteq> INVALID" "is_compatible r md"
  shows "rw_acquire (row_abs r) md = Some (row_abs (grant r md))" and "row_wf (grant r md)"
proof -
  have u: "unat (owner_cnt r + 1) = Suc (unat (owner_cnt r))" by (rule unat_Suc_room [OF assms(2)])
  then have nz: "owner_cnt r + 1 \<noteq> 0" by (metis nat.simps(3) unat_0)
  show "rw_acquire (row_abs r) md = Some (row_abs (grant r md))"
    using assms u by (cases md; cases "lock_type r")
      (auto simp: is_compatible_def row_abs_def row_wf_def)
  show "row_wf (grant r md)"
    using assms nz by (cases md; cases "lock_type r")
      (auto simp: is_compatible_def row_wf_def)
qed

lemma local_lock_locked_cases:
  assumes "local_lock_locked cfg self r md f = Inr (e, r', f')"
  obtains (granted) "e = SUCCESS" "is_compatible r md" "mb_allow_lock cfg r (f_last_acq f) = Inr True"
      "r' = grant r md" "f' = f\<lparr>f_tuple := self, f_last_acq := last_acq r\<rparr>"
    | (refused) "e = lock_failed md" "e \<noteq> SUCCESS" "r' = r" "f' = f"
        "\<not> is_compatible r md \<or> mb_allow_lock cfg r (f_last_acq f) = Inr False"
  using assms by (cases md)
    (auto simp: local_lock_locked_def bind_res_eq_Inr grant_def split: if_splits)

lemma local_unlock_abs:
  assumes "row_wf r" "lock_type r = md" "md \<noteq> INVALID"
  shows "fst (local_unlock r md i) = SUCCESS"
    and "rw_release (row_abs r) md = Some (row_abs (snd (local_unlock r md i)))"
    and "row_wf (snd (local_unlock r md i))"
    and "last_acq (snd (local_unlock r md i)) = i"
    and "r_tuple (snd (local_unlock r md i)) = r_tuple r"
proof -
  have nz: "owner_cnt r \<noteq> 0" using assms by (auto simp: row_wf_def)
  have u: "unat (owner_cnt r - 1) = unat (owner_cnt r) - 1" by (rule unat_dec [OF nz])
  show "fst (local_unlock r md i) = SUCCESS" "last_acq (snd (local_unlock r md i)) = i"
    "r_tuple (snd (local_unlock r md i)) = r_tuple r"
    using assms by (auto simp: local_unlock_def Let_def)
  show "rw_release (row_abs r) md = Some (row_abs (snd (local_unlock r md i)))"
    using assms u nz by (cases md)
      (auto simp: local_unlock_def Let_def row_abs_def row_wf_def owner_pos)
  show "row_wf (snd (local_unlock r md i))"
    using assms nz by (cases md) (auto simp: local_unlock_def Let_def row_wf_def word_gt_0)
qed

section \<open>The lock contract and its holders\<close>

text \<open>Which transactions hold a lock in state \<open>st\<close>, and in which mode.\<close>

definition holders_ok :: "rw_state \<Rightarrow> (nat \<rightharpoonup> AccessMode) \<Rightarrow> bool" where
  "holders_ok st H \<longleftrightarrow> finite (dom H) \<and>
     (case st of Free \<Rightarrow> dom H = {}
      | Shared n \<Rightarrow> card (dom H) = n \<and> n \<noteq> 0 \<and> (\<forall>t md. H t = Some md \<longrightarrow> md = READ)
      | Exclusive \<Rightarrow> (\<exists>t. H = [t \<mapsto> WRITE]))"

lemma holders_ok_Free [simp]: "holders_ok Free H \<longleftrightarrow> H = Map.empty"
  by (auto simp: holders_ok_def)

lemma holders_ok_Exclusive [simp]: "holders_ok Exclusive H \<longleftrightarrow> (\<exists>t. H = [t \<mapsto> WRITE])"
  by (auto simp: holders_ok_def)

lemma holders_ok_Shared:
  "holders_ok (Shared n) H \<longleftrightarrow>
     finite (dom H) \<and> card (dom H) = n \<and> n \<noteq> 0 \<and> (\<forall>t md. H t = Some md \<longrightarrow> md = READ)"
  by (simp add: holders_ok_def)

lemma holders_acquire:
  assumes "holders_ok st H" "H t = None" "rw_acquire st md = Some st'"
  shows "holders_ok st' (H(t \<mapsto> md))"
proof (cases st)
  case Free
  with assms show ?thesis by (cases md) (auto simp: holders_ok_Shared)
next
  case (Shared n)
  have t: "t \<notin> dom H" using assms(2) by auto
  from Shared assms show ?thesis
    by (cases md) (auto simp: holders_ok_Shared card_insert_disjoint [OF _ t])
next
  case Exclusive
  with assms show ?thesis by (cases md) auto
qed

lemma holders_release:
  assumes "holders_ok st H" "H t = Some md" "rw_release st md = Some st'"
  shows "holders_ok st' (H(t := None))"
proof (cases st)
  case Free
  with assms show ?thesis by auto
next
  case (Shared n)
  with assms have H: "finite (dom H)" "card (dom H) = n" "\<forall>u md. H u = Some md \<longrightarrow> md = READ"
    and md: "md = READ" and n: "n \<noteq> 0"
    by (auto simp: holders_ok_Shared)
  have c: "card (dom H - {t}) = n - 1" using assms(2) H by (simp add: card_Diff_singleton_if domIff)
  show ?thesis
  proof (cases "n \<le> 1")
    case True
    with c H(1) have "dom H - {t} = {}" by simp
    then have "H(t := None) = Map.empty" by (auto simp: fun_eq_iff domIff)
    with assms(3) Shared md True show ?thesis by simp
  next
    case False
    with c H Shared md assms(3) show ?thesis by (auto simp: holders_ok_Shared)
  qed
next
  case Exclusive
  with assms show ?thesis by (cases md) (auto split: if_splits)
qed

lemma holders_exclusive:
  assumes "holders_ok st H" "H t = Some WRITE" "H u = Some md"
  shows "t = u"
  using assms by (cases st) (auto simp: holders_ok_Shared split: if_splits)

text \<open>
  What a client of a row lock relies on: a granted request and a release move the abstract
  lock. The client facts about the set of holders are proved here once.
\<close>

locale rw_lock =
  fixes abs :: "'s \<Rightarrow> rw_state"
    and wf :: "'s \<Rightarrow> bool"
    and grants :: "'s \<Rightarrow> AccessMode \<Rightarrow> 's \<Rightarrow> bool"
    and frees :: "'s \<Rightarrow> AccessMode \<Rightarrow> 's \<Rightarrow> bool"
  assumes grants_abs: "wf s \<Longrightarrow> grants s md s' \<Longrightarrow> rw_acquire (abs s) md = Some (abs s') \<and> wf s'"
    and frees_abs: "wf s \<Longrightarrow> frees s md s' \<Longrightarrow> rw_release (abs s) md \<noteq> None \<Longrightarrow>
      rw_release (abs s) md = Some (abs s') \<and> wf s'"
begin

definition held :: "'s \<Rightarrow> (nat \<rightharpoonup> AccessMode) \<Rightarrow> bool" where
  "held s H \<longleftrightarrow> wf s \<and> holders_ok (abs s) H"

lemma held_grants: "held s H \<Longrightarrow> H t = None \<Longrightarrow> grants s md s' \<Longrightarrow> held s' (H(t \<mapsto> md))"
  using grants_abs holders_acquire by (fastforce simp: held_def)

lemma held_release_defined: "held s H \<Longrightarrow> H t = Some md \<Longrightarrow> rw_release (abs s) md \<noteq> None"
  by (cases md; cases "abs s") (fastforce simp: held_def holders_ok_Shared split: if_splits)+

lemma held_frees: "held s H \<Longrightarrow> H t = Some md \<Longrightarrow> frees s md s' \<Longrightarrow> held s' (H(t := None))"
  using frees_abs held_release_defined holders_release by (fastforce simp: held_def)

lemma held_exclusive: "held s H \<Longrightarrow> H t = Some WRITE \<Longrightarrow> H u = Some md \<Longrightarrow> t = u"
  using holders_exclusive by (fastforce simp: held_def)

lemma held_none: "held s Map.empty \<Longrightarrow> abs s = Free"
  by (cases "abs s") (auto simp: held_def holders_ok_Shared dest: sym)

end

definition row_grants :: "row \<Rightarrow> AccessMode \<Rightarrow> row \<Rightarrow> bool" where
  "row_grants r md r' \<longleftrightarrow> owner_room r \<and> md \<noteq> INVALID \<and> is_compatible r md \<and> r' = grant r md"

definition row_frees :: "row \<Rightarrow> AccessMode \<Rightarrow> row \<Rightarrow> bool" where
  "row_frees r md r' \<longleftrightarrow> (\<exists>i t. r' = snd (local_unlock (r\<lparr>r_tuple := t\<rparr>) md i))"

lemma release_lock_type: "rw_release (row_abs r) md \<noteq> None \<Longrightarrow> lock_type r = md \<and> md \<noteq> INVALID"
  by (cases md; cases "lock_type r") (auto simp: row_abs_def)

lemma row_upd_tuple [simp]:
  "row_wf (r\<lparr>r_tuple := t\<rparr>) = row_wf r" "row_abs (r\<lparr>r_tuple := t\<rparr>) = row_abs r"
  by (simp_all add: row_wf_def row_abs_def split: AccessMode.split)

interpretation row_lock: rw_lock row_abs row_wf row_grants row_frees
proof
  fix s md s'
  assume "row_wf s" "row_grants s md s'"
  then show "rw_acquire (row_abs s) md = Some (row_abs s') \<and> row_wf s'"
    using grant_abs [of s md] by (auto simp: row_grants_def)
next
  fix s md s'
  assume wf: "row_wf s" and fr: "row_frees s md s'" and d: "rw_release (row_abs s) md \<noteq> None"
  from fr obtain i t where s': "s' = snd (local_unlock (s\<lparr>r_tuple := t\<rparr>) md i)"
    by (auto simp: row_frees_def)
  have l: "lock_type (s\<lparr>r_tuple := t\<rparr>) = md" "md \<noteq> INVALID"
    using release_lock_type [OF d] by auto
  have w: "row_wf (s\<lparr>r_tuple := t\<rparr>)" using wf by simp
  show "rw_release (row_abs s) md = Some (row_abs s') \<and> row_wf s'"
    using local_unlock_abs(2,3) [OF w l, of i] by (simp add: s')
qed

section \<open>Transactions interleaved on one row\<close>

text \<open>
  \<open>sys_row\<close> is the row, \<open>holders\<close> the transactions (of any worker of any node) that were
  granted its lock and have not released it. A local request and release run under the row's
  mutex; a remote one runs in the owner's message handler, under the same mutex.
\<close>

record row_sys =
  sys_row :: row
  holders :: "nat \<rightharpoonup> AccessMode"

definition row_sys_init :: "row_sys \<Rightarrow> bool" where
  "row_sys_init s \<longleftrightarrow> (\<exists>t. s = \<lparr>sys_row = Row_mk t, holders = Map.empty\<rparr>)"

inductive row_step :: "build_cfg \<Rightarrow> row_sys \<Rightarrow> row_sys \<Rightarrow> bool" for cfg where
  local_acquire: "holders s t = None \<Longrightarrow> md \<noteq> INVALID \<Longrightarrow> owner_room (sys_row s) \<Longrightarrow>
    local_lock_locked cfg self (sys_row s) md f = Inr (SUCCESS, r', f') \<Longrightarrow>
    row_step cfg s (s\<lparr>sys_row := r', holders := (holders s)(t \<mapsto> md)\<rparr>)"
| local_refused: "local_lock_locked cfg self (sys_row s) md f = Inr (e, r', f') \<Longrightarrow> e \<noteq> SUCCESS \<Longrightarrow>
    row_step cfg s (s\<lparr>sys_row := r'\<rparr>)"
| remote_acquire: "holders s t = None \<Longrightarrow> m_mode req \<noteq> INVALID \<Longrightarrow> owner_room (sys_row s) \<Longrightarrow>
    remote_lock cfg (sys_row s) req = Inr (r', res) \<Longrightarrow> m_mode res \<noteq> INVALID \<Longrightarrow>
    row_step cfg s (s\<lparr>sys_row := r', holders := (holders s)(t \<mapsto> m_mode req)\<rparr>)"
| remote_refused: "m_mode req \<noteq> INVALID \<Longrightarrow> remote_lock cfg (sys_row s) req = Inr (r', res) \<Longrightarrow>
    m_mode res = INVALID \<Longrightarrow> row_step cfg s (s\<lparr>sys_row := r'\<rparr>)"
| local_write: "holders s t = Some WRITE \<Longrightarrow>
    row_step cfg s (s\<lparr>sys_row := (sys_row s)\<lparr>r_tuple := v\<rparr>\<rparr>)"
| local_release: "holders s t = Some md \<Longrightarrow> local_unlock (sys_row s) md i = (e, r') \<Longrightarrow>
    row_step cfg s (s\<lparr>sys_row := r', holders := (holders s)(t := None)\<rparr>)"
| remote_release: "holders s t = Some (m_mode req) \<Longrightarrow> remote_unlock (sys_row s) req = Inr r' \<Longrightarrow>
    row_step cfg s (s\<lparr>sys_row := r', holders := (holders s)(t := None)\<rparr>)"

lemma remote_lock_cases:
  assumes "remote_lock cfg r req = Inr (r', res)" "m_mode req \<noteq> INVALID"
  obtains (granted) "m_mode res = m_mode req" "is_compatible r (m_mode req)" "r' = grant r (m_mode req)"
      "mb_allow_lock cfg r (TxnId_unpack (pack req)) = Inr True"
      "res = (convert TUPLE_GET_RES req)\<lparr>plen := sizeof_msg TUPLE_GET_RES + sizeof_KV,
         pack := get_packed (last_acq r), m_tuple := Some (r_tuple r)\<rparr>"
    | (refused) "m_mode res = INVALID" "r' = r" "res = (convert TUPLE_GET_RES req)\<lparr>m_mode := INVALID\<rparr>"
        "\<not> is_compatible r (m_mode req) \<or> mb_allow_lock cfg r (TxnId_unpack (pack req)) = Inr False"
proof -
  from assms(1) obtain al where al: "mb_allow_lock cfg r (TxnId_unpack (pack req)) = Inr al"
    by (auto simp: remote_lock_def bind_res_eq_Inr)
  show ?thesis
  proof (cases "is_compatible r (m_mode req) \<and> al")
    case True
    with assms al show ?thesis
      by (intro granted) (auto simp: remote_lock_def grant_def convert_def)
  next
    case False
    with assms al show ?thesis
      by (intro refused) (auto simp: remote_lock_def)
  qed
qed

lemma remote_unlock_frees: "remote_unlock r req = Inr r' \<Longrightarrow> row_frees r (m_mode req) r'"
proof -
  assume a: "remote_unlock r req = Inr r'"
  have "\<exists>t. r' = snd (local_unlock (r\<lparr>r_tuple := t\<rparr>) (m_mode req) (TxnId_unpack (pack req)))"
  proof (cases "m_mode req = WRITE")
    case True
    with a show ?thesis by (auto simp: remote_unlock_def bind_res_eq_Inr split: option.splits)
  next
    case False
    with a have "r' = snd (local_unlock (r\<lparr>r_tuple := r_tuple r\<rparr>) (m_mode req) (TxnId_unpack (pack req)))"
      by (simp add: remote_unlock_def)
    then show ?thesis by blast
  qed
  then show ?thesis by (auto simp: row_frees_def)
qed

lemma local_unlock_frees: "row_frees r md (snd (local_unlock r md i))"
  by (auto simp: row_frees_def intro!: exI [of _ i] exI [of _ "r_tuple r"])

lemma row_step_held:
  assumes "row_step cfg s s'" "row_lock.held (sys_row s) (holders s)"
  shows "row_lock.held (sys_row s') (holders s')"
  using assms
proof (induction rule: row_step.induct)
  case (local_acquire s t md self f r' f')
  from local_acquire(4) have "row_grants (sys_row s) md r'"
    by (cases rule: local_lock_locked_cases) (use local_acquire(2,3) in \<open>auto simp: row_grants_def\<close>)
  with local_acquire show ?case
    using row_lock.held_grants [of "sys_row s" "holders s" t md r'] by (simp del: fun_upd_apply)
next
  case (local_refused self s md f e r' f')
  from local_refused(1) show ?case
    by (cases rule: local_lock_locked_cases) (use local_refused in auto)
next
  case (remote_acquire s t req r' res)
  from remote_acquire(4,2) have "row_grants (sys_row s) (m_mode req) r'"
    by (cases rule: remote_lock_cases) (use remote_acquire(2,3,5) in \<open>auto simp: row_grants_def\<close>)
  with remote_acquire show ?case
    using row_lock.held_grants [of "sys_row s" "holders s" t "m_mode req" r'] by (simp del: fun_upd_apply)
next
  case (remote_refused req s r' res)
  from remote_refused(2,1) show ?case
    by (cases rule: remote_lock_cases) (use remote_refused in auto)
next
  case (local_write s t v)
  then show ?case by (simp add: row_lock.held_def)
next
  case (local_release s t md i e r')
  then have "row_frees (sys_row s) md r'" by (metis local_unlock_frees snd_conv)
  with local_release show ?case
    using row_lock.held_frees [of "sys_row s" "holders s" t md r'] by (simp del: fun_upd_apply)
next
  case (remote_release s t req r')
  then show ?case
    using row_lock.held_frees [of "sys_row s" "holders s" t "m_mode req" r'] remote_unlock_frees
    by (simp del: fun_upd_apply)
qed

interpretation row_sys: inv_system row_sys_init "row_step cfg"
  "\<lambda>s. row_lock.held (sys_row s) (holders s)"
proof
  show "row_lock.held (sys_row s) (holders s)" if "row_sys_init s" for s
    using that by (auto simp: row_sys_init_def row_lock.held_def)
qed (rule row_step_held)

text \<open>
  C12. Isolation. Whatever the interleaving of lock requests, refusals, writes and releases
  of local and remote transactions on a row, a transaction that holds the row's lock in
  write mode is its only holder, and a row without holders is unlocked.
\<close>

theorem row_mutual_exclusion:
  assumes "row_sys_init s" "(row_step cfg)\<^sup>*\<^sup>* s s'"
  shows "(holders s' t = Some WRITE \<and> holders s' u = Some md \<longrightarrow> t = u) \<and>
    (holders s' = Map.empty \<longrightarrow> lock_type (sys_row s') = INVALID \<and> owner_cnt (sys_row s') = 0)"
proof -
  have h: "row_lock.held (sys_row s') (holders s')" using row_sys.reach_inv [OF assms] .
  have "holders s' t = Some WRITE \<Longrightarrow> holders s' u = Some md \<Longrightarrow> t = u"
    by (rule row_lock.held_exclusive [OF h])
  moreover have "lock_type (sys_row s') = INVALID \<and> owner_cnt (sys_row s') = 0" if "holders s' = Map.empty"
  proof -
    have "row_abs (sys_row s') = Free" using h that by (simp add: row_lock.held_none)
    then have "lock_type (sys_row s') = INVALID"
      by (cases "lock_type (sys_row s')") (auto simp: row_abs_def)
    then show ?thesis using h by (simp add: row_lock.held_def row_wf_def)
  qed
  ultimately show ?thesis by blast
qed

definition row_demo :: "row_sys" where
  "row_demo = \<lparr>sys_row = Row_mk \<lparr>kv_id = 0, kv_value = 0\<rparr>, holders = Map.empty\<rparr>"

definition row_demo_locked :: "row_sys" where
  "row_demo_locked = row_demo\<lparr>sys_row := grant (sys_row row_demo) WRITE, holders := [1 \<mapsto> WRITE]\<rparr>"

lemma row_demo_step: "row_step default_build row_demo row_demo_locked"
proof -
  have l: "local_lock_locked default_build NullPtr (sys_row row_demo) WRITE
      (TupleFuture_mk\<lparr>f_last_acq := TxnId_mk True 1 1\<rparr>) = Inr (SUCCESS, grant (sys_row row_demo) WRITE,
       TupleFuture_mk\<lparr>f_last_acq := last_acq (sys_row row_demo)\<rparr>)"
    by (simp add: local_lock_locked_def mb_allow_lock_def row_demo_def Row_mk_def is_compatible_def
        grant_def TupleFuture_mk_def)
  show ?thesis
    using row_step.local_acquire [of row_demo 1 WRITE, OF _ _ _ l]
    by (simp add: row_demo_locked_def row_demo_def owner_room_def Row_mk_def)
qed

theorem row_mutual_exclusion_witness:
  "row_sys_init row_demo \<and> (row_step default_build)\<^sup>*\<^sup>* row_demo row_demo_locked \<and>
   holders row_demo_locked 1 = Some WRITE \<and> holders row_demo_locked 2 \<noteq> Some READ"
proof -
  have i: "row_sys_init row_demo" by (auto simp: row_sys_init_def row_demo_def)
  have r: "(row_step default_build)\<^sup>*\<^sup>* row_demo row_demo_locked" using row_demo_step by blast
  have h: "holders row_demo_locked 1 = Some WRITE" by (simp add: row_demo_locked_def)
  from row_mutual_exclusion [OF i r, of 1 2 READ] h have "holders row_demo_locked 2 \<noteq> Some READ" by auto
  with i r h show ?thesis by blast
qed

section \<open>Mini-batch order\<close>

text \<open>
  The rule of \<open>mb_allow_lock\<close>: within one mini-batch, a row serves the accelerated
  transactions of a single node. \<open>mb_sys\<close> is a row of node \<open>n\<close>, the accelerated transactions that hold it
  and the ids that committed on the row, latest first, after the id the row is created with. Transactions of node \<open>n\<close>
  call \<open>local_lock\<close> and \<open>local_unlock\<close>; those of other nodes come by messages, with \<open>remote_lock\<close>
  and \<open>remote_unlock\<close> and their ids packed. A holder is its mode, its own id and the \<open>last_acq\<close> of the row that it was
  told, by its future or by the response. A commit
  releases with the transaction's id (\<open>my_execute\<close> stores it in the future), an abort with
  the id it was told. \<open>M\<close> is the set of access modes in use.
\<close>

datatype mb_holder = Local (mb_mode: AccessMode) (mb_id: TxnId) (mb_told: TxnId)
  | Remote (mb_mode: AccessMode) (mb_id: TxnId) (mb_told: TxnId)

record mb_sys =
  mb_row :: row
  mb_held :: "nat \<rightharpoonup> mb_holder"
  mb_commits :: "TxnId list"

definition mb_init :: "mb_sys \<Rightarrow> bool" where
  "mb_init s \<longleftrightarrow>
     (\<exists>t. s = \<lparr>mb_row = Row_mk t, mb_held = Map.empty, mb_commits = [TxnId_mk True 0 0]\<rparr>)"

inductive mb_step :: "build_cfg \<Rightarrow> 4 word \<Rightarrow> AccessMode set \<Rightarrow> mb_sys \<Rightarrow> mb_sys \<Rightarrow> bool" for cfg n M where
  mb_acquire: "mb_held s t = None \<Longrightarrow> md \<in> M \<Longrightarrow> valid i \<Longrightarrow> node_id i = n \<Longrightarrow> owner_room (mb_row s) \<Longrightarrow>
    local_lock_locked cfg self (mb_row s) md (TupleFuture_mk\<lparr>f_last_acq := i\<rparr>) = Inr (SUCCESS, r', f') \<Longrightarrow>
    mb_step cfg n M s (s\<lparr>mb_row := r', mb_held := (mb_held s)(t \<mapsto> Local md i (f_last_acq f'))\<rparr>)"
| mb_remote_acquire: "mb_held s t = None \<Longrightarrow> md \<in> M \<Longrightarrow> valid i \<Longrightarrow> node_id i \<noteq> n \<Longrightarrow> owner_room (mb_row s) \<Longrightarrow>
    remote_lock cfg (mb_row s) (TupleGetReq_mk ts tbl k md i) = Inr (r', res) \<Longrightarrow> m_mode res \<noteq> INVALID \<Longrightarrow>
    mb_step cfg n M s (s\<lparr>mb_row := r', mb_held := (mb_held s)(t \<mapsto> Remote md i (TxnId_unpack (pack res)))\<rparr>)"
| mb_refused: "md \<in> M \<Longrightarrow> valid i \<Longrightarrow> node_id i = n \<Longrightarrow>
    local_lock_locked cfg self (mb_row s) md (TupleFuture_mk\<lparr>f_last_acq := i\<rparr>) = Inr (e, r', f') \<Longrightarrow> e \<noteq> SUCCESS \<Longrightarrow>
    mb_step cfg n M s (s\<lparr>mb_row := r'\<rparr>)"
| mb_remote_refused: "md \<in> M \<Longrightarrow> md \<noteq> INVALID \<Longrightarrow> valid i \<Longrightarrow> node_id i \<noteq> n \<Longrightarrow>
    remote_lock cfg (mb_row s) (TupleGetReq_mk ts tbl k md i) = Inr (r', res) \<Longrightarrow> m_mode res = INVALID \<Longrightarrow>
    mb_step cfg n M s (s\<lparr>mb_row := r'\<rparr>)"
| mb_commit: "mb_held s t = Some (Local md i old) \<Longrightarrow> local_unlock (mb_row s) md i = (e, r') \<Longrightarrow>
    mb_step cfg n M s (s\<lparr>mb_row := r', mb_held := (mb_held s)(t := None), mb_commits := i # mb_commits s\<rparr>)"
| mb_remote_commit: "mb_held s t = Some (Remote md i old) \<Longrightarrow> m_mode req = md \<Longrightarrow> pack req = get_packed i \<Longrightarrow>
    remote_unlock (mb_row s) req = Inr r' \<Longrightarrow>
    mb_step cfg n M s (s\<lparr>mb_row := r', mb_held := (mb_held s)(t := None), mb_commits := i # mb_commits s\<rparr>)"
| mb_abort: "mb_held s t = Some (Local md i old) \<Longrightarrow> local_unlock (mb_row s) md old = (e, r') \<Longrightarrow>
    mb_step cfg n M s (s\<lparr>mb_row := r', mb_held := (mb_held s)(t := None)\<rparr>)"
| mb_remote_abort: "mb_held s t = Some (Remote md i old) \<Longrightarrow> m_mode req = md \<Longrightarrow> pack req = get_packed old \<Longrightarrow>
    remote_unlock (mb_row s) req = Inr r' \<Longrightarrow>
    mb_step cfg n M s (s\<lparr>mb_row := r', mb_held := (mb_held s)(t := None)\<rparr>)"

text \<open>The order the rule allows between the last committed id and the next.\<close>

definition mb_after :: "TxnId \<Rightarrow> TxnId \<Rightarrow> bool" where
  "mb_after a b \<longleftrightarrow> mini_batch_id a \<le> mini_batch_id b \<and>
     (mini_batch_id a = mini_batch_id b \<longrightarrow> node_id a = node_id b)"

lemma mb_allow_after:
  "valid t \<Longrightarrow> USE_FLOW_ORDER cfg \<Longrightarrow> mb_allow_lock cfg r t = Inr True \<longleftrightarrow> mb_after (last_acq r) t"
  by (auto simp: mb_allow_lock_def mb_after_def assert_res_def split: if_splits)

lemma mb_after_trans: "mb_after a b \<Longrightarrow> mb_after b c \<Longrightarrow> mb_after a c"
  by (auto simp: mb_after_def)

text \<open>With write locks only, the row's \<open>last_acq\<close> is always the last commit.\<close>

definition mb_inv :: "mb_sys \<Rightarrow> bool" where
  "mb_inv s \<longleftrightarrow> mb_commits s \<noteq> [] \<and> sorted_wrt (\<lambda>a b. mb_after b a) (mb_commits s) \<and>
     last_acq (mb_row s) = hd (mb_commits s) \<and> row_wf (mb_row s) \<and>
     (lock_type (mb_row s) = INVALID \<and> mb_held s = Map.empty \<or>
      lock_type (mb_row s) = WRITE \<and>
        (\<exists>t h. mb_held s = [t \<mapsto> h] \<and> mb_mode h = WRITE \<and> mb_told h = last_acq (mb_row s) \<and>
           mb_after (last_acq (mb_row s)) (mb_id h)))"

lemma mb_inv_held:
  assumes "mb_inv s" "mb_held s t = Some h"
  shows "mb_mode h = WRITE" "mb_told h = last_acq (mb_row s)" "mb_after (last_acq (mb_row s)) (mb_id h)"
    "(mb_held s)(t := None) = Map.empty" "row_wf (mb_row s)" "lock_type (mb_row s) = WRITE"
  using assms by (auto simp: mb_inv_def split: if_splits)

text \<open>Both ways to take the lock, and both to release it, change the row alike.\<close>

lemma mb_inv_grant:
  assumes "mb_inv s" "USE_FLOW_ORDER cfg" "valid i" "owner_room (mb_row s)" "is_compatible (mb_row s) WRITE"
    "mb_allow_lock cfg (mb_row s) i = Inr True" "mb_mode h = WRITE" "mb_id h = i" "mb_told h = last_acq (mb_row s)"
  shows "mb_inv (s\<lparr>mb_row := grant (mb_row s) WRITE, mb_held := (mb_held s)(t \<mapsto> h)\<rparr>)"
proof -
  have "lock_type (mb_row s) = INVALID" using assms(5) by (auto simp: is_compatible_def split: if_splits)
  then have e: "mb_held s = Map.empty" using assms(1) by (auto simp: mb_inv_def)
  have aft: "mb_after (last_acq (mb_row s)) i" using mb_allow_after [OF assms(3,2)] assms(6) by simp
  have wf: "row_wf (grant (mb_row s) WRITE)" using grant_abs(2) [of "mb_row s" WRITE] assms(1,4,5) by (simp add: mb_inv_def)
  have "\<exists>u g. [t \<mapsto> h] = [u \<mapsto> g] \<and> mb_mode g = WRITE \<and> mb_told g = last_acq (mb_row s) \<and> mb_after (last_acq (mb_row s)) (mb_id g)"
    using aft assms(7-9) by blast
  then show ?thesis using assms(1) e wf by (simp add: mb_inv_def del: fun_upd_apply)
qed

lemma mb_inv_unlock:
  assumes "mb_inv s" "mb_held s t = Some h" "mb_mode h = md" "r' = snd (local_unlock ((mb_row s)\<lparr>r_tuple := v\<rparr>) md j)"
  shows "lock_type r' = INVALID" "row_wf r'" "last_acq r' = j"
proof -
  note held = mb_inv_held [OF assms(1,2)]
  let ?r = "(mb_row s)\<lparr>r_tuple := v\<rparr>"
  have lt: "row_wf ?r" "lock_type ?r = md" "md \<noteq> INVALID" using held assms(3) by simp_all
  show "row_wf r'" "last_acq r' = j" using local_unlock_abs [OF lt, of j] assms(4) by simp_all
  show "lock_type r' = INVALID"
    using held(1,6) lt(1) assms(3,4) by (auto simp: local_unlock_def Let_def row_wf_def)
qed

lemma mb_inv_commit:
  assumes "mb_inv s" "mb_held s t = Some h" "mb_mode h = md" "mb_id h = i"
    "r' = snd (local_unlock ((mb_row s)\<lparr>r_tuple := v\<rparr>) md i)"
  shows "mb_inv (s\<lparr>mb_row := r', mb_held := (mb_held s)(t := None), mb_commits := i # mb_commits s\<rparr>)"
proof -
  note held = mb_inv_held [OF assms(1,2)]
  obtain c cs where c: "mb_commits s = c # cs" "last_acq (mb_row s) = c"
    using assms(1) by (cases "mb_commits s") (auto simp: mb_inv_def)
  with assms(1,4) held(3) have "sorted_wrt (\<lambda>a b. mb_after b a) (i # mb_commits s)"
    by (auto simp: mb_inv_def intro: mb_after_trans)
  then show ?thesis using held(4) mb_inv_unlock [OF assms(1-3,5)] by (simp add: mb_inv_def del: fun_upd_apply)
qed

lemma mb_inv_abort:
  assumes "mb_inv s" "mb_held s t = Some h" "mb_mode h = md" "mb_told h = old"
    "r' = snd (local_unlock ((mb_row s)\<lparr>r_tuple := v\<rparr>) md old)"
  shows "mb_inv (s\<lparr>mb_row := r', mb_held := (mb_held s)(t := None)\<rparr>)"
  using mb_inv_held(2,4) [OF assms(1,2)] mb_inv_unlock [OF assms(1-3,5)] assms(1,4)
  by (simp add: mb_inv_def del: fun_upd_apply)

lemma local_unlock_tuple: "local_unlock r md i = (e, r') \<Longrightarrow> r' = snd (local_unlock (r\<lparr>r_tuple := r_tuple r\<rparr>) md i)"
  by simp

lemma remote_unlock_tuple:
  assumes "remote_unlock r req = Inr r'" "m_mode req = md" "pack req = get_packed i"
  obtains v where "r' = snd (local_unlock (r\<lparr>r_tuple := v\<rparr>) md i)"
proof (cases "md = WRITE")
  case True
  with assms that show thesis by (auto simp: remote_unlock_def bind_res_eq_Inr split: option.splits)
next
  case False
  with assms that [of "r_tuple r"] show thesis by (simp add: remote_unlock_def)
qed

lemma TupleGetReq_sel [simp]: "m_mode (TupleGetReq_mk ts tbl k md i) = md" "pack (TupleGetReq_mk ts tbl k md i) = get_packed i"
  by (simp_all add: TupleGetReq_mk_def)

lemma mb_step_inv:
  assumes "mb_step cfg n {WRITE} s s'" "USE_FLOW_ORDER cfg" "mb_inv s"
  shows "mb_inv s'"
  using assms
proof (induction rule: mb_step.induct)
  case (mb_acquire s t md i self r' f')
  from mb_acquire(6) show ?case
    by (cases rule: local_lock_locked_cases) (use mb_acquire in \<open>auto intro!: mb_inv_grant simp del: fun_upd_apply\<close>)
next
  case (mb_remote_acquire s t md i ts tbl k r' res)
  have "m_mode (TupleGetReq_mk ts tbl k md i) \<noteq> INVALID" using mb_remote_acquire(2) by simp
  with mb_remote_acquire(6) show ?case
    by (cases rule: remote_lock_cases) (use mb_remote_acquire in \<open>auto intro!: mb_inv_grant simp del: fun_upd_apply\<close>)
next
  case (mb_refused md i self s e r' f')
  from mb_refused(4) show ?case by (cases rule: local_lock_locked_cases) (use mb_refused in simp_all)
next
  case (mb_remote_refused md i s ts tbl k r' res)
  have "m_mode (TupleGetReq_mk ts tbl k md i) \<noteq> INVALID" using mb_remote_refused(2) by simp
  with mb_remote_refused(5) show ?case by (cases rule: remote_lock_cases) (use mb_remote_refused in simp_all)
next
  case (mb_commit s t md i old e r')
  show ?case by (rule mb_inv_commit [OF mb_commit.prems(2) mb_commit(1) _ _ local_unlock_tuple [OF mb_commit(2)]]) simp_all
next
  case (mb_remote_commit s t md i old req r')
  obtain v where "r' = snd (local_unlock ((mb_row s)\<lparr>r_tuple := v\<rparr>) md i)"
    by (rule remote_unlock_tuple [OF mb_remote_commit(4,2,3)])
  then show ?case by (rule mb_inv_commit [OF mb_remote_commit.prems(2) mb_remote_commit(1), rotated 2]) simp_all
next
  case (mb_abort s t md i old e r')
  show ?case by (rule mb_inv_abort [OF mb_abort.prems(2) mb_abort(1) _ _ local_unlock_tuple [OF mb_abort(2)]]) simp_all
next
  case (mb_remote_abort s t md i old req r')
  obtain v where "r' = snd (local_unlock ((mb_row s)\<lparr>r_tuple := v\<rparr>) md old)"
    by (rule remote_unlock_tuple [OF mb_remote_abort(4,2,3)])
  then show ?case by (rule mb_inv_abort [OF mb_remote_abort.prems(2) mb_remote_abort(1), rotated 2]) simp_all
qed

interpretation mb_flow: inv_system mb_init "mb_step default_build n {WRITE}" mb_inv for n
proof
  show "mb_inv s" if "mb_init s" for s
    using that by (auto simp: mb_init_def mb_inv_def Row_mk_def row_wf_def)
  show "mb_inv s'" if "mb_inv s" "mb_step default_build n {WRITE} s s'" for s s'
    using mb_step_inv [OF that(2) _ that(1)] by (simp add: default_build_def)
qed

text \<open>
  C14. Flow order of writes. When the accelerated transactions only write, two commits on a
  row in the same mini-batch come from the same node, in every interleaving of local and remote lock requests,
  refusals, commits and aborts, on any node's row.
\<close>

theorem mb_write_commits_one_node:
  assumes "mb_init s" "(mb_step default_build n {WRITE})\<^sup>*\<^sup>* s s'"
    and "a \<in> set (mb_commits s')" "b \<in> set (mb_commits s')" "mini_batch_id a = mini_batch_id b"
  shows "node_id a = node_id b"
proof -
  have "sorted_wrt (\<lambda>a b. mb_after b a) (mb_commits s')"
    using mb_flow.reach_inv [OF assms(1,2)] by (simp add: mb_inv_def)
  with assms(3-5) show ?thesis
    by (induction "mb_commits s'" arbitrary: s')
      (auto simp: sorted_wrt_iff_nth_less in_set_conv_nth mb_after_def, (metis linorder_neqE_nat)+)
qed

text \<open>Runs used as examples.\<close>

definition mb_demo :: "mb_sys" where
  "mb_demo = \<lparr>mb_row = Row_mk \<lparr>kv_id = 0, kv_value = 0\<rparr>, mb_held = Map.empty,
     mb_commits = [TxnId_mk True 0 0]\<rparr>"

definition mb_locked :: "mb_sys \<Rightarrow> nat \<Rightarrow> (AccessMode \<Rightarrow> TxnId \<Rightarrow> TxnId \<Rightarrow> mb_holder) \<Rightarrow> AccessMode \<Rightarrow> TxnId \<Rightarrow> mb_sys" where
  "mb_locked s t h md i = s\<lparr>mb_row := grant (mb_row s) md, mb_held := (mb_held s)(t \<mapsto> h md i (last_acq (mb_row s)))\<rparr>"

definition mb_committed :: "mb_sys \<Rightarrow> nat \<Rightarrow> AccessMode \<Rightarrow> TxnId \<Rightarrow> mb_sys" where
  "mb_committed s t md i = s\<lparr>mb_row := snd (local_unlock (mb_row s) md i), mb_held := (mb_held s)(t := None),
     mb_commits := i # mb_commits s\<rparr>"

definition mb_aborted :: "mb_sys \<Rightarrow> nat \<Rightarrow> AccessMode \<Rightarrow> TxnId \<Rightarrow> mb_sys" where
  "mb_aborted s t md i = s\<lparr>mb_row := snd (local_unlock (mb_row s) md i), mb_held := (mb_held s)(t := None)\<rparr>"

lemma mb_acquireI:
  assumes "mb_held s t = None" "md \<in> M" "valid i" "node_id i = n" "owner_room (mb_row s)" "is_compatible (mb_row s) md"
    "mb_allow_lock cfg (mb_row s) i = Inr True"
  shows "mb_step cfg n M s (mb_locked s t Local md i)"
proof -
  have "local_lock_locked cfg (RowPtr 0) (mb_row s) md (TupleFuture_mk\<lparr>f_last_acq := i\<rparr>) =
      Inr (SUCCESS, grant (mb_row s) md, TupleFuture_mk\<lparr>f_tuple := RowPtr 0, f_last_acq := last_acq (mb_row s)\<rparr>)"
    using assms(6,7) by (simp add: local_lock_locked_def grant_def TupleFuture_mk_def)
  from mb_acquire [where cfg = cfg, OF assms(1-5) this] show ?thesis by (simp add: mb_locked_def)
qed

lemma mb_remote_acquireI:
  assumes "mb_held s t = None" "md \<in> M" "valid i" "node_id i \<noteq> n" "owner_room (mb_row s)" "is_compatible (mb_row s) md"
    "mb_allow_lock cfg (mb_row s) i = Inr True" "md \<noteq> INVALID"
  shows "mb_step cfg n M s (mb_locked s t Remote md i)"
proof -
  let ?req = "TupleGetReq_mk 0 0 0 md i"
  obtain res where "remote_lock cfg (mb_row s) ?req = Inr (grant (mb_row s) md, res)" "m_mode res = md" "pack res = get_packed (last_acq (mb_row s))"
    using assms(6,7) by (simp add: remote_lock_def grant_def convert_def)
  from mb_remote_acquire [where cfg = cfg, OF assms(1-5) this(1)] this(2,3) assms(8) show ?thesis by (simp add: mb_locked_def)
qed

lemma mb_commitI: "mb_held s t = Some (Local md i old) \<Longrightarrow> mb_step cfg n M s (mb_committed s t md i)"
  using mb_commit [of s t md i old "fst (local_unlock (mb_row s) md i)" "snd (local_unlock (mb_row s) md i)"]
  by (simp add: mb_committed_def del: fun_upd_apply)

lemma mb_remote_commitI:
  assumes "mb_held s t = Some (Remote md i old)"
  shows "mb_step cfg n M s (mb_committed s t md i)"
proof -
  let ?req = "(TupleGetReq_mk 0 0 0 md i)\<lparr>m_tuple := Some (r_tuple (mb_row s))\<rparr>"
  have "remote_unlock (mb_row s) ?req = Inr (snd (local_unlock (mb_row s) md i))" by (simp add: remote_unlock_def)
  from mb_remote_commit [OF assms _ _ this] show ?thesis by (simp add: mb_committed_def del: fun_upd_apply)
qed

lemma mb_abortI: "mb_held s t = Some (Local md i old) \<Longrightarrow> mb_step cfg n M s (mb_aborted s t md old)"
  using mb_abort [of s t md i old "fst (local_unlock (mb_row s) md old)" "snd (local_unlock (mb_row s) md old)"]
  by (simp add: mb_aborted_def del: fun_upd_apply)

lemmas mb_run_defs = mb_demo_def mb_locked_def mb_committed_def mb_aborted_def local_unlock_def Let_def
  Row_mk_def grant_def mb_allow_lock_def is_compatible_def owner_room_def default_build_def

text \<open>On a row of node 1, node 1 commits in mini-batch 1 and node 2 in mini-batch 2, as its turn is then.\<close>

theorem mb_write_commits_one_node_witness:
  "\<exists>s'. mb_init mb_demo \<and> (mb_step default_build 1 {WRITE})\<^sup>*\<^sup>* mb_demo s' \<and>
     mb_commits s' = [TxnId_mk True 2 2, TxnId_mk True 1 1, TxnId_mk True 0 0] \<and>
     mini_batch_id (TxnId_mk True 2 2) \<noteq> mini_batch_id (TxnId_mk True 1 1)"
proof -
  let ?i = "TxnId_mk True 1 1" and ?j = "TxnId_mk True 2 2"
  let ?s1 = "mb_locked mb_demo 7 Local WRITE ?i"
  let ?s2 = "mb_committed ?s1 7 WRITE ?i"
  let ?s3 = "mb_locked ?s2 8 Remote WRITE ?j"
  let ?s4 = "mb_committed ?s3 8 WRITE ?j"
  let ?st = "mb_step default_build 1 {WRITE}"
  have ini: "mb_init mb_demo" by (auto simp: mb_init_def mb_demo_def)
  have 1: "?st mb_demo ?s1" by (rule mb_acquireI) (simp_all add: mb_run_defs)
  have 2: "?st ?s1 ?s2" by (rule mb_commitI) (simp add: mb_locked_def)
  have 3: "?st ?s2 ?s3" by (rule mb_remote_acquireI) (simp_all add: mb_run_defs)
  have 4: "?st ?s3 ?s4" by (rule mb_remote_commitI) (simp add: mb_locked_def)
  from 1 2 3 4 have r: "?st\<^sup>*\<^sup>* mb_demo ?s4" by (meson rtranclp.rtrancl_into_rtrancl rtranclp.rtrancl_refl)
  have c: "mb_commits ?s4 = [?j, ?i, TxnId_mk True 0 0]" by (simp add: mb_run_defs)
  have "node_id ?j \<noteq> node_id ?i" by simp
  then have "mini_batch_id ?j \<noteq> mini_batch_id ?i"
    using mb_write_commits_one_node [OF ini r, of ?j ?i] unfolding c by auto
  with ini r c show ?thesis by blast
qed

text \<open>
  C34. Flow order is lost when a reader aborts. With read locks in play two nodes can both
  commit on a row in the same mini-batch: two transactions of node 1 read the row together,
  one commits, the other aborts and writes back the \<open>last_acq\<close> it remembered from before the
  commit, and a transaction of node 2 then passes the test of \<open>mb_allow_lock\<close> in \<open>remote_lock\<close>.
\<close>

theorem mb_reader_abort_breaks_flow_order:
  "\<exists>n s s' a b. mb_init s \<and> (mb_step default_build n {READ, WRITE})\<^sup>*\<^sup>* s s' \<and>
     a \<in> set (mb_commits s') \<and> b \<in> set (mb_commits s') \<and>
     mini_batch_id a = mini_batch_id b \<and> node_id a \<noteq> node_id b"
proof -
  let ?i = "TxnId_mk True 1 1" and ?j = "TxnId_mk True 2 1"
  let ?s1 = "mb_locked mb_demo 1 Local READ ?i"
  let ?s2 = "mb_locked ?s1 2 Local READ ?i"
  let ?s3 = "mb_committed ?s2 1 READ ?i"
  let ?s4 = "mb_aborted ?s3 2 READ (TxnId_mk True 0 0)"
  let ?s5 = "mb_locked ?s4 3 Remote WRITE ?j"
  let ?s6 = "mb_committed ?s5 3 WRITE ?j"
  let ?st = "mb_step default_build 1 {READ, WRITE}"
  have ini: "mb_init mb_demo" by (auto simp: mb_init_def mb_demo_def)
  have 1: "?st mb_demo ?s1" by (rule mb_acquireI) (simp_all add: mb_run_defs)
  have 2: "?st ?s1 ?s2" by (rule mb_acquireI) (simp_all add: mb_run_defs)
  have 3: "?st ?s2 ?s3" by (rule mb_commitI) (simp add: mb_locked_def)
  have "mb_held ?s3 2 = Some (Local READ ?i (TxnId_mk True 0 0))" by (simp add: mb_run_defs)
  from mb_abortI [OF this] have 4: "?st ?s3 ?s4" by simp
  have 5: "?st ?s4 ?s5" by (rule mb_remote_acquireI) (simp_all add: mb_run_defs)
  have 6: "?st ?s5 ?s6" by (rule mb_remote_commitI) (simp add: mb_locked_def)
  from 1 2 3 4 5 6 have "?st\<^sup>*\<^sup>* mb_demo ?s6" by (meson rtranclp.rtrancl_into_rtrancl rtranclp.rtrancl_refl)
  moreover have "mb_commits ?s6 = [?j, ?i, TxnId_mk True 0 0]" by (simp add: mb_run_defs)
  ultimately show ?thesis
    using ini by (intro exI [of _ "1 :: 4 word"] exI [of _ mb_demo] exI [of _ ?s6] exI [of _ ?i] exI [of _ ?j]) simp
qed

end
