(* ===== verification/P4_Table.thy ===== *)
theory P4_Table
  imports P4_Row
begin

text \<open>
  The range partitioning of \<open>ee/partition.hpp\<close> and the table of \<open>ee/table.hpp\<close>, an array of
  rows with a fill level.
\<close>

section \<open>Partitioning\<close>

record LocationInfo =
  is_local :: bool
  target :: node_t

record PartitionInfo =
  total_size :: nat
  partition_size :: nat
  offset :: nat
  my_id :: node_t
  switch_id :: node_t

definition PartitionInfo_mk :: "config \<Rightarrow> nat \<Rightarrow> PartitionInfo result" where
  "PartitionInfo_mk config tsize =
     (if num_nodes config = 0 then fail DivisionByZero
      else if tsize mod num_nodes config \<noteq> 0 then fail RuntimeError
      else ok \<lparr>total_size = tsize, partition_size = tsize div num_nodes config,
               offset = tsize div num_nodes config * unat (node_u32 (cfg_node_id config)),
               my_id = cfg_node_id config, switch_id = cfg_switch_id config\<rparr>)"

definition location :: "PartitionInfo \<Rightarrow> db_key \<Rightarrow> LocationInfo result" where
  "location p index =
     (if partition_size p = 0 then fail DivisionByZero
      else let t = (word_of_nat (index div partition_size p) :: node_t) in
        ok \<lparr>is_local = (node_u32 t = node_u32 (my_id p)), target = t\<rparr>)"

definition translate :: "PartitionInfo \<Rightarrow> db_key \<Rightarrow> db_key" where
  "translate p index = index"

text \<open>Node \<open>n\<close>'s copy of a configuration shared by the cluster.\<close>

abbreviation on_node :: "config \<Rightarrow> nat \<Rightarrow> config" where
  "on_node config n \<equiv> config\<lparr>cfg_node_id := word_of_nat n\<rparr>"

lemma PartitionInfo_mk_Inr:
  "PartitionInfo_mk config ts = Inr p \<longleftrightarrow> num_nodes config > 0 \<and> num_nodes config dvd ts \<and>
     p = \<lparr>total_size = ts, partition_size = ts div num_nodes config,
          offset = ts div num_nodes config * unat (node_u32 (cfg_node_id config)),
          my_id = cfg_node_id config, switch_id = cfg_switch_id config\<rparr>"
  by (auto simp: PartitionInfo_mk_def mod_eq_0_iff_dvd)

lemma partition_part_pos: "0 < ts \<Longrightarrow> n dvd ts \<Longrightarrow> 0 < ts div (n :: nat)"
  by (auto simp: dvd_div_eq_0_iff)

lemma owner_less: "k < ts \<Longrightarrow> n dvd ts \<Longrightarrow> k div (ts div n) < (n :: nat)"
  by (metis dvd_div_mult_self less_mult_imp_div_less mult.commute)

lemma location_on_node:
  assumes "PartitionInfo_mk (on_node config n) ts = Inr p" "k < ts" "n < num_nodes config"
    "num_nodes config \<le> 256"
  shows "location p k = Inr \<lparr>is_local = (k div partition_size p = n),
     target = word_of_nat (k div partition_size p)\<rparr>"
proof -
  let ?o = "k div (ts div num_nodes config)"
  have d: "num_nodes config dvd ts" and ps: "partition_size p = ts div num_nodes config"
    "my_id p = word_of_nat n"
    using assms(1) by (simp_all add: PartitionInfo_mk_Inr)
  have o: "?o < num_nodes config" using owner_less [OF assms(2) d] .
  have "(word_of_nat ?o :: node_t) = word_of_nat n \<longleftrightarrow> ?o = n"
    using o assms(3,4) by (simp add: word_of_nat_eq_iff take_bit_nat_eq_self)
  moreover have "0 < ts div num_nodes config" using assms(2) d by (simp add: partition_part_pos)
  ultimately show ?thesis
    using ps o assms(3,4) by (simp add: location_def Let_def)
qed

text \<open>
  C29. Partitioning. In a cluster of at most 256 nodes whose table size is a multiple of the
  node count, every key of the table is local to exactly one node, that node's key range
  (from its \<open>offset\<close>, \<open>partition_size\<close> keys long) contains it, and every node names it as
  the key's target.
\<close>

theorem partition_one_owner:
  assumes "0 < num_nodes config" "num_nodes config \<le> 256" "num_nodes config dvd ts" "k < ts"
  shows "\<exists>!n. n < num_nodes config \<and>
    (\<exists>p l. PartitionInfo_mk (on_node config n) ts = Inr p \<and> location p k = Inr l \<and> is_local l \<and>
       offset p \<le> k \<and> k < offset p + partition_size p \<and>
       (\<forall>n' < num_nodes config. \<exists>p' l'. PartitionInfo_mk (on_node config n') ts = Inr p' \<and>
          location p' k = Inr l' \<and> target l' = my_id p))"
proof (rule ex1I)
  let ?sz = "ts div num_nodes config"
  let ?p = "\<lambda>n. \<lparr>total_size = ts, partition_size = ?sz, offset = ?sz * unat (node_u32 (word_of_nat n)),
     my_id = word_of_nat n, switch_id = cfg_switch_id config\<rparr>"
  let ?o = "k div ?sz"
  have mk: "PartitionInfo_mk (on_node config n) ts = Inr (?p n)" for n
    using assms(1,3) by (simp add: PartitionInfo_mk_Inr)
  have o: "?o < num_nodes config" by (rule owner_less [OF assms(4,3)])
  have o32: "unat (word_of_nat ?o :: u32) = ?o"
    using o assms(2) by (simp add: unat_of_nat)
  have loc: "location (?p n) k = Inr \<lparr>is_local = (?o = n), target = word_of_nat ?o\<rparr>"
    if "n < num_nodes config" for n
    using location_on_node [OF mk assms(4) that assms(2)] by simp
  have pos: "0 < ?sz" using assms by (simp add: partition_part_pos)
  have rng: "offset (?p ?o) \<le> k" "k < offset (?p ?o) + partition_size (?p ?o)"
    using o assms(2) dividend_less_times_div [OF pos, of k] by (simp_all add: o32 add.commute)
  show "?o < num_nodes config \<and>
    (\<exists>p l. PartitionInfo_mk (on_node config ?o) ts = Inr p \<and> location p k = Inr l \<and> is_local l \<and>
       offset p \<le> k \<and> k < offset p + partition_size p \<and>
       (\<forall>n' < num_nodes config. \<exists>p' l'. PartitionInfo_mk (on_node config n') ts = Inr p' \<and>
          location p' k = Inr l' \<and> target l' = my_id p))"
    using o mk loc [OF o] loc rng
    by (intro conjI exI [of _ "?p ?o"] exI [of _ "\<lparr>is_local = True, target = word_of_nat ?o\<rparr>"]) auto
  fix n
  assume n: "n < num_nodes config \<and>
    (\<exists>p l. PartitionInfo_mk (on_node config n) ts = Inr p \<and> location p k = Inr l \<and> is_local l \<and>
       offset p \<le> k \<and> k < offset p + partition_size p \<and>
       (\<forall>n' < num_nodes config. \<exists>p' l'. PartitionInfo_mk (on_node config n') ts = Inr p' \<and>
          location p' k = Inr l' \<and> target l' = my_id p))"
  then show "n = ?o" using loc [of n] mk [of n] by auto
qed

definition part_demo :: config where
  "part_demo = \<lparr>cfg_node_id = 0, num_nodes = 4, num_txn_workers = 2, cfg_switch_id = 4, tenant_id = 0,
     use_switch = True, verify = True, table_size = 40\<rparr>"

theorem partition_one_owner_witness:
  "0 < num_nodes part_demo \<and> num_nodes part_demo dvd 40 \<and>
   (\<exists>n p l. n < num_nodes part_demo \<and> PartitionInfo_mk (on_node part_demo n) 40 = Inr p \<and>
      location p 25 = Inr l \<and> is_local l \<and> offset p \<le> 25 \<and> 25 < offset p + partition_size p)"
proof -
  have h: "0 < num_nodes part_demo" "num_nodes part_demo \<le> 256" "num_nodes part_demo dvd 40"
    by (simp_all add: part_demo_def)
  have "(25 :: nat) < 40" by simp
  from partition_one_owner [OF h this] h show ?thesis by blast
qed

section \<open>Tables\<close>

text \<open>
  \<open>StructTable\<close>: \<open>t_size\<close> rows of the array are in use. A reference to a row's tuple is the
  row's index. The write methods return the table as well.
\<close>

record StructTable =
  t_id :: nat
  t_name :: string
  t_size :: nat
  max_size :: nat
  part_info :: PartitionInfo
  t_data :: "row list"

definition StructTable_mk :: "config \<Rightarrow> nat \<Rightarrow> KV \<Rightarrow> StructTable result" where
  "StructTable_mk config msize uninit =
     bind_res (PartitionInfo_mk config msize) (\<lambda>p.
       ok \<lparr>t_id = 0, t_name = [], t_size = 0, max_size = msize, part_info = p,
           t_data = replicate msize (Row_mk uninit)\<rparr>)"

text \<open>The destructor's report: the rows still locked, when \<open>verify\<close> is set.\<close>

definition StructTable_check :: "config \<Rightarrow> StructTable \<Rightarrow> nat list" where
  "StructTable_check config t =
     (if \<not> verify config then [] else filter (\<lambda>i. \<not> row_check (t_data t ! i)) [0..<max_size t])"

definition lockless_access :: "StructTable \<Rightarrow> db_key \<Rightarrow> nat result" where
  "lockless_access t index =
     (let local_index = translate (part_info t) index in
      bind_res (assert_res (\<not> local_index \<ge> t_size t)) (\<lambda>_.
      bind_res (at_res (t_data t) local_index) (\<lambda>_. ok local_index)))"

definition table_get ::
  "build_cfg \<Rightarrow> StructTable \<Rightarrow> db_key \<Rightarrow> AccessMode \<Rightarrow> future \<Rightarrow> (ErrorCode \<times> StructTable \<times> future) result" where
  "table_get cfg t index md f =
     (let local_index = translate (part_info t) index in
      if local_index \<ge> t_size t then ok (INVALID_ROW_ID, t, f)
      else bind_res (at_res (t_data t) local_index) (\<lambda>r.
           bind_res (local_lock cfg (RowPtr local_index) r md f) (\<lambda>(rc, r, f).
             ok (rc, t\<lparr>t_data := (t_data t)[local_index := r]\<rparr>, f))))"

definition table_put ::
  "StructTable \<Rightarrow> db_key \<Rightarrow> AccessMode \<Rightarrow> TxnId \<Rightarrow> (ErrorCode \<times> StructTable) result" where
  "table_put t index md i =
     (let local_index = translate (part_info t) index in
      if local_index \<ge> t_size t then ok (INVALID_ROW_ID, t)
      else bind_res (at_res (t_data t) local_index) (\<lambda>r.
           let (rc, r) = local_unlock r md i in ok (rc, t\<lparr>t_data := (t_data t)[local_index := r]\<rparr>)))"

definition table_insert :: "StructTable \<Rightarrow> (StructTable \<times> db_key) result" where
  "table_insert t =
     (if t_size t \<ge> max_size t then fail TableFull
      else bind_res (at_res (t_data t) (t_size t)) (\<lambda>_. ok (t\<lparr>t_size := t_size t + 1\<rparr>, t_size t)))"

definition remote_get :: "build_cfg \<Rightarrow> StructTable \<Rightarrow> msg \<Rightarrow> (StructTable \<times> msg) result" where
  "remote_get cfg t req =
     (let local_index = translate (part_info t) (rid req) in
      bind_res (at_res (t_data t) local_index) (\<lambda>r.
      bind_res (remote_lock cfg r req) (\<lambda>(r, res).
        ok (t\<lparr>t_data := (t_data t)[local_index := r]\<rparr>, res))))"

definition remote_put :: "StructTable \<Rightarrow> msg \<Rightarrow> StructTable result" where
  "remote_put t req =
     (let local_index = translate (part_info t) (rid req) in
      bind_res (at_res (t_data t) local_index) (\<lambda>r.
      bind_res (remote_unlock r req) (\<lambda>r. ok (t\<lparr>t_data := (t_data t)[local_index := r]\<rparr>))))"

text \<open>A well-formed table: the array has \<open>max_size\<close> rows and the fill level stays within it.\<close>

definition table_wf :: "StructTable \<Rightarrow> bool" where
  "table_wf t \<longleftrightarrow> length (t_data t) = max_size t \<and> t_size t \<le> max_size t"

lemma table_wf_mk: "StructTable_mk config n u = Inr t \<Longrightarrow> table_wf t"
  by (auto simp: StructTable_mk_def table_wf_def res_elims)

lemma table_get_wf: "table_get cfg t k md f = Inr (rc, t', f') \<Longrightarrow> table_wf t \<Longrightarrow> table_wf t'"
  by (auto simp: table_get_def table_wf_def Let_def res_elims split: if_splits)

lemma table_put_wf: "table_put t k md i = Inr (rc, t') \<Longrightarrow> table_wf t \<Longrightarrow> table_wf t'"
  by (auto simp: table_put_def table_wf_def Let_def res_elims split: if_splits prod.splits)

lemma table_insert_wf: "table_insert t = Inr (t', k) \<Longrightarrow> table_wf t \<Longrightarrow> table_wf t' \<and> k < t_size t'"
  by (auto simp: table_insert_def table_wf_def res_elims split: if_splits)

lemma remote_get_wf: "remote_get cfg t req = Inr (t', res) \<Longrightarrow> table_wf t \<Longrightarrow> table_wf t'"
  by (auto simp: remote_get_def table_wf_def Let_def res_elims)

lemma remote_put_wf: "remote_put t req = Inr t' \<Longrightarrow> table_wf t \<Longrightarrow> table_wf t'"
  by (auto simp: remote_put_def table_wf_def Let_def res_elims)

text \<open>The tables that calls of the methods make from a new one.\<close>

inductive table_reach :: "build_cfg \<Rightarrow> config \<Rightarrow> nat \<Rightarrow> StructTable \<Rightarrow> bool" for cfg config n where
  new: "StructTable_mk config n u = Inr t \<Longrightarrow> table_reach cfg config n t"
| get: "table_reach cfg config n t \<Longrightarrow> table_get cfg t k md f = Inr (rc, t', f') \<Longrightarrow> table_reach cfg config n t'"
| put: "table_reach cfg config n t \<Longrightarrow> table_put t k md i = Inr (rc, t') \<Longrightarrow> table_reach cfg config n t'"
| insert: "table_reach cfg config n t \<Longrightarrow> table_insert t = Inr (t', k) \<Longrightarrow> table_reach cfg config n t'"
| rget: "table_reach cfg config n t \<Longrightarrow> remote_get cfg t req = Inr (t', res) \<Longrightarrow> table_reach cfg config n t'"
| rput: "table_reach cfg config n t \<Longrightarrow> remote_put t req = Inr t' \<Longrightarrow> table_reach cfg config n t'"

lemma table_calls_static:
  "table_get cfg t k md f = Inr (rc, t', f') \<Longrightarrow> max_size t' = max_size t \<and> part_info t' = part_info t"
  "table_put t k md i = Inr (rc, t') \<Longrightarrow> max_size t' = max_size t \<and> part_info t' = part_info t"
  "table_insert t = Inr (t', k) \<Longrightarrow> max_size t' = max_size t \<and> part_info t' = part_info t"
  "remote_get cfg t req = Inr (t', res) \<Longrightarrow> max_size t' = max_size t \<and> part_info t' = part_info t"
  "remote_put t req = Inr t' \<Longrightarrow> max_size t' = max_size t \<and> part_info t' = part_info t"
  by (auto simp: table_get_def table_put_def table_insert_def remote_get_def remote_put_def Let_def res_elims
      split: if_splits prod.splits)

lemma table_reach_typed:
  "table_reach cfg config n t \<Longrightarrow> table_wf t \<and> max_size t = n \<and> PartitionInfo_mk config n = Inr (part_info t)"
proof (induction rule: table_reach.induct)
  case (new u t)
  then show ?case using table_wf_mk [OF new] by (auto simp: StructTable_mk_def res_elims)
qed (auto dest: table_get_wf table_put_wf table_insert_wf remote_get_wf remote_put_wf table_calls_static)

lemma lock_no_range_error:
  "mb_allow_lock cfg r i \<noteq> Inl OutOfBounds" "local_lock cfg self r md f \<noteq> Inl OutOfBounds" "remote_lock cfg r req \<noteq> Inl OutOfBounds"
  by (auto simp: local_lock_def local_lock_locked_def remote_lock_def mb_allow_lock_def assert_res_def resize_def res_elims bind_res_eq_Inl
      split: if_splits)

text \<open>
  C25. The table is type safe. However it was made by calls of the methods, local and remote, the row array keeps the size it was
  created with, the fill level stays inside it and the partitioning never changes; \<open>get\<close>, \<open>put\<close> and \<open>insert\<close>
  never leave the array, whatever key they are given, and a key at or above the fill level is answered with \<open>INVALID_ROW_ID\<close>
  and an unchanged table. \<open>remote_get\<close> has no such test: it leaves the array exactly for keys
  from the table size on.
\<close>

theorem table_type_safe:
  assumes "table_reach cfg config n t"
  shows "length (t_data t) = n \<and> max_size t = n \<and> t_size t \<le> n \<and> PartitionInfo_mk config n = Inr (part_info t) \<and>
    table_get cfg t k md f \<noteq> Inl OutOfBounds \<and> table_put t k md i \<noteq> Inl OutOfBounds \<and> table_insert t \<noteq> Inl OutOfBounds \<and>
    (if t_size t \<le> k then table_get cfg t k md f = Inr (INVALID_ROW_ID, t, f) \<and> table_put t k md i = Inr (INVALID_ROW_ID, t)
     else \<exists>rc t'. table_put t k md i = Inr (rc, t') \<and> rc \<noteq> INVALID_ROW_ID \<and> table_reach cfg config n t') \<and>
    (remote_get cfg t req = Inl OutOfBounds \<longleftrightarrow> n \<le> rid req)"
proof -
  have t: "length (t_data t) = n" "max_size t = n" "t_size t \<le> n" "PartitionInfo_mk config n = Inr (part_info t)"
    using table_reach_typed [OF assms] by (simp_all add: table_wf_def)
  have "table_get cfg t k md f \<noteq> Inl OutOfBounds" "table_insert t \<noteq> Inl OutOfBounds"
    using t lock_no_range_error(2) by (auto simp: table_get_def table_insert_def Let_def at_res_def bind_res_eq_Inl split: if_splits)
  moreover have "\<exists>rc t'. table_put t k md i = Inr (rc, t') \<and> rc \<noteq> INVALID_ROW_ID" if "k < t_size t"
    using t that by (auto simp: table_put_def translate_def at_res_lt local_unlock_def Let_def)
  moreover have "table_put t k md i \<noteq> Inl OutOfBounds"
    using t by (auto simp: table_put_def translate_def at_res_def Let_def split: if_splits prod.splits)
  moreover have "remote_get cfg t req = Inl OutOfBounds \<longleftrightarrow> n \<le> rid req"
    using t lock_no_range_error(3) by (auto simp: remote_get_def translate_def at_res_def Let_def bind_res_eq_Inl split: if_splits)
  moreover have "table_get cfg t k md f = Inr (INVALID_ROW_ID, t, f) \<and> table_put t k md i = Inr (INVALID_ROW_ID, t)" if "t_size t \<le> k"
    using that by (simp add: table_get_def table_put_def translate_def)
  ultimately show ?thesis using t table_reach.put [OF assms] by (auto simp: not_le)
qed

theorem table_type_safe_witness:
  "\<exists>t. table_reach default_build part_demo 40 t \<and> length (t_data t) = 40 \<and> t_size t = 1 \<and>
     table_put t 7 READ (TxnId_mk True 0 1) = Inr (INVALID_ROW_ID, t)"
proof -
  obtain t where t: "StructTable_mk part_demo 40 \<lparr>kv_id = 0, kv_value = 0\<rparr> = Inr t" "t_size t = 0" "table_wf t" "max_size t = 40"
    using table_wf_mk [of part_demo 40 "\<lparr>kv_id = 0, kv_value = 0\<rparr>"] by (auto simp: StructTable_mk_def PartitionInfo_mk_def part_demo_def)
  let ?t = "t\<lparr>t_size := 1\<rparr>"
  have "table_insert t = Inr (?t, 0)" using t(2-4) by (simp add: table_insert_def table_wf_def at_res_lt)
  then have r: "table_reach default_build part_demo 40 ?t" by (rule table_reach.insert [OF table_reach.new [OF t(1)]])
  from table_type_safe [OF r, of 7] r show ?thesis by (intro exI [of _ ?t]) simp
qed

end
