(* ===== verification/P4_Node.thy ===== *)
theory P4_Node
  imports P4_Table
begin

text \<open>
  One node of the cluster: the tables of \<open>ee/database.hpp\<close>, the message handler of
  \<open>comm/msg_handler.cpp\<close> with the handlers of \<open>comm/handlers/\<close>, and the cluster of nodes that
  exchange messages through \<open>TCPCommunicator::send\<close>.
\<close>

section \<open>The node\<close>

text \<open>
  \<open>tables\<close> and \<open>table_names\<close> are the two table maps of \<open>Database\<close>; a table pointer is its
  position. \<open>futures w\<close> are the futures in the memory pool of worker \<open>w\<close>, oldest first; a
  future pointer is the worker and the position. \<open>received\<close> is the counter of the barrier
  handler, \<open>inited\<close> the array of the init handler, \<open>put_counts\<close> the counters of the put
  response handler.
\<close>

record node =
  comm_id :: node_t
  comm_nodes :: nat
  tables :: "StructTable list"
  table_names :: "string \<rightharpoonup> nat"
  next_id :: u64
  open_futures :: "u64 \<rightharpoonup> nat \<times> nat"
  futures :: "nat \<Rightarrow> future list"
  put_counts :: "u64 list"
  inited :: "bool list"
  received :: u32

definition node_mk :: "config \<Rightarrow> node" where
  "node_mk config = \<lparr>comm_id = cfg_node_id config, comm_nodes = num_nodes config, tables = [],
     table_names = Map.empty, next_id = 0, open_futures = Map.empty, futures = (\<lambda>_. []),
     put_counts = replicate (num_txn_workers config) 0, inited = replicate (num_nodes config) False,
     received = 0\<rparr>"

text \<open>\<open>Database::make_table\<close>, \<open>has_table\<close>, the two subscript operators and \<open>get_casted\<close> (every
  table of the program is a \<open>StructTable\<close>, so its cast succeeds).\<close>

definition has_table :: "node \<Rightarrow> string \<Rightarrow> bool" where
  "has_table nd name \<longleftrightarrow> table_names nd name \<noteq> None"

definition make_table :: "config \<Rightarrow> node \<Rightarrow> string \<Rightarrow> nat \<Rightarrow> KV \<Rightarrow> (nat \<times> node) result" where
  "make_table config nd key msize uninit =
     (if has_table nd key then fail LogicError
      else bind_res (StructTable_mk config msize uninit) (\<lambda>t.
        let i = length (tables nd) in
        ok (i, nd\<lparr>tables := tables nd @ [t\<lparr>t_id := i, t_name := key\<rparr>], table_names := (table_names nd)(key \<mapsto> i)\<rparr>)))"

definition table_by_name :: "node \<Rightarrow> string \<Rightarrow> nat result" where
  "table_by_name nd key = (case table_names nd key of None \<Rightarrow> fail LogicError | Some i \<Rightarrow> ok i)"

definition get_casted :: "node \<Rightarrow> string \<Rightarrow> nat result" where
  "get_casted nd key = bind_res (table_by_name nd key) (\<lambda>i. if i < length (tables nd) then ok i else fail TableCastFailed)"

definition set_table :: "node \<Rightarrow> nat \<Rightarrow> StructTable \<Rightarrow> node" where
  "set_table nd i t = nd\<lparr>tables := (tables nd)[i := t]\<rparr>"

section \<open>Handlers\<close>

text \<open>\<open>TuplePutResHandler\<close>: \<open>add\<close>, \<open>handle\<close>, \<open>wait\<close>. The counters are unsigned and wrap. A wait
  on a counter that is not zero spins.\<close>

definition putres_add :: "node \<Rightarrow> nat \<Rightarrow> node result" where
  "putres_add nd index =
     bind_res (at_res (put_counts nd) index) (\<lambda>c. ok (nd\<lparr>put_counts := (put_counts nd)[index := c + 1]\<rparr>))"

definition putres_handle :: "node \<Rightarrow> node_t \<Rightarrow> node result" where
  "putres_handle nd from =
     bind_res (at_res (put_counts nd) (unat (get_tid from))) (\<lambda>c.
       ok (nd\<lparr>put_counts := (put_counts nd)[unat (get_tid from) := c - 1]\<rparr>))"

definition putres_wait :: "node \<Rightarrow> nat \<Rightarrow> unit result" where
  "putres_wait nd index =
     bind_res (at_res (put_counts nd) index) (\<lambda>c. if c = 0 then ok () else fail Blocked)"

text \<open>\<open>InitHandler::handle\<close>, and the body of the loop of \<open>InitHandler::wait\<close>: whether every other
  node has been heard of, and the messages it sends in any case.\<close>

definition init_handle :: "node \<Rightarrow> node_t \<Rightarrow> node result" where
  "init_handle nd n =
     (if unat (node_u32 n) < length (inited nd) then ok (nd\<lparr>inited := (inited nd)[unat (node_u32 n) := True]\<rparr>)
      else fail LogicError)"

definition init_done_flag :: "node \<Rightarrow> bool" where
  "init_done_flag nd \<longleftrightarrow>
     foldl (\<lambda>done n. done \<and> (n = unat (node_u32 (comm_id nd)) \<or> inited nd ! n)) True [0..<length (inited nd)]"

definition init_wait_sends :: "node \<Rightarrow> (node_t \<times> msg) list" where
  "init_wait_sends nd =
     map (\<lambda>i. (word_of_nat i, Init_mk (comm_id nd)))
       (filter (\<lambda>i. i \<noteq> unat (node_u32 (comm_id nd))) [0..<comm_nodes nd])"

text \<open>\<open>BarrierHandler::handle\<close>.\<close>

definition barrier_handle :: "node \<Rightarrow> node" where
  "barrier_handle nd = nd\<lparr>received := received nd + 1\<rparr>"

section \<open>The message handler\<close>

definition set_new_id :: "node \<Rightarrow> msg \<Rightarrow> u64 \<times> node \<times> msg" where
  "set_new_id nd m =
     (let i = next_id nd in (i, nd\<lparr>next_id := i + 1\<rparr>, m\<lparr>msg_id := unat i\<rparr>))"

definition add_future :: "node \<Rightarrow> u64 \<Rightarrow> nat \<times> nat \<Rightarrow> node result" where
  "add_future nd i f =
     bind_res (assert_res (open_futures nd i = None)) (\<lambda>_. ok (nd\<lparr>open_futures := (open_futures nd)(i \<mapsto> f)\<rparr>))"

text \<open>Storing the packet in the future that a pointer names.\<close>

definition upd_future :: "node \<Rightarrow> nat \<times> nat \<Rightarrow> (future \<Rightarrow> future) \<Rightarrow> node result" where
  "upd_future nd p g =
     (case p of (w, i) \<Rightarrow>
        if i < length (futures nd w)
        then ok (nd\<lparr>futures := (futures nd)(w := (futures nd w)[i := g (futures nd w ! i)])\<rparr>)
        else fail OutOfBounds)"

text \<open>The handlers return the message they send, if they send one.\<close>

definition handle_get_req :: "build_cfg \<Rightarrow> node \<Rightarrow> msg \<Rightarrow> (node \<times> (node_t \<times> msg) option) result" where
  "handle_get_req cfg nd req =
     bind_res (at_res (tables nd) (m_tid req)) (\<lambda>t.
     bind_res (remote_get cfg t req) (\<lambda>(t, res).
       ok (set_table nd (m_tid req) t, Some (sender res, res))))"

definition handle_get_res :: "node \<Rightarrow> msg \<Rightarrow> (node \<times> (node_t \<times> msg) option) result" where
  "handle_get_res nd res =
     (let i = (word_of_nat (msg_id res) :: u64) in
      case open_futures nd i of
        None \<Rightarrow> fail AssertFailed
      | Some f \<Rightarrow>
          bind_res (upd_future (nd\<lparr>open_futures := (open_futures nd)(i := None)\<rparr>) f (set_pkt res)) (\<lambda>nd.
            ok (nd, None)))"

definition handle_put_req :: "node \<Rightarrow> msg \<Rightarrow> (node \<times> (node_t \<times> msg) option) result" where
  "handle_put_req nd req =
     bind_res (at_res (tables nd) (m_tid req)) (\<lambda>t.
     bind_res (remote_put t req) (\<lambda>t.
     bind_res (resize (sizeof_msg TUPLE_PUT_RES) (convert TUPLE_PUT_RES req)) (\<lambda>res.
       ok (set_table nd (m_tid req) t, Some (sender res, res)))))"

definition handle_put_res :: "node \<Rightarrow> msg \<Rightarrow> (node \<times> (node_t \<times> msg) option) result" where
  "handle_put_res nd res = bind_res (putres_handle nd (sender res)) (\<lambda>nd. ok (nd, None))"

definition handle :: "build_cfg \<Rightarrow> node \<Rightarrow> msg \<Rightarrow> (node \<times> (node_t \<times> msg) option) result" where
  "handle cfg nd m =
     (case m_type m of
        INIT \<Rightarrow> bind_res (init_handle nd (sender m)) (\<lambda>nd. ok (nd, None))
      | BARRIER \<Rightarrow> ok (barrier_handle nd, None)
      | TUPLE_GET_REQ \<Rightarrow> handle_get_req cfg nd m
      | TUPLE_GET_RES \<Rightarrow> handle_get_res nd m
      | TUPLE_PUT_REQ \<Rightarrow> handle_put_req nd m
      | TUPLE_PUT_RES \<Rightarrow> handle_put_res nd m)"

section \<open>The cluster\<close>

text \<open>
  \<open>TCPCommunicator::send\<close> asserts that the target is another node of the cluster. A received
  packet has length 0 (\<open>TCPCommunicator::receive\<close>).
\<close>

definition send_ok :: "node \<Rightarrow> node_t \<Rightarrow> bool" where
  "send_ok nd tgt \<longleftrightarrow> unat (node_u32 tgt) < comm_nodes nd \<and> node_u32 tgt \<noteq> node_u32 (comm_id nd)"

definition on_wire :: "msg \<Rightarrow> msg" where
  "on_wire m = m\<lparr>plen := 0\<rparr>"

text \<open>The number of messages that handling a message of a type leads to, itself included.\<close>

primrec rank :: "msg_type \<Rightarrow> nat" where
  "rank INIT = 1"
| "rank BARRIER = 1"
| "rank TUPLE_GET_REQ = 2"
| "rank TUPLE_GET_RES = 1"
| "rank TUPLE_PUT_REQ = 2"
| "rank TUPLE_PUT_RES = 1"

lemma remote_lock_type: "remote_lock cfg r req = Inr (r', res) \<Longrightarrow> m_type res = TUPLE_GET_RES"
  by (auto simp: remote_lock_def convert_def res_elims resize_def split: if_splits)

lemma handle_rank: "handle cfg nd m = Inr (nd', Some (t, m')) \<Longrightarrow> rank (m_type m') < rank (m_type m)"
  by (auto simp: handle_def handle_get_req_def handle_get_res_def handle_put_req_def handle_put_res_def Let_def
      remote_get_def convert_def resize_def res_elims dest!: remote_lock_type split: msg_type.splits option.splits if_splits)

text \<open>
  The cluster with the messages in flight: any one of them may be handled next.
\<close>

inductive net_step :: "build_cfg \<Rightarrow> node list \<times> (nat \<times> msg) multiset \<Rightarrow> node list \<times> (nat \<times> msg) multiset \<Rightarrow> bool"
  for cfg where
  quiet: "n < length nds \<Longrightarrow> handle cfg (nds ! n) (on_wire m) = Inr (nd, None) \<Longrightarrow>
    net_step cfg (nds, add_mset (n, m) w) (nds[n := nd], w)"
| reply: "n < length nds \<Longrightarrow> handle cfg (nds ! n) (on_wire m) = Inr (nd, Some (t, m')) \<Longrightarrow> send_ok nd t \<Longrightarrow>
    net_step cfg (nds, add_mset (n, m) w) (nds[n := nd], add_mset (unat (node_u32 t), m') w)"

definition wire_rank :: "(nat \<times> msg) multiset \<Rightarrow> nat" where
  "wire_rank w = (\<Sum>x \<in># w. rank (m_type (snd x)))"

lemma net_step_rank: "net_step cfg s s' \<Longrightarrow> wire_rank (snd s') < wire_rank (snd s)"
proof (induction rule: net_step.induct)
  case (quiet n nds m nd w)
  then show ?case by (cases "m_type m") (simp_all add: wire_rank_def)
next
  case (reply n nds m nd t m' w)
  with handle_rank [OF reply(2)] show ?case by (simp add: wire_rank_def on_wire_def)
qed

lemma wire_rank_bound: "wire_rank w \<le> 2 * size w"
proof (induction w)
  case (add x w)
  have "rank ty \<le> 2" for ty by (cases ty) simp_all
  from this [of "m_type (snd x)"] add show ?case by (simp add: wire_rank_def)
qed (simp add: wire_rank_def)

text \<open>
  C23. Messages die out. Whatever order the nodes handle messages in, a cluster with \<open>w\<close>
  messages in flight handles at most twice that many before none is left: a request causes one
  response, and nothing answers a response.
\<close>

theorem network_drains:
  "(net_step cfg ^^ n) (nds, w) s \<Longrightarrow> n + size (snd s) \<le> 2 * size w"
proof -
  have "(net_step cfg ^^ n) p s \<Longrightarrow> n + wire_rank (snd s) \<le> wire_rank (snd p)" for p
  proof (induction n arbitrary: p)
    case (Suc n)
    then obtain q where "net_step cfg p q" "(net_step cfg ^^ n) q s"
      using relpowp_Suc_D2 by metis
    with Suc.IH [of q] net_step_rank [of cfg p q] show ?case by simp
  qed auto
  moreover have "size v \<le> wire_rank v" for v
  proof (induction v)
    case (add x v)
    have "1 \<le> rank ty" for ty by (cases ty) simp_all
    from this [of "m_type (snd x)"] add show ?case by (simp add: wire_rank_def)
  qed simp
  moreover assume "(net_step cfg ^^ n) (nds, w) s"
  ultimately show ?thesis using wire_rank_bound [of w] by (metis add_le_cancel_left le_trans snd_conv)
qed

definition node_demo :: node where
  "node_demo = node_mk \<lparr>cfg_node_id = 0, num_nodes = 2, num_txn_workers = 1, cfg_switch_id = 2, tenant_id = 0,
     use_switch = True, verify = False, table_size = 4\<rparr>"

theorem network_drains_witness:
  "\<exists>s. (net_step default_build ^^ 1) ([node_demo], {#(0, Init_mk 1)#}) s \<and> 1 + size (snd s) \<le> 2 * size {#(0 :: nat, Init_mk 1)#}"
proof -
  have "handle default_build ([node_demo] ! 0) (on_wire (Init_mk 1)) = Inr (node_demo\<lparr>inited := [False, True]\<rparr>, None)"
    by (simp add: handle_def on_wire_def Init_mk_def init_handle_def node_demo_def node_mk_def node_u32_def numeral_2_eq_2)
  then have "net_step default_build ([node_demo], add_mset (0, Init_mk 1) {#}) ([node_demo][0 := node_demo\<lparr>inited := [False, True]\<rparr>], {#})"
    by (intro net_step.quiet) simp_all
  then have "(net_step default_build ^^ 1) ([node_demo], {#(0, Init_mk 1)#}) ([node_demo\<lparr>inited := [False, True]\<rparr>], {#})" by (simp add: eq_OO)
  with network_drains [OF this] show ?thesis by blast
qed

text \<open>
  A message sent by one node and everything that follows from it, handled at once.
\<close>

function deliver :: "build_cfg \<Rightarrow> node list \<Rightarrow> nat \<Rightarrow> node_t \<Rightarrow> msg \<Rightarrow> node list result" where
  "deliver cfg nds from tgt m =
     bind_res (at_res nds from) (\<lambda>me.
     bind_res (assert_res (send_ok me tgt)) (\<lambda>_.
     let n = unat (node_u32 tgt) in
     bind_res (at_res nds n) (\<lambda>nd.
     bind_res (handle cfg nd (on_wire m)) (\<lambda>r.
       case r of
         (nd, None) \<Rightarrow> ok (nds[n := nd])
       | (nd, Some (t, m')) \<Rightarrow> deliver cfg (nds[n := nd]) n t m'))))"
  by pat_completeness auto

termination
  by (relation "measure (\<lambda>(cfg, nds, from, tgt, m). rank (m_type m))")
    (auto simp: on_wire_def dest: handle_rank)

declare deliver.simps [simp del]

text \<open>Delivery at once is one of the orders of \<open>net_step\<close>.\<close>

lemma deliver_steps:
  "deliver cfg nds from tgt m = Inr nds' \<Longrightarrow>
   (net_step cfg)\<^sup>*\<^sup>* (nds, add_mset (unat (node_u32 tgt), m) w) (nds', w)"
proof (induction cfg nds "from" tgt m rule: deliver.induct)
  case (1 cfg nds "from" tgt m)
  let ?n = "unat (node_u32 tgt)"
  from 1(2) obtain nd out where h: "from < length nds" "send_ok (nds ! from) tgt" "?n < length nds"
      "handle cfg (nds ! ?n) (on_wire m) = Inr (nd, out)" and
    o: "(case out of None \<Rightarrow> Inr (nds[?n := nd]) | Some (t, m') \<Rightarrow> deliver cfg (nds[?n := nd]) ?n t m') = Inr nds'"
    by (subst (asm) deliver.simps) (auto simp: res_elims Let_def split: option.splits prod.splits)
  show ?case
  proof (cases out)
    case None
    with o h(4) net_step.quiet [OF h(3), of cfg m nd w] show ?thesis by auto
  next
    case (Some tm)
    obtain t m' where tm: "tm = (t, m')" by (cases tm)
    have d: "deliver cfg (nds[?n := nd]) ?n t m' = Inr nds'" using o Some tm by simp
    then have "send_ok nd t" using h(3) by (subst (asm) deliver.simps) (auto simp: res_elims)
    then have "net_step cfg (nds, add_mset (?n, m) w) (nds[?n := nd], add_mset (unat (node_u32 t), m') w)"
      using net_step.reply [OF h(3), of cfg m nd t m' w] h(4) Some tm by simp
    moreover have "(net_step cfg)\<^sup>*\<^sup>* (nds[?n := nd], add_mset (unat (node_u32 t), m') w) (nds', w)"
      using 1(1) [of "nds ! from" "()" ?n "nds ! ?n" "(nd, out)" nd out "(t, m')" t m'] h d Some tm by simp
    ultimately show ?thesis by (rule converse_rtranclp_into_rtranclp)
  qed
qed

end
