(* ===== verification/P4_Pools.thy ===== *)
theory P4_Pools
  imports P4_Types
begin

text \<open>
  The allocators of \<open>utils/mempools.hpp\<close> and the queue of switch packets of
  \<open>ee/database.hpp\<close> that is built on one of them. A pointer is an offset into the pool's
  buffer, or an index into its array of objects.
\<close>

section \<open>Bump allocators\<close>

record StackPool =
  sp_max :: nat
  sp_size :: nat

definition StackPool_allocate :: "StackPool \<Rightarrow> nat \<Rightarrow> (nat \<times> StackPool) result" where
  "StackPool_allocate p want =
     (if sp_size p + want > sp_max p then fail RuntimeError
      else ok (sp_size p, p\<lparr>sp_size := sp_size p + want\<rparr>))"

definition StackPool_clear :: "StackPool \<Rightarrow> StackPool" where
  "StackPool_clear p = p\<lparr>sp_size := 0\<rparr>"

text \<open>\<open>LockedStackPool\<close> moves its size first and asserts afterwards.\<close>

record LockedStackPool =
  lp_capacity :: nat
  lp_size :: nat

definition LockedStackPool_mk :: "nat \<Rightarrow> LockedStackPool" where
  "LockedStackPool_mk cap = \<lparr>lp_capacity = cap, lp_size = 0\<rparr>"

definition LockedStackPool_allocate :: "LockedStackPool \<Rightarrow> nat \<Rightarrow> (nat \<times> LockedStackPool) result" where
  "LockedStackPool_allocate p want =
     (let cur_size = lp_size p; p = p\<lparr>lp_size := cur_size + want\<rparr> in
      bind_res (assert_res (cur_size + want < lp_capacity p)) (\<lambda>_. ok (cur_size, p)))"

definition LockedStackPool_clear :: "LockedStackPool \<Rightarrow> LockedStackPool" where
  "LockedStackPool_clear p = p\<lparr>lp_size := 0\<rparr>"

text \<open>
  What a client of either pool relies on: an allocation that succeeds returns the fill level,
  moves it by the requested size and stays within the capacity.
\<close>

locale bump_pool =
  fixes alloc :: "'s \<Rightarrow> nat \<Rightarrow> (nat \<times> 's) result"
    and used :: "'s \<Rightarrow> nat"
    and cap :: "'s \<Rightarrow> nat"
  assumes alloc_ptr: "alloc s n = Inr (p, s') \<Longrightarrow> p = used s"
    and alloc_used: "alloc s n = Inr (p, s') \<Longrightarrow> used s' = used s + n"
    and alloc_cap: "alloc s n = Inr (p, s') \<Longrightarrow> cap s' = cap s \<and> used s' \<le> cap s"
begin

primrec alloc_all :: "'s \<Rightarrow> nat list \<Rightarrow> ((nat \<times> nat) list \<times> 's) result" where
  "alloc_all s [] = ok ([], s)"
| "alloc_all s (n # ns) =
     bind_res (alloc s n) (\<lambda>(p, s). bind_res (alloc_all s ns) (\<lambda>(ps, s). ok ((p, n) # ps, s)))"

lemma alloc_all_range:
  "alloc_all s ns = Inr (ps, s') \<Longrightarrow> (p, n) \<in> set ps \<Longrightarrow> used s \<le> p \<and> p + n \<le> used s'"
  "alloc_all s ns = Inr (ps, s') \<Longrightarrow> used s \<le> used s' \<and> cap s' = cap s"
proof (induction ns arbitrary: s ps)
  case Nil
  { case 1 then show ?case by simp next case 2 then show ?case by simp }
next
  case (Cons a ns)
  { case 1
    then obtain q t qs where a: "alloc s a = Inr (q, t)" "alloc_all t ns = Inr (qs, s')" "ps = (q, a) # qs"
      by (auto simp: res_elims)
    have "used t \<le> used s'" using Cons.IH(2) [OF a(2)] by simp
    with 1 a Cons.IH(1) [OF a(2)] alloc_ptr [OF a(1)] alloc_used [OF a(1)] show ?case by fastforce
  next
    case 2
    then obtain q t qs where a: "alloc s a = Inr (q, t)" "alloc_all t ns = Inr (qs, s')"
      by (auto simp: res_elims)
    with Cons.IH(2) [OF a(2)] alloc_used [OF a(1)] alloc_cap [OF a(1)] show ?case by simp }
qed

text \<open>Successive allocations never overlap.\<close>

lemma alloc_all_disjoint:
  "alloc_all s ns = Inr (ps, s') \<Longrightarrow>
   sorted_wrt (\<lambda>(p, n) (q, m). {p..<p + n} \<inter> {q..<q + m} = {}) ps"
proof (induction ns arbitrary: s ps)
  case (Cons a ns)
  then obtain q t qs where a: "alloc s a = Inr (q, t)" "alloc_all t ns = Inr (qs, s')" "ps = (q, a) # qs"
    by (auto simp: res_elims)
  have "q + a \<le> p" if "(p, n) \<in> set qs" for p n
    using alloc_all_range(1) [OF a(2) that] alloc_ptr [OF a(1)] alloc_used [OF a(1)] by simp
  with Cons.IH [OF a(2)] a(3) show ?case by fastforce
qed simp

end

interpretation stack_pool: bump_pool StackPool_allocate sp_size sp_max
  by unfold_locales (auto simp: StackPool_allocate_def split: if_splits)

interpretation locked_pool: bump_pool LockedStackPool_allocate lp_size lp_capacity
  by unfold_locales (auto simp: LockedStackPool_allocate_def Let_def res_elims)

section \<open>The queue of switch packets\<close>

text \<open>
  \<open>hot_send_q_t\<close>: an array of entries and a pool of packet buffers, filled together. A
  transaction is named by its worker and its position; an entry never written is \<open>None\<close>.
  \<open>HOT_TXN_PKT_BYTES\<close> is the value for \<open>RAW_PACKETS\<close> and \<open>USE_1PASS_PKTS\<close>.
\<close>

definition HOT_TXN_PKT_BYTES :: nat where
  "HOT_TXN_PKT_BYTES = 180 + (N_REGS - 20) * 5"

record hot_txn_entry =
  he_txn :: "nat \<times> nat"
  mini_batch_num :: nat
  iov_base :: nat
  iov_len :: nat

record hot_send_q =
  send_q_tail :: nat
  send_q_capacity :: nat
  send_q :: "hot_txn_entry option list"
  buf_pool :: LockedStackPool

definition hot_send_q_mk :: "nat \<Rightarrow> hot_send_q" where
  "hot_send_q_mk cap = \<lparr>send_q_tail = 0, send_q_capacity = cap, send_q = replicate cap None,
     buf_pool = LockedStackPool_mk (cap * HOT_TXN_PKT_BYTES)\<rparr>"

definition alloc_slot :: "hot_send_q \<Rightarrow> nat \<Rightarrow> nat \<times> nat \<Rightarrow> (nat \<times> hot_send_q) result" where
  "alloc_slot q mb_num txn =
     bind_res (LockedStackPool_allocate (buf_pool q) HOT_TXN_PKT_BYTES) (\<lambda>(buf, pool).
     let tail = send_q_tail q in
     bind_res (at_res (send_q q) tail) (\<lambda>_.
       ok (buf, q\<lparr>buf_pool := pool, send_q_tail := tail + 1,
         send_q := (send_q q)[tail := Some \<lparr>he_txn = txn, mini_batch_num = mb_num, iov_base = buf,
                                           iov_len = HOT_TXN_PKT_BYTES\<rparr>]\<rparr>)))"

definition done_sending :: "hot_send_q \<Rightarrow> hot_send_q" where
  "done_sending q = q\<lparr>buf_pool := LockedStackPool_clear (buf_pool q), send_q_tail := 0\<rparr>"

lemma HOT_TXN_PKT_BYTES_val: "HOT_TXN_PKT_BYTES = 440"
  by (simp add: HOT_TXN_PKT_BYTES_def N_REGS_def)

lemma HOT_TXN_PKT_BYTES_pos [simp]: "0 < HOT_TXN_PKT_BYTES"
  by (simp add: HOT_TXN_PKT_BYTES_val)

text \<open>The entries in use, as the sequence of requests they record: entry \<open>i\<close> owns the \<open>i\<close>th
  packet buffer.\<close>

definition send_q_holds :: "hot_send_q \<Rightarrow> (nat \<times> nat \<times> nat) list \<Rightarrow> bool" where
  "send_q_holds q rs \<longleftrightarrow> send_q_tail q = length rs \<and> length rs \<le> send_q_capacity q \<and>
     length (send_q q) = send_q_capacity q \<and>
     lp_capacity (buf_pool q) = send_q_capacity q * HOT_TXN_PKT_BYTES \<and>
     lp_size (buf_pool q) = length rs * HOT_TXN_PKT_BYTES \<and>
     (\<forall>i < length rs. send_q q ! i =
        Some \<lparr>he_txn = snd (rs ! i), mini_batch_num = fst (rs ! i), iov_base = i * HOT_TXN_PKT_BYTES,
              iov_len = HOT_TXN_PKT_BYTES\<rparr>)"

lemma send_q_holds_mk: "send_q_holds (hot_send_q_mk cap) []"
  by (simp add: send_q_holds_def hot_send_q_mk_def LockedStackPool_mk_def)

lemma send_q_holds_done: "send_q_holds q rs \<Longrightarrow> send_q_holds (done_sending q) []"
  by (simp add: send_q_holds_def done_sending_def LockedStackPool_clear_def)

lemma slot_fits [simp]:
  "n * HOT_TXN_PKT_BYTES + HOT_TXN_PKT_BYTES < c * HOT_TXN_PKT_BYTES \<longleftrightarrow> Suc n < c"
  using mult_less_cancel2 [of "Suc n" HOT_TXN_PKT_BYTES c] by (simp add: add.commute)

lemma alloc_slot_eq:
  assumes "send_q_holds q rs"
  shows "alloc_slot q mb txn =
    (if Suc (length rs) < send_q_capacity q
     then Inr (length rs * HOT_TXN_PKT_BYTES,
       q\<lparr>buf_pool := (buf_pool q)\<lparr>lp_size := length rs * HOT_TXN_PKT_BYTES + HOT_TXN_PKT_BYTES\<rparr>,
         send_q_tail := Suc (length rs),
         send_q := (send_q q)[length rs := Some \<lparr>he_txn = txn, mini_batch_num = mb,
           iov_base = length rs * HOT_TXN_PKT_BYTES, iov_len = HOT_TXN_PKT_BYTES\<rparr>]\<rparr>)
     else Inl AssertFailed)"
  using assms by (simp add: send_q_holds_def alloc_slot_def LockedStackPool_allocate_def Let_def at_res_def)

lemma alloc_slot_holds:
  assumes "send_q_holds q rs"
  shows "alloc_slot q mb txn = Inr (buf, q') \<Longrightarrow> buf = length rs * HOT_TXN_PKT_BYTES \<and>
           send_q_holds q' (rs @ [(mb, txn)]) \<and> send_q_capacity q' = send_q_capacity q"
    and "Suc (length rs) < send_q_capacity q \<Longrightarrow> \<exists>r. alloc_slot q mb txn = Inr r"
    and "send_q_capacity q \<le> Suc (length rs) \<Longrightarrow> alloc_slot q mb txn = Inl AssertFailed"
  using assms
  by (auto simp: alloc_slot_eq [OF assms] send_q_holds_def nth_append nth_list_update less_Suc_eq split: if_splits)

text \<open>A batch of requests.\<close>

primrec alloc_slots :: "hot_send_q \<Rightarrow> (nat \<times> nat \<times> nat) list \<Rightarrow> (nat list \<times> hot_send_q) result" where
  "alloc_slots q [] = ok ([], q)"
| "alloc_slots q (r # rs) =
     bind_res (alloc_slot q (fst r) (snd r)) (\<lambda>(b, q).
     bind_res (alloc_slots q rs) (\<lambda>(bs, q). ok (b # bs, q)))"

lemma alloc_slots_holds:
  assumes "send_q_holds q old" "length old + length rs < send_q_capacity q \<or> rs = []"
  shows "\<exists>q'. alloc_slots q rs = Inr (map (\<lambda>i. i * HOT_TXN_PKT_BYTES) [length old..<length old + length rs], q') \<and>
    send_q_holds q' (old @ rs) \<and> send_q_capacity q' = send_q_capacity q"
  using assms
proof (induction rs arbitrary: q old)
  case (Cons r rs)
  then have "Suc (length old) < send_q_capacity q" by simp
  then obtain b q1 where a: "alloc_slot q (fst r) (snd r) = Inr (b, q1)"
    using alloc_slot_holds(2) [OF Cons.prems(1), of "fst r" "snd r"] by auto
  note h = alloc_slot_holds(1) [OF Cons.prems(1) a]
  have "length (old @ [r]) + length rs < send_q_capacity q1 \<or> rs = []" using Cons.prems(2) h by simp
  from Cons.IH [OF _ this] h obtain q2 where
    "alloc_slots q1 rs = Inr (map (\<lambda>i. i * HOT_TXN_PKT_BYTES) [Suc (length old)..<Suc (length old) + length rs], q2)"
    "send_q_holds q2 (old @ r # rs)" "send_q_capacity q2 = send_q_capacity q"
    by auto
  with a h show ?case by (simp add: upt_rec)
qed simp

lemma alloc_slots_full:
  assumes "send_q_holds q old" "send_q_capacity q \<le> length old + length rs" "rs \<noteq> []"
  shows "alloc_slots q rs = Inl AssertFailed"
  using assms
proof (induction rs arbitrary: q old)
  case (Cons r rs)
  show ?case
  proof (cases "Suc (length old) < send_q_capacity q")
    case True
    then obtain b q1 where a: "alloc_slot q (fst r) (snd r) = Inr (b, q1)"
      using alloc_slot_holds(2) [OF Cons.prems(1), of "fst r" "snd r"] by auto
    note h = alloc_slot_holds(1) [OF Cons.prems(1) a]
    have "rs \<noteq> []" using True Cons.prems(2) by auto
    with Cons.IH [of q1 "old @ [r]"] h Cons.prems(2) a show ?thesis by simp
  next
    case False
    with alloc_slot_holds(3) [OF Cons.prems(1), of "fst r" "snd r"] show ?thesis by simp
  qed
qed simp

text \<open>
  Slots of the switch queue. A batch of requests on a fresh or reset queue succeeds
  exactly when it is smaller than the capacity (the assertion of the pool leaves the last
  buffer unusable); then request \<open>i\<close> gets the \<open>i\<close>th buffer of \<open>HOT_TXN_PKT_BYTES\<close> bytes, no
  two buffers overlap, and the queue records the requests in order.
\<close>

lemma alloc_slots_batch:
  assumes "send_q_holds q0 rs0" "q = done_sending q0" "rs \<noteq> []"
  shows "if length rs < send_q_capacity q
    then \<exists>bs q'. alloc_slots q rs = Inr (bs, q') \<and> send_q_holds q' rs \<and> length bs = length rs \<and>
      pairwise (\<lambda>i j. {bs ! i..<bs ! i + HOT_TXN_PKT_BYTES} \<inter> {bs ! j..<bs ! j + HOT_TXN_PKT_BYTES} = {})
        {..<length rs}
    else alloc_slots q rs = Inl AssertFailed"
proof -
  have h: "send_q_holds q []" using send_q_holds_done [OF assms(1)] assms(2) by simp
  have disj: "{i * n..<i * n + n} \<inter> {j * n..<j * n + n} = {}" if "i \<noteq> j" for i j n :: nat
  proof -
    have "i * n + n \<le> j * n \<or> j * n + n \<le> i * n"
      using that mult_le_mono1 [of "Suc i" j n] mult_le_mono1 [of "Suc j" i n] by (cases "i < j") auto
    then show ?thesis by auto
  qed
  show ?thesis
  proof (cases "length rs < send_q_capacity q")
    case True
    then obtain q' where
      "alloc_slots q rs = Inr (map (\<lambda>i. i * HOT_TXN_PKT_BYTES) [0..<length rs], q')" "send_q_holds q' rs"
      using alloc_slots_holds [OF h, of rs] by auto
    with True show ?thesis by (auto simp: pairwise_def simp del: Int_atLeastLessThan intro!: disj)
  next
    case False
    with alloc_slots_full [OF h, of rs] assms(3) show ?thesis by simp
  qed
qed

lemma alloc_slots_batch_witness:
  "\<exists>q. send_q_holds (hot_send_q_mk 3) [] \<and>
     alloc_slots (done_sending (hot_send_q_mk 3)) [(1, 0, 0), (1, 0, 1)] = Inr ([0, 440], q) \<and>
     alloc_slots (done_sending (hot_send_q_mk 3)) [(1, 0, 0), (1, 0, 1), (1, 0, 2)] = Inl AssertFailed"
proof -
  let ?q = "done_sending (hot_send_q_mk 3)"
  have c: "send_q_capacity ?q = 3" by (simp add: done_sending_def hot_send_q_mk_def)
  from alloc_slots_batch [OF send_q_holds_mk refl, of "[(1, 0, 0), (1, 0, 1), (1, 0, 2)]" 3] c
  have "alloc_slots ?q [(1, 0, 0), (1, 0, 1), (1, 0, 2)] = Inl AssertFailed" by simp
  moreover from alloc_slots_holds [OF send_q_holds_done [OF send_q_holds_mk], of "[(1, 0, 0), (1, 0, 1)]" 3] c
  obtain q where "alloc_slots ?q [(1, 0, 0), (1, 0, 1)] = Inr ([0, 440], q)"
    by (auto simp: HOT_TXN_PKT_BYTES_val upt_rec)
  ultimately show ?thesis using send_q_holds_mk by blast
qed

section \<open>Object pools\<close>

text \<open>
  \<open>Cache\<close>, a stack of \<open>CACHE_SIZE\<close> pointers private to a thread, \<open>FixedThreadsafeMempool\<close>, a
  vector of free pointers behind a lock, and \<open>FixedMempool\<close>, the same without caches. The cache of a thread is
  a static member: all pools of objects of one type share it. A pointer is the pool whose array it
  points into and the index there. Reading the back of an empty vector is undefined.
\<close>

type_synonym obj_ptr = "nat \<times> nat"

definition CACHE_SIZE :: nat where "CACHE_SIZE = 64"

record Cache =
  fill :: nat
  slots :: "obj_ptr list"

definition Cache_allocate :: "Cache \<Rightarrow> obj_ptr option \<times> Cache" where
  "Cache_allocate c =
     (if fill c = 0 then (None, c) else (Some (slots c ! (fill c - 1)), c\<lparr>fill := fill c - 1\<rparr>))"

definition Cache_deallocate :: "Cache \<Rightarrow> obj_ptr \<Rightarrow> bool \<times> Cache" where
  "Cache_deallocate c p =
     (if fill c = CACHE_SIZE then (False, c)
      else (True, c\<lparr>slots := (slots c)[fill c := p], fill := fill c + 1\<rparr>))"

definition vec_back :: "obj_ptr list \<Rightarrow> (obj_ptr \<times> obj_ptr list) result" where
  "vec_back v = (if v = [] then fail OutOfBounds else ok (last v, butlast v))"

function cache_refill :: "Cache \<Rightarrow> obj_ptr list \<Rightarrow> (Cache \<times> obj_ptr list) result" where
  "cache_refill c free =
     (if fill c < CACHE_SIZE then
        (case vec_back free of
           Inl e \<Rightarrow> Inl e
         | Inr (p, free) \<Rightarrow> cache_refill (snd (Cache_deallocate c p)) free)
      else ok (c, free))"
  by pat_completeness auto
termination
  by (relation "measure (\<lambda>(c, free). CACHE_SIZE - fill c)") (auto simp: Cache_deallocate_def)

function cache_drain :: "Cache \<Rightarrow> obj_ptr list \<Rightarrow> Cache \<times> obj_ptr list" where
  "cache_drain c free =
     (if fill c > CACHE_SIZE then
        (case Cache_allocate c of
           (None, c) \<Rightarrow> (c, free)
         | (Some p, c') \<Rightarrow> cache_drain c' (free @ [p]))
      else (c, free))"
  by pat_completeness auto
termination
  by (relation "measure (\<lambda>(c, free). fill c)") (auto simp: Cache_allocate_def split: if_splits)

declare cache_refill.simps [simp del] cache_drain.simps [simp del]

text \<open>A pool is its vector; \<open>cs\<close> are the caches of the threads. \<open>mempool_mk i n\<close> is pool \<open>i\<close> when new, with \<open>n\<close> objects.\<close>

record mempool =
  mp_free :: "obj_ptr list"

type_synonym thread_caches = "nat \<Rightarrow> Cache"

definition thread_caches_mk :: thread_caches where
  "thread_caches_mk = (\<lambda>_. \<lparr>fill = 0, slots = replicate CACHE_SIZE (0, 0)\<rparr>)"

definition mempool_mk :: "nat \<Rightarrow> nat \<Rightarrow> mempool" where
  "mempool_mk i n = \<lparr>mp_free = map (Pair i) [0..<n]\<rparr>"

definition mempool_allocate ::
  "mempool \<Rightarrow> thread_caches \<Rightarrow> nat \<Rightarrow> (obj_ptr \<times> mempool \<times> thread_caches) result" where
  "mempool_allocate m cs t =
     (case Cache_allocate (cs t) of
        (Some p, c) \<Rightarrow> ok (p, m, cs(t := c))
      | (None, c) \<Rightarrow>
          bind_res (cache_refill c (mp_free m)) (\<lambda>(c, free).
          bind_res (vec_back free) (\<lambda>(p, free).
            ok (p, m\<lparr>mp_free := free\<rparr>, cs(t := c)))))"

definition mempool_deallocate ::
  "mempool \<Rightarrow> thread_caches \<Rightarrow> nat \<Rightarrow> obj_ptr \<Rightarrow> mempool \<times> thread_caches" where
  "mempool_deallocate m cs t p =
     (case Cache_deallocate (cs t) p of
        (True, c) \<Rightarrow> (m, cs(t := c))
      | (False, c) \<Rightarrow>
          let (c, free) = cache_drain c (mp_free m) in
          (m\<lparr>mp_free := free @ [p]\<rparr>, cs(t := c)))"

definition FixedMempool_allocate :: "obj_ptr list \<Rightarrow> (obj_ptr \<times> obj_ptr list) result" where
  "FixedMempool_allocate free = vec_back free"

definition FixedMempool_deallocate :: "obj_ptr list \<Rightarrow> obj_ptr \<Rightarrow> obj_ptr list" where
  "FixedMempool_deallocate free p = free @ [p]"

text \<open>The pointers a cache holds, and how the operations move pointers.\<close>

definition cached :: "Cache \<Rightarrow> obj_ptr multiset" where
  "cached c = mset (take (fill c) (slots c))"

definition cache_wf :: "Cache \<Rightarrow> bool" where
  "cache_wf c \<longleftrightarrow> fill c \<le> CACHE_SIZE \<and> length (slots c) = CACHE_SIZE"

lemma Cache_allocate_cached:
  "cache_wf c \<Longrightarrow> Cache_allocate c = (Some p, c') \<Longrightarrow> cache_wf c' \<and> cached c = add_mset p (cached c')"
  by (auto simp: Cache_allocate_def cached_def cache_wf_def split: if_splits)
    (metis Suc_le_eq Suc_pred mset_take_Suc)

lemma Cache_deallocate_cached:
  "cache_wf c \<Longrightarrow> Cache_deallocate c p = (True, c') \<Longrightarrow> cache_wf c' \<and> cached c' = add_mset p (cached c)"
  by (auto simp: Cache_deallocate_def cached_def cache_wf_def take_Suc_update split: if_splits)

lemma Cache_deallocate_False: "Cache_deallocate c p = (False, c') \<Longrightarrow> c' = c"
  by (auto simp: Cache_deallocate_def split: if_splits)

lemma cache_drain_id: "cache_wf c \<Longrightarrow> cache_drain c free = (c, free)"
  by (subst cache_drain.simps) (simp add: cache_wf_def)

lemma vec_back_mset: "vec_back v = Inr (p, v') \<Longrightarrow> mset v = add_mset p (mset v')"
  by (cases v rule: rev_cases) (auto simp: vec_back_def)

lemma cache_refill_mset:
  "cache_refill c free = Inr (c', free') \<Longrightarrow> cache_wf c \<Longrightarrow>
   cache_wf c' \<and> cached c' + mset free' = cached c + mset free"
proof (induction c free rule: cache_refill.induct)
  case (1 c free)
  show ?case
  proof (cases "fill c < CACHE_SIZE")
    case True
    with 1(2) obtain p fr where v: "vec_back free = Inr (p, fr)"
      and r: "cache_refill (snd (Cache_deallocate c p)) fr = Inr (c', free')"
      by (subst (asm) cache_refill.simps) (auto split: sum.splits)
    have d: "Cache_deallocate c p = (True, snd (Cache_deallocate c p))"
      using True by (simp add: Cache_deallocate_def)
    note dd = Cache_deallocate_cached [OF 1(3) d]
    from 1(1) [OF True v refl r] dd have "cache_wf c' \<and>
        cached c' + mset free' = add_mset p (cached c) + mset fr" by simp
    with vec_back_mset [OF v] show ?thesis by simp
  next
    case False
    with 1(2,3) show ?thesis by (subst (asm) cache_refill.simps) simp
  qed
qed

text \<open>
  The pools \<open>I\<close> of one type in use by the threads \<open>T\<close>: \<open>ps_out\<close> is the multiset of pointers handed out and not
  yet returned. A thread only returns a pointer that is out; it need not be the one that
  allocated it, and the pool need not be the one that handed it out.
\<close>

record pool_sys =
  ps_pools :: "nat \<Rightarrow> mempool"
  ps_caches :: thread_caches
  ps_out :: "obj_ptr multiset"

inductive pool_step :: "nat set \<Rightarrow> nat set \<Rightarrow> pool_sys \<Rightarrow> pool_sys \<Rightarrow> bool" for T I where
  pool_alloc: "t \<in> T \<Longrightarrow> i \<in> I \<Longrightarrow> mempool_allocate (ps_pools s i) (ps_caches s) t = Inr (p, m, cs) \<Longrightarrow>
    pool_step T I s \<lparr>ps_pools = (ps_pools s)(i := m), ps_caches = cs, ps_out = add_mset p (ps_out s)\<rparr>"
| pool_dealloc: "t \<in> T \<Longrightarrow> i \<in> I \<Longrightarrow> p \<in># ps_out s \<Longrightarrow> mempool_deallocate (ps_pools s i) (ps_caches s) t p = (m, cs) \<Longrightarrow>
    pool_step T I s \<lparr>ps_pools = (ps_pools s)(i := m), ps_caches = cs, ps_out = ps_out s - {#p#}\<rparr>"

definition pool_init :: "(nat \<Rightarrow> nat) \<Rightarrow> pool_sys \<Rightarrow> bool" where
  "pool_init sz s \<longleftrightarrow> s = \<lparr>ps_pools = (\<lambda>i. mempool_mk i (sz i)), ps_caches = thread_caches_mk, ps_out = {#}\<rparr>"

text \<open>Every object of the pools is in one place: in a vector, in a cache, or out.\<close>

definition pool_objects :: "nat set \<Rightarrow> (nat \<Rightarrow> nat) \<Rightarrow> obj_ptr multiset" where
  "pool_objects I sz = (\<Sum>i\<in>I. mset (map (Pair i) [0..<sz i]))"

definition pool_places :: "nat set \<Rightarrow> nat set \<Rightarrow> pool_sys \<Rightarrow> obj_ptr multiset" where
  "pool_places T I s = (\<Sum>i\<in>I. mset (mp_free (ps_pools s i))) + (\<Sum>t\<in>T. cached (ps_caches s t)) + ps_out s"

definition pool_inv :: "nat set \<Rightarrow> nat set \<Rightarrow> (nat \<Rightarrow> nat) \<Rightarrow> pool_sys \<Rightarrow> bool" where
  "pool_inv T I sz s \<longleftrightarrow> finite T \<and> finite I \<and> (\<forall>t. cache_wf (ps_caches s t)) \<and> pool_places T I s = pool_objects I sz"

lemma sum_upd_mset:
  fixes g :: "'b \<Rightarrow> 'a multiset"
  shows "finite T \<Longrightarrow> t \<in> T \<Longrightarrow> (\<Sum>u\<in>T. g ((f(t := c)) u)) + g (f t) = (\<Sum>u\<in>T. g (f u)) + g c"
  by (simp add: sum.remove [of T t] add.assoc add.left_commute add.commute)

text \<open>A call on pool \<open>i\<close> by thread \<open>t\<close> moves pointers between the vector, the cache and the client only.\<close>

lemma pool_places_call:
  assumes "finite T" "finite I" "t \<in> T" "i \<in> I"
    and "cached c + mset (mp_free m) + x = cached (ps_caches s t) + mset (mp_free (ps_pools s i)) + y" "out + y = ps_out s + x"
  shows "pool_places T I \<lparr>ps_pools = (ps_pools s)(i := m), ps_caches = (ps_caches s)(t := c), ps_out = out\<rparr> = pool_places T I s"
proof -
  let ?F = "\<lambda>f. \<Sum>u\<in>I. mset (mp_free (f u))" and ?C = "\<lambda>f. \<Sum>u\<in>T. cached (f u)"
  have f: "?F ((ps_pools s)(i := m)) + mset (mp_free (ps_pools s i)) = ?F (ps_pools s) + mset (mp_free m)"
    using sum_upd_mset [OF assms(2,4), of "\<lambda>p. mset (mp_free p)"] by simp
  have c: "?C ((ps_caches s)(t := c)) + cached (ps_caches s t) = ?C (ps_caches s) + cached c"
    using sum_upd_mset [OF assms(1,3), of cached] by simp
  have "?F ((ps_pools s)(i := m)) + ?C ((ps_caches s)(t := c)) + out = ?F (ps_pools s) + ?C (ps_caches s) + ps_out s"
  proof (rule multiset_eqI)
    fix q
    have "count (?F ((ps_pools s)(i := m))) q + count (mset (mp_free (ps_pools s i))) q = count (?F (ps_pools s)) q + count (mset (mp_free m)) q"
      "count (?C ((ps_caches s)(t := c))) q + count (cached (ps_caches s t)) q = count (?C (ps_caches s)) q + count (cached c) q"
      "count (cached c) q + count (mset (mp_free m)) q + count x q =
        count (cached (ps_caches s t)) q + count (mset (mp_free (ps_pools s i))) q + count y q"
      "count out q + count y q = count (ps_out s) q + count x q"
      using arg_cong [OF f, of "\<lambda>A. count A q"] arg_cong [OF c, of "\<lambda>A. count A q"]
        arg_cong [OF assms(5), of "\<lambda>A. count A q"] arg_cong [OF assms(6), of "\<lambda>A. count A q"] by simp_all
    then show "count (?F ((ps_pools s)(i := m)) + ?C ((ps_caches s)(t := c)) + out) q =
        count (?F (ps_pools s) + ?C (ps_caches s) + ps_out s) q"
      unfolding count_union by linarith
  qed
  then show ?thesis unfolding pool_places_def by simp
qed

lemma mempool_allocate_moves:
  assumes "cache_wf (cs t)" "mempool_allocate m cs t = Inr (p, m', cs')"
  obtains c where "cs' = cs(t := c)" "cache_wf c" "cached c + mset (mp_free m') + {#p#} = cached (cs t) + mset (mp_free m)"
proof (cases "Cache_allocate (cs t)")
  case (Pair o1 c1)
  show thesis
  proof (cases o1)
    case None
    then have "c1 = cs t" using Pair by (auto simp: Cache_allocate_def split: if_splits)
    with None Pair assms(2) obtain c2 f2 f3 where r: "cache_refill (cs t) (mp_free m) = Inr (c2, f2)"
      "vec_back f2 = Inr (p, f3)" "m' = m\<lparr>mp_free := f3\<rparr>" "cs' = cs(t := c2)"
      by (auto simp: mempool_allocate_def res_elims)
    from cache_refill_mset [OF r(1) assms(1)] vec_back_mset [OF r(2)] r(3,4) that show thesis
      by (simp add: add.commute add.left_commute)
  next
    case (Some q)
    with Pair assms(2) have "q = p" "m' = m" "cs' = cs(t := c1)" by (auto simp: mempool_allocate_def)
    with Cache_allocate_cached [OF assms(1)] Pair Some that [of c1] show thesis by simp
  qed
qed

lemma mempool_deallocate_moves:
  assumes "cache_wf (cs t)" "mempool_deallocate m cs t p = (m', cs')"
  obtains c where "cs' = cs(t := c)" "cache_wf c" "cached c + mset (mp_free m') = cached (cs t) + mset (mp_free m) + {#p#}"
proof (cases "Cache_deallocate (cs t) p")
  case (Pair b c1)
  show thesis
  proof (cases b)
    case True
    with Pair assms(2) Cache_deallocate_cached [OF assms(1), of p c1] that [of c1] show thesis
      by (simp add: mempool_deallocate_def)
  next
    case False
    then have "c1 = cs t" using Pair Cache_deallocate_False [of "cs t" p c1] by simp
    with Pair False assms cache_drain_id [OF assms(1)] that [of c1] show thesis
      by (auto simp: mempool_deallocate_def)
  qed
qed

lemma pool_step_inv: "pool_step T I s s' \<Longrightarrow> pool_inv T I sz s \<Longrightarrow> pool_inv T I sz s'"
proof (induction rule: pool_step.induct)
  case (pool_alloc t i s p m cs)
  have wf: "\<forall>u. cache_wf (ps_caches s u)" and fin: "finite T" "finite I" using pool_alloc.prems by (simp_all add: pool_inv_def)
  obtain c where c: "cs = (ps_caches s)(t := c)" "cache_wf c"
    "cached c + mset (mp_free m) + {#p#} = cached (ps_caches s t) + mset (mp_free (ps_pools s i))"
    by (rule mempool_allocate_moves [OF _ pool_alloc(3)]) (use wf in auto)
  have "pool_places T I \<lparr>ps_pools = (ps_pools s)(i := m), ps_caches = cs, ps_out = add_mset p (ps_out s)\<rparr> = pool_places T I s"
    unfolding c(1) by (rule pool_places_call [OF fin pool_alloc(1,2), where x = "{#p#}" and y = "{#}"]) (use c(3) in simp_all)
  with c wf pool_alloc.prems show ?case by (simp add: pool_inv_def)
next
  case (pool_dealloc t i p s m cs)
  have wf: "\<forall>u. cache_wf (ps_caches s u)" and fin: "finite T" "finite I" using pool_dealloc.prems by (simp_all add: pool_inv_def)
  obtain c where c: "cs = (ps_caches s)(t := c)" "cache_wf c"
    "cached c + mset (mp_free m) = cached (ps_caches s t) + mset (mp_free (ps_pools s i)) + {#p#}"
    by (rule mempool_deallocate_moves [OF _ pool_dealloc(4)]) (use wf in auto)
  have "pool_places T I \<lparr>ps_pools = (ps_pools s)(i := m), ps_caches = cs, ps_out = ps_out s - {#p#}\<rparr> = pool_places T I s"
    unfolding c(1) by (rule pool_places_call [OF fin pool_dealloc(1,2), where x = "{#}" and y = "{#p#}"]) (use c(3) pool_dealloc(3) in simp_all)
  with c wf pool_dealloc.prems show ?case by (simp add: pool_inv_def)
qed

interpretation object_pool: inv_system "\<lambda>s. finite T \<and> finite I \<and> pool_init sz s" "pool_step T I" "pool_inv T I sz" for T I sz
proof
  show "pool_inv T I sz s" if "finite T \<and> finite I \<and> pool_init sz s" for s
    using that by (auto simp: pool_init_def pool_inv_def pool_places_def pool_objects_def mempool_mk_def thread_caches_mk_def
        cache_wf_def cached_def)
  show "pool_inv T I sz s'" if "pool_inv T I sz s" "pool_step T I s s'" for s s'
    using that pool_step_inv by blast
qed

lemma pool_objects_count: "finite I \<Longrightarrow> count (pool_objects I sz) p = (if fst p \<in> I \<and> snd p < sz (fst p) then 1 else 0)"
proof (induction I rule: finite_induct)
  case (insert i I)
  have "distinct (map (Pair i) [0..<sz i])" by (simp add: distinct_map inj_on_def)
  then have "count (mset (map (Pair i) [0..<sz i])) p = (if p \<in> set (map (Pair i) [0..<sz i]) then 1 else 0)"
    unfolding distinct_count_atmost_1 by (rule spec)
  moreover have "p \<in> set (map (Pair i) [0..<sz i]) \<longleftrightarrow> fst p = i \<and> snd p < sz i" by (cases p) auto
  ultimately have c: "count (mset (map (Pair i) [0..<sz i])) p = (if fst p = i \<and> snd p < sz i then 1 else 0)" by simp
  have "pool_objects (insert i I) sz = mset (map (Pair i) [0..<sz i]) + pool_objects I sz"
    using insert(1,2) unfolding pool_objects_def by (rule sum.insert)
  then show ?case using c insert.IH insert(2) by (auto simp del: mset_map)
qed (simp add: pool_objects_def)

text \<open>
  C40. No double allocation. Whatever the threads allocate from the pools of one type and return to them, through their
  shared caches or the vectors, a pointer that a pool hands out is an object of one of these pools (its own when it is
  the only one) and is not handed out already.
\<close>

theorem mempool_no_double_alloc:
  assumes "finite T" "finite I" "pool_init sz s" "(pool_step T I)\<^sup>*\<^sup>* s s'" "t \<in> T" "i \<in> I"
    and "mempool_allocate (ps_pools s' i) (ps_caches s') t = Inr (p, m, cs)"
  shows "fst p \<in> I \<and> snd p < sz (fst p) \<and> p \<notin># ps_out s'"
proof -
  have "pool_inv T I sz s'" using object_pool.reach_inv [of T I sz s s'] assms by simp
  then have inv: "pool_inv T I sz \<lparr>ps_pools = (ps_pools s')(i := m), ps_caches = cs, ps_out = add_mset p (ps_out s')\<rparr>"
    using pool_step_inv [OF pool_alloc [OF assms(5-7)]] by blast
  have "add_mset p (ps_out s') \<subseteq># pool_objects I sz"
    using inv unfolding pool_inv_def pool_places_def by (metis mset_subset_eq_add_right pool_sys.select_convs(3))
  then have "count (add_mset p (ps_out s')) p \<le> count (pool_objects I sz) p" by (rule mset_subset_eq_count)
  then have "Suc (count (ps_out s') p) \<le> (if fst p \<in> I \<and> snd p < sz (fst p) then 1 else 0)"
    by (simp add: pool_objects_count [OF assms(2)])
  then show ?thesis by (auto simp: not_in_iff split: if_splits)
qed

text \<open>A thread that allocates from one pool and then from another gets an object of the first pool from the second.\<close>

lemma pool_demo_alloc:
  "case mempool_allocate (mempool_mk 0 100) thread_caches_mk 0 of
     Inr (p, m, cs) \<Rightarrow> p = (0, 35) \<and> (case mempool_allocate (mempool_mk 1 100) cs 0 of Inr (q, m', cs') \<Rightarrow> q = (0, 36) | Inl _ \<Rightarrow> False)
   | Inl _ \<Rightarrow> False"
  by code_simp

theorem mempool_no_double_alloc_witness:
  "\<exists>s s' m cs. pool_init (\<lambda>_. 100) s \<and> (pool_step {0} {0, 1})\<^sup>*\<^sup>* s s' \<and> ps_out s' = {#(0, 35)#} \<and>
     mempool_allocate (ps_pools s' 1) (ps_caches s') 0 = Inr ((0, 36), m, cs) \<and> (0, 36) \<notin># ps_out s'"
proof -
  let ?s = "\<lparr>ps_pools = (\<lambda>i. mempool_mk i 100), ps_caches = thread_caches_mk, ps_out = {#}\<rparr>"
  have i: "pool_init (\<lambda>_. 100) ?s" by (simp add: pool_init_def)
  obtain m cs where m1: "mempool_allocate (mempool_mk 0 100) thread_caches_mk 0 = Inr ((0, 35), m, cs)"
    and two: "case mempool_allocate (mempool_mk 1 100) cs 0 of Inr (q, m', cs') \<Rightarrow> q = (0, 36) | Inl _ \<Rightarrow> False"
    using pool_demo_alloc by (cases "mempool_allocate (mempool_mk 0 100) thread_caches_mk 0") auto
  obtain m' cs' where m: "mempool_allocate (mempool_mk 1 100) cs 0 = Inr ((0, 36), m', cs')"
    using two by (cases "mempool_allocate (mempool_mk 1 100) cs 0") auto
  let ?s' = "\<lparr>ps_pools = (ps_pools ?s)(0 := m), ps_caches = cs, ps_out = add_mset (0, 35) (ps_out ?s)\<rparr>"
  have r: "(pool_step {0} {0, 1})\<^sup>*\<^sup>* ?s ?s'" by (rule r_into_rtranclp, rule pool_alloc) (use m1 in simp_all)
  have m2: "mempool_allocate (ps_pools ?s' 1) (ps_caches ?s') 0 = Inr ((0, 36), m', cs')" using m by simp
  have "(0, 36) \<notin># ps_out ?s'" using mempool_no_double_alloc [OF _ _ i r _ _ m2] by simp
  with i r m2 show ?thesis by (intro exI [of _ ?s] exI [of _ ?s']) simp
qed

end
