(* ===== verification/P4_Undo.thy ===== *)
theory P4_Undo
  imports P4_Node P4_Pools
begin

text \<open>
  The undo log of \<open>ee/undolog.hpp\<close> and \<open>ee/undolog.cpp\<close>: the locks a transaction holds, with
  the futures that name the rows, and their release by local and remote puts.
\<close>

section \<open>The log\<close>

text \<open>
  The three actions: a local write or read lock with its table, key and future, and a remote
  lock (a \<open>Remote<Tuple_t, mode>\<close>) with its future and target.
\<close>

datatype action =
    Write nat db_key nat
  | Read nat db_key nat
  | Remote AccessMode nat node_t

record undolog =
  log_pool :: StackPool
  actions :: "action list"
  log_comm :: nat
  log_tid :: nat

definition Undolog_mk :: "nat \<Rightarrow> nat \<Rightarrow> undolog" where
  "Undolog_mk comm w = \<lparr>log_pool = \<lparr>sp_max = 65536, sp_size = 0\<rparr>, actions = [], log_comm = comm, log_tid = w\<rparr>"

text \<open>The size of an action's object.\<close>

primrec sizeof_action :: "action \<Rightarrow> nat" where
  "sizeof_action (Write t k f) = 32"
| "sizeof_action (Read t k f) = 32"
| "sizeof_action (Remote md f n) = 24"

definition log_add :: "undolog \<Rightarrow> action \<Rightarrow> undolog result" where
  "log_add l a =
     bind_res (StackPool_allocate (log_pool l) (sizeof_action a)) (\<lambda>(_, p).
       ok (l\<lparr>log_pool := p, actions := actions l @ [a]\<rparr>))"

section \<open>Releasing a lock\<close>

definition the_future :: "node \<Rightarrow> nat \<Rightarrow> nat \<Rightarrow> future result" where
  "the_future nd w f = at_res (futures nd w) f"

text \<open>\<open>Write::clear\<close> and \<open>Read::clear\<close>.\<close>

definition local_clear :: "AccessMode \<Rightarrow> node \<Rightarrow> nat \<Rightarrow> nat \<Rightarrow> db_key \<Rightarrow> nat \<Rightarrow> node result" where
  "local_clear md nd w t k f =
     bind_res (the_future nd w f) (\<lambda>fut.
       if f_tuple fut = NullPtr then fail RuntimeError
       else bind_res (at_res (tables nd) t) (\<lambda>tbl.
            bind_res (table_put tbl k md (f_last_acq fut)) (\<lambda>(rc, tbl).
              if err_not rc then fail UndoException else ok (set_table nd t tbl))))"

text \<open>
  \<open>Remote::clear\<close>: the packet of the response becomes the put request. The tuple it copies for
  a write is the packet's own.
\<close>

definition put_req :: "node \<Rightarrow> nat \<Rightarrow> AccessMode \<Rightarrow> future \<Rightarrow> msg \<Rightarrow> msg result" where
  "put_req nd w md fut res =
     (let req = convert TUPLE_PUT_REQ res in
      if m_tid req > 4 then fail RuntimeError
      else let req = req\<lparr>sender := node_t_mk (node_u32 (comm_id nd)) (word_of_nat w), pack := get_packed (f_last_acq fut)\<rparr> in
        case md of
          READ \<Rightarrow> resize (sizeof_msg TUPLE_PUT_REQ) req
        | WRITE \<Rightarrow> ok req
        | INVALID \<Rightarrow> fail InvalidAccessMode)"

definition remote_clear ::
  "build_cfg \<Rightarrow> AccessMode \<Rightarrow> node list \<Rightarrow> nat \<Rightarrow> nat \<Rightarrow> nat \<Rightarrow> node_t \<Rightarrow> node list result" where
  "remote_clear cfg md nds self w f tgt =
     bind_res (at_res nds self) (\<lambda>nd.
     bind_res (the_future nd w f) (\<lambda>fut.
       case future_get fut of
         None \<Rightarrow> fail Blocked
       | Some (fut, p) \<Rightarrow>
           bind_res (upd_future nd (w, f) (\<lambda>_. fut)) (\<lambda>nd.
             if p = NullPtr then ok (nds[self := nd])
             else case get_pkt fut of
               None \<Rightarrow> fail Blocked
             | Some res \<Rightarrow>
                 bind_res (put_req nd w md fut res) (\<lambda>req.
                 bind_res (putres_add nd w) (\<lambda>nd.
                   deliver cfg (nds[self := nd]) self tgt req)))))"

definition action_clear :: "build_cfg \<Rightarrow> nat \<Rightarrow> nat \<Rightarrow> node list \<Rightarrow> action \<Rightarrow> node list result" where
  "action_clear cfg self w nds a =
     (case a of
        Write t k f \<Rightarrow> bind_res (at_res nds self) (\<lambda>nd. bind_res (local_clear WRITE nd w t k f) (\<lambda>nd. ok (nds[self := nd])))
      | Read t k f \<Rightarrow> bind_res (at_res nds self) (\<lambda>nd. bind_res (local_clear READ nd w t k f) (\<lambda>nd. ok (nds[self := nd])))
      | Remote md f tgt \<Rightarrow> remote_clear cfg md nds self w f tgt)"

primrec actions_clear :: "build_cfg \<Rightarrow> nat \<Rightarrow> nat \<Rightarrow> node list \<Rightarrow> action list \<Rightarrow> node list result" where
  "actions_clear cfg self w nds [] = ok nds"
| "actions_clear cfg self w nds (a # as) =
     bind_res (action_clear cfg self w nds a) (\<lambda>nds. actions_clear cfg self w nds as)"

text \<open>\<open>Undolog::clear\<close> (both \<open>commit\<close> and \<open>rollback\<close>) and \<open>Undolog::clear_last_n\<close>.\<close>

definition undo_clear :: "build_cfg \<Rightarrow> undolog \<Rightarrow> node list \<Rightarrow> (undolog \<times> node list) result" where
  "undo_clear cfg l nds =
     bind_res (actions_clear cfg (log_comm l) (log_tid l) nds (actions l)) (\<lambda>nds.
     let l = l\<lparr>log_pool := StackPool_clear (log_pool l), actions := []\<rparr> in
     bind_res (at_res nds (log_comm l)) (\<lambda>nd.
     bind_res (putres_wait nd (log_tid l)) (\<lambda>_. ok (l, nds))))"

primrec pop_clear :: "build_cfg \<Rightarrow> nat \<Rightarrow> undolog \<Rightarrow> node list \<Rightarrow> (undolog \<times> node list) result" where
  "pop_clear cfg 0 l nds = ok (l, nds)"
| "pop_clear cfg (Suc n) l nds =
     bind_res (action_clear cfg (log_comm l) (log_tid l) nds (last (actions l))) (\<lambda>nds.
       pop_clear cfg n (l\<lparr>actions := butlast (actions l)\<rparr>) nds)"

definition undo_clear_last_n :: "build_cfg \<Rightarrow> undolog \<Rightarrow> nat \<Rightarrow> node list \<Rightarrow> (undolog \<times> node list) result" where
  "undo_clear_last_n cfg l n nds =
     (if length (actions l) < n then fail RuntimeError
      else bind_res (pop_clear cfg n l nds) (\<lambda>(l, nds).
        bind_res (at_res nds (log_comm l)) (\<lambda>nd.
        bind_res (putres_wait nd (log_tid l)) (\<lambda>_. ok (l, nds)))))"

end
