(* ===== verification/P4_Layout.thy ===== *)
theory P4_Layout
  imports P4_Types "HOL-Library.Product_Lexorder"
begin

text \<open>
  The placement of keys in the switch's registers, \<open>layout/declustered_layout.cpp\<close>: keys in
  order of frequency go to the register with the least total frequency, and every key that is
  not a register's first gets one of the switch's locks.
\<close>

section \<open>Locations and the layout\<close>

record TupleLocation =
  reg_array_id :: u8
  reg_array_idx :: u16
  dist_freq :: nat
  lock_pos :: u8

text \<open>\<open>total_order_gt\<close> with the comparison the code has.\<close>

definition total_order_gt :: "nat \<Rightarrow> db_key \<Rightarrow> nat \<Rightarrow> db_key \<Rightarrow> bool" where
  "total_order_gt f1 k1 f2 k2 = (if f1 \<noteq> f2 then f1 < f2 else k1 < k2)"

definition NO_LOCK :: u8 where "NO_LOCK = 255"
definition NO_BLOCK :: nat where "NO_BLOCK = 2 ^ 32 - 1"

definition N_ACCEL_KEYS :: "build_cfg \<Rightarrow> nat" where
  "N_ACCEL_KEYS cfg = N_REGS * SLOTS_PER_SCHED_BLOCK cfg"

record DeclusteredLayout =
  block_num :: nat
  virt_map :: "db_key \<rightharpoonup> TupleLocation"
  rev_by_reg :: "nat \<Rightarrow> nat \<rightharpoonup> db_key"
  ld_id_freq :: "(db_key \<times> nat) list"

text \<open>The local arrays of the constructor beside the maps it fills.\<close>

record layout_build =
  idx_to_alloc :: "nat list"
  weight :: "nat list"
  lock_weight :: "nat list"
  lb_map :: "db_key \<rightharpoonup> TupleLocation"
  lb_rev :: "nat \<Rightarrow> nat \<rightharpoonup> db_key"

definition layout_start :: layout_build where
  "layout_start = \<lparr>idx_to_alloc = replicate N_REGS 0, weight = replicate N_REGS 0,
     lock_weight = replicate N_SW_LOCKS 0, lb_map = Map.empty, lb_rev = (\<lambda>_. Map.empty)\<rparr>"

text \<open>\<open>std::unordered_map::emplace\<close> keeps the value of a key that is present.\<close>

definition emplace :: "('k \<rightharpoonup> 'v) \<Rightarrow> 'k \<Rightarrow> 'v \<Rightarrow> ('k \<rightharpoonup> 'v)" where
  "emplace mp k v = (if mp k = None then mp(k \<mapsto> v) else mp)"

text \<open>The sums of frequencies are of type \<open>size_t\<close>.\<close>

definition size_add :: "nat \<Rightarrow> nat \<Rightarrow> nat" where
  "size_add a b = (a + b) mod 2 ^ 64"

text \<open>One turn of the constructor's loop.\<close>

definition layout_place :: "layout_build \<Rightarrow> db_key \<times> nat \<Rightarrow> layout_build" where
  "layout_place b pr =
     (let k = fst pr;
          r_low = argmin_scan (weight b);
          w = (weight b)[r_low := size_add (weight b ! r_low) (snd pr)];
          loc = \<lparr>reg_array_id = word_of_nat r_low, reg_array_idx = word_of_nat (idx_to_alloc b ! r_low),
                 dist_freq = snd pr, lock_pos = NO_LOCK\<rparr>;
          alloc = (idx_to_alloc b)[r_low := idx_to_alloc b ! r_low + 1];
          (loc, lw) =
            (if reg_array_idx loc \<noteq> 0 then
               let lk_low = argmin_scan (lock_weight b) in
               (loc\<lparr>lock_pos := word_of_nat lk_low\<rparr>,
                (lock_weight b)[lk_low := size_add (lock_weight b ! lk_low) (snd pr)])
             else (loc, lock_weight b));
          reg = unat (reg_array_id loc)
      in b\<lparr>idx_to_alloc := alloc, weight := w, lock_weight := lw, lb_map := emplace (lb_map b) k loc,
           lb_rev := (lb_rev b)(reg := emplace (lb_rev b reg) (unat (reg_array_idx loc)) k)\<rparr>)"

text \<open>
  The order the constructor sorts by: \<open>std::sort\<close> with the negation of \<open>total_order_gt\<close>, so
  by decreasing frequency and then decreasing key.
\<close>

definition layout_order :: "(db_key \<times> nat) list \<Rightarrow> (db_key \<times> nat) list" where
  "layout_order id_freq = rev (sort_key (\<lambda>(k, f). (f, k)) id_freq)"

definition layout_placed :: "(db_key \<times> nat) list \<Rightarrow> layout_build" where
  "layout_placed id_freq = foldl layout_place layout_start (layout_order id_freq)"

text \<open>The constructor sorts and reads its argument; the member keeps the unsorted copy. The
  final \<open>printf\<close> reads the entry at \<open>N_ACCEL_KEYS\<close>.\<close>

definition DeclusteredLayout_mk :: "build_cfg \<Rightarrow> (db_key \<times> nat) list \<Rightarrow> DeclusteredLayout result" where
  "DeclusteredLayout_mk cfg id_freq =
     bind_res (at_res (layout_order id_freq) (N_ACCEL_KEYS cfg)) (\<lambda>_.
       ok \<lparr>block_num = NO_BLOCK, virt_map = lb_map (layout_placed id_freq),
           rev_by_reg = lb_rev (layout_placed id_freq), ld_id_freq = id_freq\<rparr>)"

text \<open>\<open>get_location\<close> reads \<open>virt_map[k]\<close>, which inserts a zero location for an unknown key.\<close>

definition TupleLocation_zero :: TupleLocation where
  "TupleLocation_zero = \<lparr>reg_array_id = 0, reg_array_idx = 0, dist_freq = 0, lock_pos = 0\<rparr>"

definition get_location ::
  "build_cfg \<Rightarrow> DeclusteredLayout \<Rightarrow> db_key \<Rightarrow> (bool \<times> TupleLocation) \<times> DeclusteredLayout" where
  "get_location cfg d k =
     (let loc = (case virt_map d k of Some loc \<Rightarrow> loc | None \<Rightarrow> TupleLocation_zero);
          d = d\<lparr>virt_map := emplace (virt_map d) k TupleLocation_zero\<rparr>
      in ((unat (reg_array_idx loc) < SLOTS_PER_SCHED_BLOCK cfg,
           loc\<lparr>reg_array_idx := word_of_nat (SLOTS_PER_SCHED_BLOCK cfg * block_num d + unat (reg_array_idx loc))\<rparr>), d))"

definition rev_lookup :: "build_cfg \<Rightarrow> DeclusteredLayout \<Rightarrow> nat \<Rightarrow> nat \<Rightarrow> db_key option result" where
  "rev_lookup cfg d reg_id reg_idx =
     (let idx = unat ((word_of_nat reg_idx :: u64) - word_of_nat (SLOTS_PER_SCHED_BLOCK cfg * block_num d)) in
      if reg_id < N_REGS then ok (rev_by_reg d reg_id idx) else fail OutOfBounds)"

section \<open>The placement invariant\<close>

text \<open>
  What the constructor's loop keeps, for the keys \<open>ps\<close> placed so far: the two maps are inverse
  to each other, register \<open>r\<close> has exactly its first \<open>idx_to_alloc ! r\<close> slots filled, a slot
  further up a register never has a higher frequency, and the lock rule.
\<close>

definition layout_inv :: "layout_build \<Rightarrow> (db_key \<times> nat) list \<Rightarrow> bool" where
  "layout_inv b ps \<longleftrightarrow>
     length (idx_to_alloc b) = N_REGS \<and> length (weight b) = N_REGS \<and> length (lock_weight b) = N_SW_LOCKS \<and>
     dom (lb_map b) = fst ` set ps \<and>
     (\<forall>r < N_REGS. idx_to_alloc b ! r \<le> length ps) \<and>
     (\<forall>r i. lb_rev b r i \<noteq> None \<longleftrightarrow> r < N_REGS \<and> i < idx_to_alloc b ! r) \<and>
     (\<forall>r i k. lb_rev b r i = Some k \<longleftrightarrow>
        (\<exists>loc. lb_map b k = Some loc \<and> unat (reg_array_id loc) = r \<and> unat (reg_array_idx loc) = i)) \<and>
     (\<forall>k loc. lb_map b k = Some loc \<longrightarrow> (k, dist_freq loc) \<in> set ps \<and>
        (if reg_array_idx loc = 0 then lock_pos loc = NO_LOCK else unat (lock_pos loc) < N_SW_LOCKS)) \<and>
     (\<forall>k loc k' loc'. lb_map b k = Some loc \<longrightarrow> lb_map b k' = Some loc' \<longrightarrow>
        reg_array_id loc = reg_array_id loc' \<longrightarrow> reg_array_idx loc \<le> reg_array_idx loc' \<longrightarrow>
        dist_freq loc' \<le> dist_freq loc)"

lemma layout_inv_start: "layout_inv layout_start []"
  by (auto simp: layout_inv_def layout_start_def)

lemma argmin_regs: "length w = N_REGS \<Longrightarrow> argmin_scan w < N_REGS"
  using argmin_scan_less [of w] by (cases w) (auto simp: N_REGS_def)

lemma argmin_locks: "length w = N_SW_LOCKS \<Longrightarrow> argmin_scan w < N_SW_LOCKS"
  using argmin_scan_less [of w] by (cases w) (auto simp: N_SW_LOCKS_def)

lemma unat_reg8 [simp]: "r < N_REGS \<Longrightarrow> unat (word_of_nat r :: u8) = r"
  by (simp add: N_REGS_def unat_of_nat)

lemma unat_lock8 [simp]: "r < N_SW_LOCKS \<Longrightarrow> unat (word_of_nat r :: u8) = r"
  by (simp add: N_SW_LOCKS_def unat_of_nat)

lemma unat_slot16: "i < 65536 \<Longrightarrow> unat (word_of_nat i :: u16) = i"
  by (simp add: unat_of_nat)

text \<open>The location one turn of the loop gives its key.\<close>

definition place_loc :: "layout_build \<Rightarrow> nat \<Rightarrow> TupleLocation" where
  "place_loc b f =
     (let r = argmin_scan (weight b); i = idx_to_alloc b ! r in
      \<lparr>reg_array_id = word_of_nat r, reg_array_idx = word_of_nat i, dist_freq = f,
       lock_pos = (if (word_of_nat i :: u16) = 0 then NO_LOCK else word_of_nat (argmin_scan (lock_weight b)))\<rparr>)"

lemma layout_place_sel:
  "lb_map (layout_place b (k, f)) = emplace (lb_map b) k (place_loc b f)"
  "lb_rev (layout_place b (k, f)) =
     (lb_rev b)(unat (reg_array_id (place_loc b f)) :=
        emplace (lb_rev b (unat (reg_array_id (place_loc b f)))) (unat (reg_array_idx (place_loc b f))) k)"
  "idx_to_alloc (layout_place b (k, f)) =
     (idx_to_alloc b)[argmin_scan (weight b) := idx_to_alloc b ! argmin_scan (weight b) + 1]"
  "weight (layout_place b (k, f)) = (weight b)[argmin_scan (weight b) := size_add (weight b ! argmin_scan (weight b)) f]"
  "length (lock_weight (layout_place b (k, f))) = length (lock_weight b)"
  by (auto simp: layout_place_def place_loc_def Let_def)

lemma place_loc_sel:
  assumes "layout_inv b ps" "length ps < 65536"
  shows "unat (reg_array_id (place_loc b f)) = argmin_scan (weight b)"
    "unat (reg_array_idx (place_loc b f)) = idx_to_alloc b ! argmin_scan (weight b)"
    "dist_freq (place_loc b f) = f" "argmin_scan (weight b) < N_REGS"
proof -
  show r: "argmin_scan (weight b) < N_REGS" using assms by (simp add: layout_inv_def argmin_regs)
  have "idx_to_alloc b ! argmin_scan (weight b) \<le> length ps"
    using assms(1) r unfolding layout_inv_def by blast
  with assms(2) have "idx_to_alloc b ! argmin_scan (weight b) < 65536" by simp
  with r show "unat (reg_array_id (place_loc b f)) = argmin_scan (weight b)"
    "unat (reg_array_idx (place_loc b f)) = idx_to_alloc b ! argmin_scan (weight b)"
    "dist_freq (place_loc b f) = f"
    by (simp_all add: place_loc_def Let_def unat_slot16)
qed

lemma layout_inv_rev:
  "layout_inv b ps \<Longrightarrow> lb_rev b r i = Some k \<longleftrightarrow>
     (\<exists>loc. lb_map b k = Some loc \<and> unat (reg_array_id loc) = r \<and> unat (reg_array_idx loc) = i)"
  unfolding layout_inv_def by blast

lemma layout_inv_filled:
  "layout_inv b ps \<Longrightarrow> lb_rev b r i \<noteq> None \<longleftrightarrow> r < N_REGS \<and> i < idx_to_alloc b ! r"
  unfolding layout_inv_def by blast

lemma layout_inv_loc:
  assumes "layout_inv b ps" "lb_map b k = Some loc"
  shows "unat (reg_array_id loc) < N_REGS" "unat (reg_array_idx loc) < idx_to_alloc b ! unat (reg_array_id loc)"
    "(k, dist_freq loc) \<in> set ps"
    "if reg_array_idx loc = 0 then lock_pos loc = NO_LOCK else unat (lock_pos loc) < N_SW_LOCKS"
proof -
  have "lb_rev b (unat (reg_array_id loc)) (unat (reg_array_idx loc)) = Some k"
    using assms by (auto simp: layout_inv_rev)
  then show "unat (reg_array_id loc) < N_REGS"
    "unat (reg_array_idx loc) < idx_to_alloc b ! unat (reg_array_id loc)"
    using layout_inv_filled [OF assms(1), of "unat (reg_array_id loc)" "unat (reg_array_idx loc)"] by simp_all
  show "(k, dist_freq loc) \<in> set ps"
    "if reg_array_idx loc = 0 then lock_pos loc = NO_LOCK else unat (lock_pos loc) < N_SW_LOCKS"
    using assms unfolding layout_inv_def by blast+
qed

lemma layout_place_inv:
  assumes inv: "layout_inv b ps" and new: "k \<notin> fst ` set ps" and room: "length ps < 65536"
    and low: "\<And>k' f'. (k', f') \<in> set ps \<Longrightarrow> f \<le> f'"
  shows "layout_inv (layout_place b (k, f)) (ps @ [(k, f)])"
proof -
  let ?loc = "place_loc b f" and ?r = "argmin_scan (weight b)"
  let ?i = "idx_to_alloc b ! ?r"
  note loc = place_loc_sel(1-3) [OF inv room, of f] place_loc_sel(4) [OF inv room]
  have dom: "dom (lb_map b) = fst ` set ps" and la: "length (idx_to_alloc b) = N_REGS"
    and lw: "length (weight b) = N_REGS" and ll: "length (lock_weight b) = N_SW_LOCKS"
    and al: "\<And>r. r < N_REGS \<Longrightarrow> idx_to_alloc b ! r \<le> length ps"
    and mono: "\<And>k l k' l'. lb_map b k = Some l \<Longrightarrow> lb_map b k' = Some l' \<Longrightarrow>
        reg_array_id l = reg_array_id l' \<Longrightarrow> reg_array_idx l \<le> reg_array_idx l' \<Longrightarrow> dist_freq l' \<le> dist_freq l"
    using inv unfolding layout_inv_def by blast+
  have knew: "lb_map b k = None" using new dom by blast
  have inew: "lb_rev b ?r ?i = None" using layout_inv_filled [OF inv, of ?r ?i] by blast
  have map': "lb_map (layout_place b (k, f)) = (lb_map b)(k \<mapsto> ?loc)"
    using knew by (simp add: layout_place_sel emplace_def)
  have rev': "lb_rev (layout_place b (k, f)) = (lb_rev b)(?r := (lb_rev b ?r)(?i \<mapsto> k))"
    using inew by (simp add: layout_place_sel emplace_def loc)
  have alloc': "idx_to_alloc (layout_place b (k, f)) = (idx_to_alloc b)[?r := ?i + 1]"
    by (simp add: layout_place_sel)
  have old: "unat (reg_array_idx l) < ?i" if "lb_map b k' = Some l" "reg_array_id l = reg_array_id ?loc" for k' l
    using layout_inv_loc(2) [OF inv that(1)] that(2) loc(1) by simp
  have frq: "f \<le> dist_freq l" if "lb_map b k' = Some l" for k' l
    using layout_inv_loc(3) [OF inv that] low by blast
  have lock: "if reg_array_idx ?loc = 0 then lock_pos ?loc = NO_LOCK else unat (lock_pos ?loc) < N_SW_LOCKS"
    using ll by (simp add: place_loc_def Let_def argmin_locks)
  show ?thesis
    unfolding layout_inv_def
  proof (intro conjI allI impI)
    show "dom (lb_map (layout_place b (k, f))) = fst ` set (ps @ [(k, f)])" using dom by (auto simp: map')
    show "lb_rev (layout_place b (k, f)) r i = Some k' \<longleftrightarrow>
        (\<exists>l. lb_map (layout_place b (k, f)) k' = Some l \<and> unat (reg_array_id l) = r \<and> unat (reg_array_idx l) = i)"
      for r i k'
      using loc inew knew layout_inv_rev [OF inv, of r i k'] layout_inv_rev [OF inv, of r i k]
      by (auto simp: map' rev')
    show "(lb_rev (layout_place b (k, f)) r i \<noteq> None) \<longleftrightarrow>
        r < N_REGS \<and> i < idx_to_alloc (layout_place b (k, f)) ! r" for r i
      using layout_inv_filled [OF inv, of r i] loc(4) la by (auto simp: rev' alloc' nth_list_update less_Suc_eq)
    fix k' l assume k': "lb_map (layout_place b (k, f)) k' = Some l"
    show "(k', dist_freq l) \<in> set (ps @ [(k, f)])"
      using k' layout_inv_loc(3) [OF inv, of k' l] loc(3) by (auto simp: map' split: if_splits)
    show "if reg_array_idx l = 0 then lock_pos l = NO_LOCK else unat (lock_pos l) < N_SW_LOCKS"
      using k' layout_inv_loc(4) [OF inv, of k' l] lock by (auto simp: map' split: if_splits)
    fix k2 l2 assume k2: "lb_map (layout_place b (k, f)) k2 = Some l2"
      and same: "reg_array_id l = reg_array_id l2" "reg_array_idx l \<le> reg_array_idx l2"
    show "dist_freq l2 \<le> dist_freq l"
    proof (cases "k2 = k")
      case True
      then show ?thesis using k' k2 frq loc(3) by (auto simp: map' split: if_splits)
    next
      case False
      then have b2: "lb_map b k2 = Some l2" using k2 by (simp add: map')
      show ?thesis
      proof (cases "k' = k")
        case True
        then have "l = ?loc" using k' by (simp add: map')
        with old [OF b2] same loc(2) show ?thesis by (simp add: word_le_nat_alt)
      next
        case False
        with k' mono [OF _ b2] same show ?thesis by (simp add: map')
      qed
    qed
  qed (use la lw ll al loc(4) in \<open>auto simp: layout_place_sel nth_list_update le_SucI\<close>)
qed

lemma foldl_place_inv:
  assumes "layout_inv b ps" "distinct (map fst (ps @ qs))" "length (ps @ qs) \<le> 65536"
    "sorted_wrt (\<lambda>x y. snd y \<le> snd x) (ps @ qs)"
  shows "layout_inv (foldl layout_place b qs) (ps @ qs)"
  using assms
proof (induction qs arbitrary: b ps)
  case (Cons q qs)
  have "layout_inv (layout_place b (fst q, snd q)) (ps @ [(fst q, snd q)])"
    by (rule layout_place_inv) (use Cons.prems in \<open>auto simp: sorted_wrt_append\<close>)
  then show ?case using Cons.IH [of "layout_place b q" "ps @ [q]"] Cons.prems by simp
qed simp

lemma layout_order_sorted: "sorted_wrt (\<lambda>x y. snd y \<le> snd x) (layout_order id_freq)"
proof -
  have "sorted_wrt (\<lambda>x y. (case x of (k, f) \<Rightarrow> (f, k)) \<le> (case y of (k, f) \<Rightarrow> (f, k)))
      (sort_key (\<lambda>(k, f). (f, k)) id_freq)"
    by (simp flip: sorted_wrt_map)
  then have "sorted_wrt (\<lambda>x y. snd x \<le> snd y) (sort_key (\<lambda>(k, f). (f, k)) id_freq)"
    by (rule sorted_wrt_mono_rel [rotated]) auto
  then show ?thesis by (simp add: layout_order_def sorted_wrt_rev)
qed

lemma layout_order_mset [simp]: "mset (layout_order id_freq) = mset id_freq"
  by (simp add: layout_order_def)

lemma layout_order_set [simp]: "set (layout_order id_freq) = set id_freq"
  by (metis layout_order_mset set_mset_mset)

lemma layout_order_length [simp]: "length (layout_order id_freq) = length id_freq"
  by (simp add: layout_order_def)

lemma layout_placed_inv:
  assumes "distinct (map fst id_freq)" "length id_freq \<le> 65536"
  shows "layout_inv (layout_placed id_freq) (layout_order id_freq)"
proof -
  have "mset (map fst (layout_order id_freq)) = mset (map fst id_freq)" by simp
  with assms(1) have "distinct (map fst (layout_order id_freq))" by (metis mset_eq_imp_distinct_iff)
  then show ?thesis
    using foldl_place_inv [OF layout_inv_start, of "layout_order id_freq"] assms(2) layout_order_sorted
    by (simp add: layout_placed_def)
qed

section \<open>Placements\<close>

text \<open>
  The contract between a layout and its users: a forward and a backward map that are inverse
  to each other on every well-formed layout.
\<close>

locale placement =
  fixes wf :: "'s \<Rightarrow> bool"
    and fwd :: "'s \<Rightarrow> 'k \<rightharpoonup> 'x"
    and bwd :: "'s \<Rightarrow> 'x \<rightharpoonup> 'k"
  assumes inverse: "wf s \<Longrightarrow> fwd s k = Some x \<longleftrightarrow> bwd s x = Some k"
begin

lemma slots_differ: "wf s \<Longrightarrow> fwd s k = Some x \<Longrightarrow> fwd s k' = Some x \<Longrightarrow> k = k'"
  by (metis inverse option.inject)

lemma roundtrip: "wf s \<Longrightarrow> fwd s k = Some x \<Longrightarrow> bwd s x = Some k"
  by (simp add: inverse)

lemma slots_used: "wf s \<Longrightarrow> dom (bwd s) = ran (fwd s)"
  by (auto simp: dom_def ran_def inverse)

lemma slots_count: "wf s \<Longrightarrow> finite (dom (fwd s)) \<Longrightarrow> card (dom (bwd s)) = card (dom (fwd s))"
proof -
  assume wf: "wf s" "finite (dom (fwd s))"
  have "inj_on (\<lambda>k. the (fwd s k)) (dom (fwd s))"
    by (auto simp: inj_on_def dom_def intro: slots_differ [OF wf(1)])
  moreover have "ran (fwd s) = (\<lambda>k. the (fwd s k)) ` dom (fwd s)" by (force simp: ran_def dom_def)
  ultimately show ?thesis by (simp add: slots_used [OF wf(1)] card_image)
qed

end

definition layout_wf :: "DeclusteredLayout \<Rightarrow> bool" where
  "layout_wf d \<longleftrightarrow> (\<exists>b ps. layout_inv b ps \<and> virt_map d = lb_map b \<and> rev_by_reg d = lb_rev b)"

definition layout_fwd :: "DeclusteredLayout \<Rightarrow> db_key \<rightharpoonup> nat \<times> nat" where
  "layout_fwd d k = map_option (\<lambda>loc. (unat (reg_array_id loc), unat (reg_array_idx loc))) (virt_map d k)"

definition layout_bwd :: "DeclusteredLayout \<Rightarrow> nat \<times> nat \<rightharpoonup> db_key" where
  "layout_bwd d x = rev_by_reg d (fst x) (snd x)"

interpretation layout: placement layout_wf layout_fwd layout_bwd
proof
  show "layout_fwd d k = Some x \<longleftrightarrow> layout_bwd d x = Some k" if wf: "layout_wf d" for d k x
  proof -
    obtain b ps where "layout_inv b ps" "virt_map d = lb_map b" "rev_by_reg d = lb_rev b"
      using wf by (auto simp: layout_wf_def)
    then show ?thesis
      using layout_inv_rev [of b ps "fst x" "snd x" k] by (auto simp: layout_fwd_def layout_bwd_def)
  qed
qed

lemma layout_mk_wf:
  assumes "DeclusteredLayout_mk cfg id_freq = Inr d" "distinct (map fst id_freq)" "length id_freq \<le> 65536"
  shows "layout_wf d" "dom (virt_map d) = fst ` set id_freq"
proof -
  note inv = layout_placed_inv [OF assms(2,3)]
  have d: "virt_map d = lb_map (layout_placed id_freq)" "rev_by_reg d = lb_rev (layout_placed id_freq)"
    using assms(1) by (auto simp: DeclusteredLayout_mk_def res_elims)
  with inv show "layout_wf d" unfolding layout_wf_def by blast
  show "dom (virt_map d) = fst ` set id_freq" using inv d unfolding layout_inv_def by simp
qed

section \<open>Lookups\<close>

lemma get_location_known:
  assumes "virt_map d k = Some loc"
  shows "get_location cfg d k =
    ((unat (reg_array_idx loc) < SLOTS_PER_SCHED_BLOCK cfg,
      loc\<lparr>reg_array_idx := word_of_nat (SLOTS_PER_SCHED_BLOCK cfg * block_num d + unat (reg_array_idx loc))\<rparr>), d)"
  using assms by (simp add: get_location_def emplace_def)

lemma rev_lookup_slot:
  assumes "reg_id < N_REGS" "SLOTS_PER_SCHED_BLOCK cfg * block_num d + i < 2 ^ 64"
  shows "rev_lookup cfg d reg_id (SLOTS_PER_SCHED_BLOCK cfg * block_num d + i) = Inr (rev_by_reg d reg_id i)"
  using assms by (simp add: rev_lookup_def Let_def unat_of_nat)


lemma argmin_replicate [simp]: "0 < n \<Longrightarrow> argmin_scan (replicate n c) = 0"
  using argmin_scan_first [of 0 "replicate n c"] argmin_scan_less [of "replicate n c"] by fastforce

lemma foldl_place_keeps: "lb_map b k = Some loc \<Longrightarrow> lb_map (foldl layout_place b qs) k = Some loc"
proof (induction qs arbitrary: b)
  case (Cons q qs)
  have "lb_map (layout_place b (fst q, snd q)) k = Some loc"
    using Cons.prems by (simp only: layout_place_sel) (auto simp: emplace_def)
  with Cons.IH show ?case by simp
qed simp

text \<open>The key of the greatest frequency is the first of register 0.\<close>

lemma layout_hottest:
  "layout_order id_freq = (k, f) # ps \<Longrightarrow>
   lb_map (layout_placed id_freq) k =
     Some \<lparr>reg_array_id = 0, reg_array_idx = 0, dist_freq = f, lock_pos = NO_LOCK\<rparr>"
proof -
  assume o: "layout_order id_freq = (k, f) # ps"
  have "lb_map (layout_place layout_start (k, f)) k =
      Some \<lparr>reg_array_id = 0, reg_array_idx = 0, dist_freq = f, lock_pos = NO_LOCK\<rparr>"
    by (simp add: layout_place_sel emplace_def place_loc_def Let_def layout_start_def N_REGS_def)
  from foldl_place_keeps [OF this] show ?thesis by (simp add: layout_placed_def o)
qed

definition layout_demo_cfg :: build_cfg where
  "layout_demo_cfg = default_build\<lparr>SLOTS_PER_SCHED_BLOCK := 1\<rparr>"

definition layout_demo_freq :: "(db_key \<times> nat) list" where
  "layout_demo_freq = map (\<lambda>i. (i, i)) [0..<73]"

lemma layout_demo_order: "layout_order layout_demo_freq = (72, 72) # rev (map (\<lambda>i. (i, i)) [0..<72])"
proof -
  have "sort_key (\<lambda>(k, f). (f, k)) layout_demo_freq = layout_demo_freq"
    by (rule sort_key_id_if_sorted) (simp add: layout_demo_freq_def comp_def sorted_iff_nth_mono)
  moreover have "[0..<73] = [0..<72] @ [72 :: nat]" by (simp flip: upt_Suc_append)
  ultimately show ?thesis by (simp add: layout_order_def) (simp add: layout_demo_freq_def)
qed


section \<open>Load balance\<close>

text \<open>The total frequency of the keys a map places in a register.\<close>

definition reg_load :: "(db_key \<rightharpoonup> TupleLocation) \<Rightarrow> (db_key \<times> nat) list \<Rightarrow> nat \<Rightarrow> nat" where
  "reg_load mp ps r =
     (\<Sum>p\<leftarrow>ps. if map_option (\<lambda>loc. unat (reg_array_id loc)) (mp (fst p)) = Some r then snd p else 0)"

definition weights_ok :: "layout_build \<Rightarrow> (db_key \<times> nat) list \<Rightarrow> nat \<Rightarrow> bool" where
  "weights_ok b ps M \<longleftrightarrow> (\<forall>r < N_REGS. weight b ! r = reg_load (lb_map b) ps r) \<and>
     (\<forall>r < N_REGS. \<forall>r' < N_REGS. weight b ! r \<le> weight b ! r' + M)"

lemma reg_load_cong:
  "(\<And>p. p \<in> set ps \<Longrightarrow> mp (fst p) = mp' (fst p)) \<Longrightarrow> reg_load mp ps r = reg_load mp' ps r"
  unfolding reg_load_def by (rule arg_cong [of _ _ sum_list]) simp

lemma reg_load_le: "reg_load mp ps r \<le> sum_list (map snd ps)"
  unfolding reg_load_def by (rule sum_list_mono) simp

lemma place_weights:
  assumes "layout_inv b ps" "weights_ok b ps M" "k \<notin> fst ` set ps" "length ps < 65536" "f \<le> M"
    and small: "sum_list (map snd (ps @ [(k, f)])) < 2 ^ 64"
  shows "weights_ok (layout_place b (k, f)) (ps @ [(k, f)]) M"
proof -
  let ?r = "argmin_scan (weight b)"
  have lw: "length (weight b) = N_REGS" and dom: "lb_map b k = None"
    using assms(1,3) unfolding layout_inv_def by blast+
  note reg = place_loc_sel(1) [OF assms(1,4), of f] place_loc_sel(4) [OF assms(1,4)]
  have mp: "lb_map (layout_place b (k, f)) = (lb_map b)(k \<mapsto> place_loc b f)"
    using dom by (simp add: layout_place_sel emplace_def)
  have old: "reg_load (lb_map (layout_place b (k, f))) ps r = reg_load (lb_map b) ps r" for r
    by (rule reg_load_cong) (use assms(3) in \<open>auto simp: mp\<close>)
  have least: "weight b ! ?r \<le> weight b ! r" if "r < N_REGS" for r
    using argmin_scan_least [of r "weight b"] that lw by simp
  have new: "reg_load (lb_map (layout_place b (k, f))) (ps @ [(k, f)]) r =
      reg_load (lb_map b) ps r + (if r = ?r then f else 0)" for r
    using old reg(1) by (simp add: reg_load_def mp)
  have w': "weight (layout_place b (k, f)) ! r = weight b ! r + (if r = ?r then f else 0)" if "r < N_REGS" for r
  proof -
    have "weight b ! ?r + f < 2 ^ 64"
      using assms(2) reg(2) reg_load_le [of "lb_map b" ps ?r] small unfolding weights_ok_def by simp
    then show ?thesis using that lw by (simp add: layout_place_sel(4) nth_list_update size_add_def)
  qed
  show ?thesis
    unfolding weights_ok_def
  proof (intro conjI allI impI)
    show "weight (layout_place b (k, f)) ! r = reg_load (lb_map (layout_place b (k, f))) (ps @ [(k, f)]) r"
      if "r < N_REGS" for r
      using that assms(2) by (simp add: new w' weights_ok_def)
    show "weight (layout_place b (k, f)) ! r \<le> weight (layout_place b (k, f)) ! r' + M"
      if r: "r < N_REGS" "r' < N_REGS" for r r'
    proof -
      have "weight b ! r \<le> weight b ! r' + M" using assms(2) r unfolding weights_ok_def by blast
      with least [OF r(2)] assms(5) show ?thesis by (simp add: w' [OF r(1)] w' [OF r(2)])
    qed
  qed
qed

lemma foldl_place_weights:
  assumes "layout_inv b ps" "weights_ok b ps M" "distinct (map fst (ps @ qs))" "length (ps @ qs) \<le> 65536"
    "sorted_wrt (\<lambda>x y. snd y \<le> snd x) (ps @ qs)" "\<forall>p \<in> set qs. snd p \<le> M" "sum_list (map snd (ps @ qs)) < 2 ^ 64"
  shows "weights_ok (foldl layout_place b qs) (ps @ qs) M"
  using assms
proof (induction qs arbitrary: b ps)
  case (Cons q qs)
  have "layout_inv (layout_place b (fst q, snd q)) (ps @ [(fst q, snd q)])"
    by (rule layout_place_inv) (use Cons.prems in \<open>auto simp: sorted_wrt_append\<close>)
  moreover have "weights_ok (layout_place b (fst q, snd q)) (ps @ [(fst q, snd q)]) M"
    by (rule place_weights) (use Cons.prems in simp_all)
  ultimately show ?case using Cons.IH [of "layout_place b q" "ps @ [q]"] Cons.prems by simp
qed simp

text \<open>
  C38. Load balance. As long as the frequencies of all keys together fit into a \<open>size_t\<close>, so that no sum of the constructor
  wraps around, the registers of a layout carry almost the same total frequency: two of
  them differ by at most the greatest frequency of a key.
\<close>

theorem layout_balanced:
  assumes "DeclusteredLayout_mk cfg id_freq = Inr d" "distinct (map fst id_freq)" "length id_freq \<le> 65536"
    and "\<And>k f. (k, f) \<in> set id_freq \<Longrightarrow> f \<le> M" "r < N_REGS" "r' < N_REGS"
    and "sum_list (map snd id_freq) < 2 ^ 64"
  shows "reg_load (virt_map d) id_freq r \<le> reg_load (virt_map d) id_freq r' + M"
proof -
  have "mset (map fst (layout_order id_freq)) = mset (map fst id_freq)" by simp
  with assms(2) have dst: "distinct (map fst (layout_order id_freq))" by (metis mset_eq_imp_distinct_iff)
  have "weights_ok layout_start [] M" by (simp add: weights_ok_def layout_start_def reg_load_def)
  moreover have "\<forall>p \<in> set id_freq. snd p \<le> M" using assms(4) by fastforce
  moreover have "sum_list (map snd (layout_order id_freq)) = sum_list (map snd id_freq)"
    by (simp only: mset_map layout_order_mset flip: sum_mset_sum_list)
  ultimately have "weights_ok (layout_placed id_freq) (layout_order id_freq) M"
    using foldl_place_weights [OF layout_inv_start, of M "layout_order id_freq"] dst assms(3,7) layout_order_sorted
    by (simp add: layout_placed_def)
  moreover have "virt_map d = lb_map (layout_placed id_freq)"
    using assms(1) by (auto simp: DeclusteredLayout_mk_def res_elims)
  moreover have "reg_load mp (layout_order id_freq) r = reg_load mp id_freq r" for mp r
    unfolding reg_load_def by (simp only: mset_map layout_order_mset flip: sum_mset_sum_list)
  ultimately show ?thesis using assms(5,6) unfolding weights_ok_def by auto
qed

lemma layout_demo_mk:
  obtains d where "DeclusteredLayout_mk layout_demo_cfg layout_demo_freq = Inr d"
  by (simp add: DeclusteredLayout_mk_def at_res_def N_ACCEL_KEYS_def N_REGS_def layout_demo_cfg_def
      default_build_def) (simp add: layout_demo_freq_def)

theorem layout_balanced_witness:
  "\<exists>d. DeclusteredLayout_mk layout_demo_cfg layout_demo_freq = Inr d \<and> sum_list (map snd layout_demo_freq) < 2 ^ 64 \<and>
     reg_load (virt_map d) layout_demo_freq 3 \<le> reg_load (virt_map d) layout_demo_freq 70 + 72"
proof -
  obtain d where d: "DeclusteredLayout_mk layout_demo_cfg layout_demo_freq = Inr d" by (rule layout_demo_mk)
  have "sum_list (map snd layout_demo_freq) \<le> sum_list (map (\<lambda>_. 73) layout_demo_freq)"
    by (rule sum_list_mono) (auto simp: layout_demo_freq_def)
  also have "\<dots> = 73 * 73" by (simp add: layout_demo_freq_def comp_def sum_list_triv)
  finally have small: "sum_list (map snd layout_demo_freq) < 2 ^ 64" by simp
  have "reg_load (virt_map d) layout_demo_freq 3 \<le> reg_load (virt_map d) layout_demo_freq 70 + 72"
    by (rule layout_balanced [OF d _ _ _ _ _ small]) (auto simp: layout_demo_freq_def comp_def N_REGS_def)
  with d small show ?thesis by blast
qed



end
