(* ===== verification/P4_Txn.thy ===== *)
theory P4_Txn
  imports P4_Table P4_Layout
begin

text \<open>
  Transactions (\<open>ee/args.hpp\<close>) and their split into switch operations and host operations
  (\<open>ee/hot_cold.cpp\<close>).
\<close>

section \<open>Transactions\<close>

record OP =
  op_id :: db_key
  loc_info :: LocationInfo
  op_mode :: AccessMode
  op_value :: u32

type_synonym hot_op = "OP \<times> TupleLocation"

record Txn =
  cold_ops :: "OP list"
  hot_ops_pass1 :: "hot_op list"
  hot_ops_pass2 :: "hot_op list"
  init_done :: bool
  do_accel :: bool
  txn_aborts :: nat
  hottest_cold_i1 :: "nat option"
  hottest_cold_i2 :: "nat option"
  locks_check :: u32
  locks_acquire :: u32
  txn_id :: TxnId
  loader_id :: nat

definition OP_zero :: OP where
  "OP_zero = \<lparr>op_id = 0, loc_info = \<lparr>is_local = False, target = 0\<rparr>, op_mode = INVALID, op_value = 0\<rparr>"

text \<open>
  A transaction as the loader makes it: the default constructor (the pairs of the hot arrays
  are value-initialised, hence of mode \<open>INVALID\<close>), then every cold operation assigned.
\<close>

definition Txn_mk :: "nat \<Rightarrow> OP list \<Rightarrow> Txn" where
  "Txn_mk lid ops = \<lparr>cold_ops = ops, hot_ops_pass1 = replicate N_OPS (OP_zero, TupleLocation_zero),
     hot_ops_pass2 = replicate MAX_OPS_PASS2_ACCEL (OP_zero, TupleLocation_zero), init_done = False,
     do_accel = False, txn_aborts = 0, hottest_cold_i1 = None, hottest_cold_i2 = None,
     locks_check = 0, locks_acquire = 0, txn_id = TxnId_default, loader_id = lid\<rparr>"

text \<open>The operations of an array up to its terminator.\<close>

definition live_ops :: "OP list \<Rightarrow> OP list" where
  "live_ops ops = takeWhile (\<lambda>op. op_mode op \<noteq> INVALID) ops"

definition live_hot :: "hot_op list \<Rightarrow> hot_op list" where
  "live_hot hs = takeWhile (\<lambda>h. op_mode (fst h) \<noteq> INVALID) hs"

section \<open>The split\<close>

text \<open>
  The locals of \<open>extract_hot_cold\<close>. A \<open>size_t\<close> that is not initialised is \<open>None\<close>; so is an
  entry of \<open>hot_reorder_buf\<close>. The bit sets are sets of positions.
\<close>

record hc_state =
  hc_txn :: Txn
  hc_layout :: DeclusteredLayout
  cold1_i :: "nat option"
  cold2_i :: "nat option"
  cold1_v :: nat
  cold2_v :: nat
  hot_p1 :: nat
  hot_p2 :: nat
  cold_p :: nat
  reg_usage :: "nat set"
  reg_usage_2 :: "nat set"
  hot_reorder_buf :: "nat \<rightharpoonup> nat"
  n_pass2_ops :: nat

definition bitset_check :: "nat \<Rightarrow> nat \<Rightarrow> unit result" where
  "bitset_check n pos = (if pos < n then ok () else fail OutOfBounds)"

definition store_res :: "'a list \<Rightarrow> nat \<Rightarrow> 'a \<Rightarrow> 'a list result" where
  "store_res xs i x = (if i < length xs then ok (xs[i := x]) else fail OutOfBounds)"

definition lock_set :: "u32 \<Rightarrow> u8 \<Rightarrow> u32 result" where
  "lock_set locks pos =
     (if pos = NO_LOCK then ok locks
      else bind_res (bitset_check N_SW_LOCKS (unat pos)) (\<lambda>_. ok (set_bit (unat pos) locks)))"

text \<open>The branches of the loop body.\<close>

definition hc_pass1 :: "build_cfg \<Rightarrow> hc_state \<Rightarrow> OP \<Rightarrow> TupleLocation \<Rightarrow> hc_state result" where
  "hc_pass1 cfg s op loc =
     (let reg = unat (reg_array_id loc);
          s = s\<lparr>reg_usage := insert reg (reg_usage s)\<rparr>;
          s = (if MAX_PASSES_ACCEL cfg > 1 then s\<lparr>hot_reorder_buf := (hot_reorder_buf s)(reg \<mapsto> hot_p1 s)\<rparr> else s) in
      bind_res (store_res (hot_ops_pass1 (hc_txn s)) (hot_p1 s) (op, loc)) (\<lambda>h1.
      bind_res (lock_set (locks_check (hc_txn s)) (lock_pos loc)) (\<lambda>lc.
        ok (s\<lparr>hot_p1 := hot_p1 s + 1, hc_txn := (hc_txn s)\<lparr>hot_ops_pass1 := h1, locks_check := lc\<rparr>\<rparr>))))"

definition hc_pass2 :: "hc_state \<Rightarrow> OP \<Rightarrow> TupleLocation \<Rightarrow> hc_state result" where
  "hc_pass2 s op loc =
     (let reg = unat (reg_array_id loc);
          s = s\<lparr>reg_usage_2 := insert reg (reg_usage_2 s), n_pass2_ops := n_pass2_ops s + 1\<rparr> in
      case hot_reorder_buf s reg of
        None \<Rightarrow> fail OutOfBounds
      | Some swap_idx \<Rightarrow>
          bind_res (at_res (hot_ops_pass1 (hc_txn s)) swap_idx) (\<lambda>old.
          bind_res
            (if total_order_gt (dist_freq (snd old)) (op_id (fst old)) (dist_freq loc) (op_id op)
             then bind_res (store_res (hot_ops_pass2 (hc_txn s)) (hot_p2 s) (op, loc)) (\<lambda>h2.
                    ok (hot_ops_pass1 (hc_txn s), h2))
             else bind_res (store_res (hot_ops_pass2 (hc_txn s)) (hot_p2 s) old) (\<lambda>h2.
                    ok ((hot_ops_pass1 (hc_txn s))[swap_idx := (op, loc)], h2))) (\<lambda>(h1, h2).
          bind_res (lock_set (locks_check (hc_txn s)) (lock_pos loc)) (\<lambda>lc.
          bind_res (lock_set (locks_acquire (hc_txn s)) (lock_pos loc)) (\<lambda>la.
            ok (s\<lparr>hot_p2 := hot_p2 s + 1,
                  hc_txn := (hc_txn s)\<lparr>hot_ops_pass1 := h1, hot_ops_pass2 := h2, locks_check := lc,
                                       locks_acquire := la\<rparr>\<rparr>))))))"

definition hc_give_up :: "hc_state \<Rightarrow> OP \<Rightarrow> TupleLocation \<Rightarrow> hc_state result" where
  "hc_give_up s op loc =
     bind_res (store_res (hot_ops_pass1 (hc_txn s)) (hot_p1 s) (op, loc)) (\<lambda>h1.
       ok (s\<lparr>hot_p1 := hot_p1 s + 1, hc_txn := (hc_txn s)\<lparr>do_accel := False, hot_ops_pass1 := h1\<rparr>\<rparr>))"

definition hc_track :: "hc_state \<Rightarrow> TupleLocation \<Rightarrow> hc_state" where
  "hc_track s loc =
     (if dist_freq loc > cold1_v s then s\<lparr>cold1_i := Some (cold_p s), cold1_v := dist_freq loc\<rparr>
      else if dist_freq loc > cold2_v s then s\<lparr>cold2_i := Some (cold_p s), cold2_v := dist_freq loc\<rparr>
      else s)"

definition hc_cold :: "hc_state \<Rightarrow> OP \<Rightarrow> TupleLocation \<Rightarrow> hc_state result" where
  "hc_cold s op loc =
     (let s = hc_track s loc in
      bind_res (store_res (cold_ops (hc_txn s)) (cold_p s) op) (\<lambda>c.
        ok (s\<lparr>cold_p := cold_p s + 1, hc_txn := (hc_txn s)\<lparr>cold_ops := c\<rparr>\<rparr>)))"

definition hc_step :: "build_cfg \<Rightarrow> PartitionInfo \<Rightarrow> nat \<Rightarrow> hc_state \<Rightarrow> hc_state result" where
  "hc_step cfg pinfo i s =
     bind_res (at_res (cold_ops (hc_txn s)) i) (\<lambda>op.
     bind_res (location pinfo (op_id op)) (\<lambda>li.
     let op = op\<lparr>loc_info := li\<rparr>;
         ((hot, loc), d) = get_location cfg (hc_layout s) (op_id op);
         s = s\<lparr>hc_txn := (hc_txn s)\<lparr>cold_ops := (cold_ops (hc_txn s))[i := op]\<rparr>, hc_layout := d\<rparr>;
         reg = unat (reg_array_id loc) in
     if hot then
       bind_res (bitset_check N_REGS reg) (\<lambda>_.
       if reg \<notin> reg_usage s then hc_pass1 cfg s op loc
       else if ORIG_MODE cfg then ok s
       else if MAX_PASSES_ACCEL cfg = 2 \<and> reg \<notin> reg_usage_2 s \<and> n_pass2_ops s < MAX_OPS_PASS2_ACCEL
       then hc_pass2 s op loc
       else hc_give_up s op loc)
     else hc_cold s op loc))"

primrec hc_loop :: "build_cfg \<Rightarrow> PartitionInfo \<Rightarrow> nat \<Rightarrow> hc_state \<Rightarrow> hc_state result" where
  "hc_loop cfg pinfo 0 s = ok s"
| "hc_loop cfg pinfo (Suc n) s =
     (let i = N_OPS - Suc n in
      bind_res (at_res (cold_ops (hc_txn s)) i) (\<lambda>op.
        if op_mode op \<noteq> INVALID then bind_res (hc_step cfg pinfo i s) (hc_loop cfg pinfo n) else ok s))"

text \<open>After the loop: put everything back, or terminate the arrays.\<close>

primrec copy_back :: "OP list \<Rightarrow> nat \<Rightarrow> OP list \<Rightarrow> OP list result" where
  "copy_back c pos [] = ok c"
| "copy_back c pos (op # ops) = bind_res (store_res c pos op) (\<lambda>c. copy_back c (pos + 1) ops)"

definition op_invalidate :: "OP list \<Rightarrow> nat \<Rightarrow> OP list" where
  "op_invalidate ops i = ops[i := (ops ! i)\<lparr>op_mode := INVALID\<rparr>]"

definition hot_invalidate :: "hot_op list \<Rightarrow> nat \<Rightarrow> hot_op list" where
  "hot_invalidate hs i = hs[i := ((fst (hs ! i))\<lparr>op_mode := INVALID\<rparr>, snd (hs ! i))]"

definition hc_restore :: "hc_state \<Rightarrow> Txn result" where
  "hc_restore s =
     (let t = hc_txn s in
      bind_res (copy_back (cold_ops t) (cold_p s) (map fst (take (hot_p1 s) (hot_ops_pass1 t)))) (\<lambda>c.
      bind_res (copy_back c (cold_p s + hot_p1 s) (map fst (take (hot_p2 s) (hot_ops_pass2 t)))) (\<lambda>c.
        ok (t\<lparr>cold_ops := c, hot_ops_pass1 := hot_invalidate (hot_ops_pass1 t) 0,
             hot_ops_pass2 := hot_invalidate (hot_ops_pass2 t) 0\<rparr>))))"

definition hc_finish :: "build_cfg \<Rightarrow> hc_state \<Rightarrow> Txn result" where
  "hc_finish cfg s =
     (let t = hc_txn s;
          t = (if cold_p s < N_OPS then t\<lparr>cold_ops := op_invalidate (cold_ops t) (cold_p s)\<rparr> else t);
          t = (if hot_p1 s < N_OPS then t\<lparr>hot_ops_pass1 := hot_invalidate (hot_ops_pass1 t) (hot_p1 s)\<rparr> else t);
          t = (if MAX_PASSES_ACCEL cfg = 2 \<and> hot_p2 s < MAX_OPS_PASS2_ACCEL
               then t\<lparr>hot_ops_pass2 := hot_invalidate (hot_ops_pass2 t) (hot_p2 s)\<rparr> else t);
          t = (if cold1_v s > 0 then t\<lparr>hottest_cold_i1 := cold1_i s\<rparr> else t);
          t = (if cold2_v s > 0 then t\<lparr>hottest_cold_i2 := cold2_i s\<rparr> else t) in
      bind_res (assert_res (ORIG_MODE cfg \<or> cold_p s + hot_p1 s + hot_p2 s = N_OPS)) (\<lambda>_. ok t))"

definition hc_start :: "Txn \<Rightarrow> DeclusteredLayout \<Rightarrow> hc_state" where
  "hc_start t d = \<lparr>hc_txn = t\<lparr>do_accel := True\<rparr>, hc_layout = d, cold1_i = None, cold2_i = None,
     cold1_v = 0, cold2_v = 0, hot_p1 = 0, hot_p2 = 0, cold_p = 0, reg_usage = {}, reg_usage_2 = {},
     hot_reorder_buf = Map.empty, n_pass2_ops = 0\<rparr>"

definition extract_hot_cold ::
  "build_cfg \<Rightarrow> StructTable \<Rightarrow> Txn \<Rightarrow> DeclusteredLayout \<Rightarrow> (Txn \<times> DeclusteredLayout) result" where
  "extract_hot_cold cfg tbl txn d =
     bind_res (hc_loop cfg (part_info tbl) N_OPS (hc_start txn d)) (\<lambda>s.
     bind_res (if \<not> do_accel (hc_txn s) then hc_restore s else hc_finish cfg s) (\<lambda>t.
       ok (t\<lparr>init_done := True\<rparr>, hc_layout s)))"

section \<open>Correctness of the split\<close>

text \<open>
  What a layout says of a key: whether it is accelerated, and where. The insertions of
  \<open>get_location\<close> do not change that.
\<close>

definition is_hot :: "build_cfg \<Rightarrow> DeclusteredLayout \<Rightarrow> db_key \<Rightarrow> bool" where
  "is_hot cfg d k = fst (fst (get_location cfg d k))"

definition loc_of :: "build_cfg \<Rightarrow> DeclusteredLayout \<Rightarrow> db_key \<Rightarrow> TupleLocation" where
  "loc_of cfg d k = snd (fst (get_location cfg d k))"

definition layout_regs :: "DeclusteredLayout \<Rightarrow> bool" where
  "layout_regs d \<longleftrightarrow> (\<forall>k loc. virt_map d k = Some loc \<longrightarrow> unat (reg_array_id loc) < N_REGS \<and>
     (lock_pos loc = NO_LOCK \<or> unat (lock_pos loc) < N_SW_LOCKS))"

lemma layout_wf_regs: "layout_wf d \<Longrightarrow> layout_regs d"
  unfolding layout_wf_def layout_regs_def
  using layout_inv_loc(1,4) by (metis (full_types))

lemma get_location_split: "get_location cfg d k = ((is_hot cfg d k, loc_of cfg d k), snd (get_location cfg d k))"
  by (simp add: is_hot_def loc_of_def)

lemma get_location_keeps:
  "is_hot cfg (snd (get_location cfg d k)) k' = is_hot cfg d k'"
  "loc_of cfg (snd (get_location cfg d k)) k' = loc_of cfg d k'"
  by (auto simp: is_hot_def loc_of_def get_location_def Let_def emplace_def split: option.splits)

lemma get_location_regs: "layout_regs d \<Longrightarrow> layout_regs (snd (get_location cfg d k))"
  by (auto simp: layout_regs_def get_location_def Let_def emplace_def TupleLocation_zero_def N_REGS_def
      N_SW_LOCKS_def split: if_splits)

lemma loc_of_regs:
  "layout_regs d \<Longrightarrow> unat (reg_array_id (loc_of cfg d k)) < N_REGS \<and>
     (lock_pos (loc_of cfg d k) = NO_LOCK \<or> unat (lock_pos (loc_of cfg d k)) < N_SW_LOCKS)"
  by (auto simp: layout_regs_def loc_of_def get_location_def Let_def TupleLocation_zero_def N_REGS_def
      N_SW_LOCKS_def split: option.splits)

lemma lock_set_ok:
  assumes "pos = NO_LOCK \<or> unat pos < N_SW_LOCKS"
  obtains l' where "lock_set l pos = Inr l'" "\<And>n. bit l n \<Longrightarrow> bit l' n" "pos \<noteq> NO_LOCK \<Longrightarrow> bit l' (unat pos)"
  using assms
  by (cases "pos = NO_LOCK")
    (auto simp: lock_set_def bitset_check_def bit_simps N_SW_LOCKS_def)

lemma store_res_ok [simp]: "i < length xs \<Longrightarrow> store_res xs i x = Inr (xs[i := x])"
  by (simp add: store_res_def)

text \<open>An operation with its location filled in.\<close>

definition op_fill :: "PartitionInfo \<Rightarrow> OP \<Rightarrow> OP" where
  "op_fill p op = op\<lparr>loc_info := projr (location p (op_id op))\<rparr>"

lemma location_fill:
  "partition_size p \<noteq> 0 \<Longrightarrow> location p k = Inr (projr (location p k))"
  by (simp add: location_def Let_def)

abbreviation hot_reg :: "hot_op \<Rightarrow> nat" where
  "hot_reg h \<equiv> unat (reg_array_id (snd h))"

text \<open>
  The operations distributed so far, as lists, and what holds of them: \<open>split_ok\<close> says where
  the operations \<open>seen\<close> went, \<open>regs_ok\<close> that \<open>hot_reorder_buf\<close> finds the first-pass operation
  of a register in use, \<open>accel_ok\<close> that while the transaction is accelerated its first pass
  uses every register once and its locks are recorded.
\<close>

definition split_ok ::
  "build_cfg \<Rightarrow> DeclusteredLayout \<Rightarrow> OP list \<Rightarrow> OP list \<Rightarrow> hot_op list \<Rightarrow> hot_op list \<Rightarrow> bool" where
  "split_ok cfg d seen cold h1 h2 \<longleftrightarrow>
     cold = filter (\<lambda>op. \<not> is_hot cfg d (op_id op)) seen \<and>
     mset (map fst h1) + mset (map fst h2) = mset (filter (\<lambda>op. is_hot cfg d (op_id op)) seen) \<and>
     (\<forall>h \<in> set h1 \<union> set h2. snd h = loc_of cfg d (op_id (fst h)))"

definition regs_ok :: "(nat \<rightharpoonup> nat) \<Rightarrow> nat set \<Rightarrow> hot_op list \<Rightarrow> bool" where
  "regs_ok buf used h1 \<longleftrightarrow> (\<forall>r \<in> used. \<exists>i. buf r = Some i \<and> i < length h1 \<and> hot_reg (h1 ! i) = r)"

definition accel_ok :: "nat set \<Rightarrow> u32 \<Rightarrow> hot_op list \<Rightarrow> hot_op list \<Rightarrow> bool" where
  "accel_ok used locks h1 h2 \<longleftrightarrow> distinct (map hot_reg h1) \<and> set (map hot_reg h1) = used \<and>
     (\<forall>h \<in> set h1 \<union> set h2. lock_pos (snd h) \<noteq> NO_LOCK \<longrightarrow> bit locks (unat (lock_pos (snd h))))"

lemma split_ok_cold:
  "split_ok cfg d seen cold h1 h2 \<Longrightarrow> \<not> is_hot cfg d (op_id op) \<Longrightarrow> split_ok cfg d (seen @ [op]) (cold @ [op]) h1 h2"
  by (simp add: split_ok_def)

lemma split_ok_hot:
  assumes "split_ok cfg d seen cold h1 h2" "is_hot cfg d (op_id op)" "loc = loc_of cfg d (op_id op)"
  shows "split_ok cfg d (seen @ [op]) cold (h1 @ [(op, loc)]) h2"
    "split_ok cfg d (seen @ [op]) cold h1 (h2 @ [(op, loc)])"
  using assms by (auto simp: split_ok_def)

lemma split_ok_swap:
  assumes "split_ok cfg d seen cold h1 h2" "is_hot cfg d (op_id op)" "loc = loc_of cfg d (op_id op)" "j < length h1"
  shows "split_ok cfg d (seen @ [op]) cold (h1[j := (op, loc)]) (h2 @ [h1 ! j])"
proof -
  have "h1 ! j \<in># mset h1" using assms(4) by simp
  then have "mset (h1[j := (op, loc)]) + {#h1 ! j#} = add_mset (op, loc) (mset h1)"
    using assms(4) by (simp add: mset_update)
  then have "image_mset fst (mset (h1[j := (op, loc)])) + {#fst (h1 ! j)#} = add_mset op (image_mset fst (mset h1))"
    by (metis fst_conv image_mset_add_mset image_mset_single image_mset_union)
  then have ms: "mset (map fst (h1[j := (op, loc)])) + mset (map fst (h2 @ [h1 ! j])) =
      add_mset op (mset (map fst h1) + mset (map fst h2))" by simp
  have "snd h = loc_of cfg d (op_id (fst h))" if "h \<in> set (h1[j := (op, loc)]) \<union> set (h2 @ [h1 ! j])" for h
    using that assms set_update_subset_insert [of h1 j "(op, loc)"] nth_mem [OF assms(4)]
    unfolding split_ok_def by auto
  then show ?thesis
    unfolding split_ok_def ms using assms(1,2) unfolding split_ok_def by (intro conjI) simp_all
qed

lemma regs_ok_app: "regs_ok buf used h1 \<Longrightarrow> regs_ok buf used (h1 @ [x])"
  unfolding regs_ok_def by (metis length_append_singleton less_SucI nth_append)

lemma regs_ok_new:
  "regs_ok buf used h1 \<Longrightarrow> hot_reg x = r \<Longrightarrow> regs_ok (buf(r \<mapsto> length h1)) (insert r used) (h1 @ [x])"
  using regs_ok_app [of buf used h1 x] by (simp add: regs_ok_def)

lemma regs_ok_swap: "regs_ok buf used h1 \<Longrightarrow> hot_reg x = hot_reg (h1 ! j) \<Longrightarrow> regs_ok buf used (h1[j := x])"
  unfolding regs_ok_def by (metis length_list_update nth_list_update_eq nth_list_update_neq)

lemma accel_ok_app:
  assumes "accel_ok used locks h1 h2" "\<And>n. bit locks n \<Longrightarrow> bit locks' n"
    "lock_pos (snd x) \<noteq> NO_LOCK \<Longrightarrow> bit locks' (unat (lock_pos (snd x)))"
  shows "hot_reg x \<notin> used \<Longrightarrow> accel_ok (insert (hot_reg x) used) locks' (h1 @ [x]) h2"
    "accel_ok used locks' h1 (h2 @ [x])"
  using assms by (auto simp: accel_ok_def)

lemma accel_ok_swap:
  assumes "accel_ok used locks h1 h2" "\<And>n. bit locks n \<Longrightarrow> bit locks' n"
    "lock_pos (snd x) \<noteq> NO_LOCK \<Longrightarrow> bit locks' (unat (lock_pos (snd x)))" "j < length h1" "hot_reg x = hot_reg (h1 ! j)"
  shows "accel_ok used locks' (h1[j := x]) (h2 @ [h1 ! j])"
proof -
  have "map hot_reg (h1[j := x]) = (map hot_reg h1)[j := map hot_reg h1 ! j]"
    using assms(4,5) by (simp add: map_update)
  then have "map hot_reg (h1[j := x]) = map hot_reg h1" by simp
  then have "distinct (map hot_reg (h1[j := x]))" "set (map hot_reg (h1[j := x])) = used"
    using assms(1) by (simp_all add: accel_ok_def del: set_map)
  moreover have "set (h1[j := x]) \<subseteq> insert x (set h1)" by (rule set_update_subset_insert)
  ultimately show ?thesis
    using assms(1-3) nth_mem [OF assms(4)] by (auto simp: accel_ok_def simp del: set_map)
qed

text \<open>
  The loop invariant for the builds other than \<open>IS_ORIG_MODE\<close>: the first \<open>i\<close> of the operations
  \<open>ops\<close> have been distributed, those from \<open>j\<close> on are untouched.
\<close>

definition hc_h1 :: "hc_state \<Rightarrow> hot_op list" where
  "hc_h1 s = take (hot_p1 s) (hot_ops_pass1 (hc_txn s))"

definition hc_h2 :: "hc_state \<Rightarrow> hot_op list" where
  "hc_h2 s = take (hot_p2 s) (hot_ops_pass2 (hc_txn s))"

definition hc_cs :: "hc_state \<Rightarrow> OP list" where
  "hc_cs s = take (cold_p s) (cold_ops (hc_txn s))"

definition hc_shape :: "OP list \<Rightarrow> nat \<Rightarrow> nat \<Rightarrow> hc_state \<Rightarrow> bool" where
  "hc_shape ops i j s \<longleftrightarrow>
     length (cold_ops (hc_txn s)) = N_OPS \<and> length (hot_ops_pass1 (hc_txn s)) = N_OPS \<and>
     length (hot_ops_pass2 (hc_txn s)) = MAX_OPS_PASS2_ACCEL \<and>
     cold_p s + hot_p1 s + hot_p2 s = i \<and> i \<le> j \<and> j \<le> N_OPS \<and> drop j (cold_ops (hc_txn s)) = drop j ops \<and>
     n_pass2_ops s = hot_p2 s"

definition hc_lay :: "build_cfg \<Rightarrow> DeclusteredLayout \<Rightarrow> hc_state \<Rightarrow> bool" where
  "hc_lay cfg d s \<longleftrightarrow> layout_regs (hc_layout s) \<and>
     (\<forall>k. is_hot cfg (hc_layout s) k = is_hot cfg d k \<and> loc_of cfg (hc_layout s) k = loc_of cfg d k)"

text \<open>The position tracked first is that of a cold operation of the greatest frequency.\<close>

abbreviation op_freq :: "build_cfg \<Rightarrow> DeclusteredLayout \<Rightarrow> OP \<Rightarrow> nat" where
  "op_freq cfg d op \<equiv> dist_freq (loc_of cfg d (op_id op))"

definition hot_max :: "build_cfg \<Rightarrow> DeclusteredLayout \<Rightarrow> OP list \<Rightarrow> nat \<Rightarrow> nat option \<Rightarrow> bool" where
  "hot_max cfg d cs v i \<longleftrightarrow> (\<forall>op \<in> set cs. op_freq cfg d op \<le> v) \<and>
     (v > 0 \<longrightarrow> (\<exists>j. i = Some j \<and> j < length cs \<and> op_freq cfg d (cs ! j) = v))"

lemma hot_max_app:
  "hot_max cfg d cs v i \<Longrightarrow> op_freq cfg d op = f \<Longrightarrow> f > v \<Longrightarrow> hot_max cfg d (cs @ [op]) f (Some (length cs))"
  "hot_max cfg d cs v i \<Longrightarrow> op_freq cfg d op \<le> v \<Longrightarrow> hot_max cfg d (cs @ [op]) v i"
  unfolding hot_max_def by (auto simp: nth_append)

text \<open>The registers in use are those of the hot operations seen, and the split only gives up on a
  transaction that needs a register twice.\<close>

definition op_regs :: "build_cfg \<Rightarrow> DeclusteredLayout \<Rightarrow> OP list \<Rightarrow> nat list" where
  "op_regs cfg d ops = map (\<lambda>op. unat (reg_array_id (loc_of cfg d (op_id op)))) (filter (\<lambda>op. is_hot cfg d (op_id op)) ops)"

definition conf_ok :: "nat list \<Rightarrow> nat set \<Rightarrow> bool \<Rightarrow> bool" where
  "conf_ok regs used acc \<longleftrightarrow> used = set regs \<and> (\<not> acc \<longrightarrow> \<not> distinct regs)"

lemma op_regs_app: "op_regs cfg d (xs @ [op]) = op_regs cfg d xs @
    (if is_hot cfg d (op_id op) then [unat (reg_array_id (loc_of cfg d (op_id op)))] else [])"
  by (simp add: op_regs_def)

lemma conf_ok_app:
  "conf_ok regs used acc \<Longrightarrow> conf_ok (regs @ [r]) (insert r used) acc"
  "conf_ok regs used acc \<Longrightarrow> r \<in> used \<Longrightarrow> conf_ok (regs @ [r]) used acc'"
  by (auto simp: conf_ok_def)

definition hc_inv ::
  "build_cfg \<Rightarrow> DeclusteredLayout \<Rightarrow> PartitionInfo \<Rightarrow> OP list \<Rightarrow> nat \<Rightarrow> nat \<Rightarrow> hc_state \<Rightarrow> bool" where
  "hc_inv cfg d p ops i j s \<longleftrightarrow> hc_shape ops i j s \<and>
     split_ok cfg d (map (op_fill p) (take i ops)) (hc_cs s) (hc_h1 s) (hc_h2 s) \<and>
     (MAX_PASSES_ACCEL cfg > 1 \<longrightarrow> regs_ok (hot_reorder_buf s) (reg_usage s) (hc_h1 s)) \<and>
     (do_accel (hc_txn s) \<longrightarrow> accel_ok (reg_usage s) (locks_check (hc_txn s)) (hc_h1 s) (hc_h2 s)) \<and>
     hc_lay cfg d s \<and> (MAX_PASSES_ACCEL cfg \<noteq> 2 \<longrightarrow> hot_p2 s = 0 \<and> live_hot (hot_ops_pass2 (hc_txn s)) = []) \<and>
     hot_max cfg d (hc_cs s) (cold1_v s) (cold1_i s) \<and>
     conf_ok (op_regs cfg d (map (op_fill p) (take i ops))) (reg_usage s) (do_accel (hc_txn s))"

lemma hc_inv_start:
  assumes "length (cold_ops t) = N_OPS" "length (hot_ops_pass1 t) = N_OPS"
    "length (hot_ops_pass2 t) = MAX_OPS_PASS2_ACCEL" "live_hot (hot_ops_pass2 t) = []" "layout_regs d"
  shows "hc_inv cfg d p (cold_ops t) 0 0 (hc_start t d)"
  using assms by (simp add: hc_inv_def hc_start_def hc_shape_def split_ok_def regs_ok_def accel_ok_def
      hc_lay_def hc_h1_def hc_h2_def hc_cs_def hot_max_def
      conf_ok_def op_regs_def)

lemma seen_Suc:
  "length ops = N_OPS \<Longrightarrow> i < N_OPS \<Longrightarrow>
   map (op_fill p) (take (Suc i) ops) = map (op_fill p) (take i ops) @ [op_fill p (ops ! i)]"
  by (simp add: take_Suc_conv_app_nth)

lemma op_fill_sel [simp]: "op_id (op_fill p op) = op_id op" "op_mode (op_fill p op) = op_mode op"
  "op_value (op_fill p op) = op_value op"
  by (simp_all add: op_fill_def)

lemma hc_track_sel [simp]:
  "hc_txn (hc_track s loc) = hc_txn s" "hc_layout (hc_track s loc) = hc_layout s"
  "cold_p (hc_track s loc) = cold_p s" "hot_p1 (hc_track s loc) = hot_p1 s" "hot_p2 (hc_track s loc) = hot_p2 s"
  "reg_usage (hc_track s loc) = reg_usage s" "hot_reorder_buf (hc_track s loc) = hot_reorder_buf s"
  "n_pass2_ops (hc_track s loc) = n_pass2_ops s"
  by (simp_all add: hc_track_def)

lemma hc_shape_room:
  assumes "hc_shape ops i (Suc i) s"
  shows "cold_p s < length (cold_ops (hc_txn s))" "hot_p1 s < length (hot_ops_pass1 (hc_txn s))"
    "hot_p2 s < length (hot_ops_pass2 (hc_txn s))" "cold_p s < Suc i"
  using assms by (auto simp: hc_shape_def N_OPS_def MAX_OPS_PASS2_ACCEL_def)

lemma hc_cold_inv:
  assumes inv: "hc_inv cfg d p ops i (Suc i) s" and ops: "length ops = N_OPS" "i < N_OPS"
    and cold: "\<not> is_hot cfg d (op_id (ops ! i))" "loc = loc_of cfg d (op_id (ops ! i))"
  obtains s' where "hc_cold s (op_fill p (ops ! i)) loc = Inr s'" "hc_inv cfg d p ops (Suc i) (Suc i) s'"
proof -
  let ?op = "op_fill p (ops ! i)"
  let ?s = "(hc_track s loc)\<lparr>cold_p := cold_p s + 1,
      hc_txn := (hc_txn s)\<lparr>cold_ops := (cold_ops (hc_txn s))[cold_p s := ?op]\<rparr>\<rparr>"
  have sh: "hc_shape ops i (Suc i) s" using inv by (simp add: hc_inv_def)
  note room = hc_shape_room [OF sh]
  have "hc_cold s ?op loc = Inr ?s" using room by (simp add: hc_cold_def Let_def)
  moreover have "hc_inv cfg d p ops (Suc i) (Suc i) ?s"
  proof -
    have "hc_cs ?s = hc_cs s @ [?op]" "hc_h1 ?s = hc_h1 s" "hc_h2 ?s = hc_h2 s"
      using room by (simp_all add: hc_cs_def hc_h1_def hc_h2_def take_Suc_update)
    moreover have "hc_shape ops (Suc i) (Suc i) ?s"
      using sh room by (simp add: hc_shape_def drop_update_cancel)
    moreover have "hc_lay cfg d ?s" using inv by (simp add: hc_inv_def hc_lay_def)
    moreover have "split_ok cfg d (map (op_fill p) (take (Suc i) ops)) (hc_cs s @ [?op]) (hc_h1 s) (hc_h2 s)"
      unfolding seen_Suc [OF ops] using inv cold by (simp add: hc_inv_def split_ok_cold)
    moreover have "hot_max cfg d (hc_cs s @ [?op]) (cold1_v ?s) (cold1_i ?s)"
    proof -
      have mx: "hot_max cfg d (hc_cs s) (cold1_v s) (cold1_i s)" using inv by (simp add: hc_inv_def)
      have "length (hc_cs s) = cold_p s" using room by (simp add: hc_cs_def)
      then show ?thesis
        using hot_max_app [OF mx, of ?op] cold(2) by (auto simp: hc_track_def not_less)
    qed
    moreover have "conf_ok (op_regs cfg d (map (op_fill p) (take (Suc i) ops))) (reg_usage s) (do_accel (hc_txn s))"
      unfolding seen_Suc [OF ops] op_regs_app using inv cold(1) by (simp add: hc_inv_def)
    ultimately show ?thesis using inv by (simp add: hc_inv_def)
  qed
  ultimately show thesis by (rule that)
qed

lemma hc_loc:
  assumes "hc_lay cfg d s"
  shows "unat (reg_array_id (loc_of cfg d k)) < N_REGS"
    and "lock_pos (loc_of cfg d k) = NO_LOCK \<or> unat (lock_pos (loc_of cfg d k)) < N_SW_LOCKS"
  using loc_of_regs [of "hc_layout s" cfg k] assms by (simp_all add: hc_lay_def)

lemma hc_pass1_inv:
  assumes inv: "hc_inv cfg d p ops i (Suc i) s" and ops: "length ops = N_OPS" "i < N_OPS"
    and hot: "is_hot cfg d (op_id (ops ! i))" "loc = loc_of cfg d (op_id (ops ! i))"
    and new: "unat (reg_array_id loc) \<notin> reg_usage s"
  obtains s' where "hc_pass1 cfg s (op_fill p (ops ! i)) loc = Inr s'" "hc_inv cfg d p ops (Suc i) (Suc i) s'"
proof -
  let ?op = "op_fill p (ops ! i)" and ?reg = "unat (reg_array_id loc)" and ?t = "hc_txn s"
  have sh: "hc_shape ops i (Suc i) s" and lay: "hc_lay cfg d s" using inv by (simp_all add: hc_inv_def)
  obtain lc where lc: "lock_set (locks_check ?t) (lock_pos loc) = Inr lc"
    "\<And>n. bit (locks_check ?t) n \<Longrightarrow> bit lc n" "lock_pos loc \<noteq> NO_LOCK \<Longrightarrow> bit lc (unat (lock_pos loc))"
    using lock_set_ok [of "lock_pos loc" "locks_check ?t"] hc_loc(2) [OF lay] hot(2) by metis
  let ?s = "s\<lparr>reg_usage := insert ?reg (reg_usage s),
       hot_reorder_buf := (if MAX_PASSES_ACCEL cfg > 1 then (hot_reorder_buf s)(?reg \<mapsto> hot_p1 s) else hot_reorder_buf s),
       hot_p1 := hot_p1 s + 1,
       hc_txn := ?t\<lparr>hot_ops_pass1 := (hot_ops_pass1 ?t)[hot_p1 s := (?op, loc)], locks_check := lc\<rparr>\<rparr>"
  note room = hc_shape_room [OF sh]
  have "hc_pass1 cfg s ?op loc = Inr ?s" using room lc(1) by (simp add: hc_pass1_def Let_def)
  moreover have "hc_inv cfg d p ops (Suc i) (Suc i) ?s"
  proof -
    have len: "hot_p1 s = length (hc_h1 s)" using room by (simp add: hc_h1_def)
    have v: "hc_cs ?s = hc_cs s" "hc_h1 ?s = hc_h1 s @ [(?op, loc)]" "hc_h2 ?s = hc_h2 s"
      using room by (simp_all add: hc_cs_def hc_h1_def hc_h2_def take_Suc_update)
    moreover have "hc_shape ops (Suc i) (Suc i) ?s" using sh by (simp add: hc_shape_def)
    moreover have "hc_lay cfg d ?s" using lay by (simp add: hc_lay_def)
    moreover have "split_ok cfg d (map (op_fill p) (take (Suc i) ops)) (hc_cs s) (hc_h1 s @ [(?op, loc)]) (hc_h2 s)"
      unfolding seen_Suc [OF ops] using inv hot by (simp add: hc_inv_def split_ok_hot)
    moreover have "regs_ok ((hot_reorder_buf s)(?reg \<mapsto> hot_p1 s)) (insert ?reg (reg_usage s)) (hc_h1 s @ [(?op, loc)])"
      if "MAX_PASSES_ACCEL cfg > 1"
      unfolding len by (rule regs_ok_new) (use inv that in \<open>simp_all add: hc_inv_def\<close>)
    moreover have "accel_ok (insert ?reg (reg_usage s)) lc (hc_h1 s @ [(?op, loc)]) (hc_h2 s)" if "do_accel ?t"
      using accel_ok_app(1) [of "reg_usage s" "locks_check ?t" "hc_h1 s" "hc_h2 s" lc "(?op, loc)"] lc(2,3) new inv that
      by (simp add: hc_inv_def)
    moreover have "conf_ok (op_regs cfg d (map (op_fill p) (take (Suc i) ops))) (insert ?reg (reg_usage s)) (do_accel ?t)"
      unfolding seen_Suc [OF ops] op_regs_app using inv hot conf_ok_app(1) by (simp add: hc_inv_def)
    ultimately show ?thesis
      using inv by (cases "MAX_PASSES_ACCEL cfg > 1"; cases "do_accel ?t") (simp_all add: hc_inv_def)
  qed
  ultimately show thesis by (rule that)
qed

lemma hc_give_up_inv:
  assumes inv: "hc_inv cfg d p ops i (Suc i) s" and ops: "length ops = N_OPS" "i < N_OPS"
    and hot: "is_hot cfg d (op_id (ops ! i))" "loc = loc_of cfg d (op_id (ops ! i))"
    and old: "unat (reg_array_id loc) \<in> reg_usage s"
  obtains s' where "hc_give_up s (op_fill p (ops ! i)) loc = Inr s'" "hc_inv cfg d p ops (Suc i) (Suc i) s'"
proof -
  let ?op = "op_fill p (ops ! i)" and ?t = "hc_txn s"
  have sh: "hc_shape ops i (Suc i) s" and lay: "hc_lay cfg d s" using inv by (simp_all add: hc_inv_def)
  let ?s = "s\<lparr>hot_p1 := hot_p1 s + 1,
     hc_txn := ?t\<lparr>do_accel := False, hot_ops_pass1 := (hot_ops_pass1 ?t)[hot_p1 s := (?op, loc)]\<rparr>\<rparr>"
  note room = hc_shape_room [OF sh]
  have "hc_give_up s ?op loc = Inr ?s" using room by (simp add: hc_give_up_def)
  moreover have "hc_inv cfg d p ops (Suc i) (Suc i) ?s"
  proof -
    have "hc_cs ?s = hc_cs s" "hc_h1 ?s = hc_h1 s @ [(?op, loc)]" "hc_h2 ?s = hc_h2 s"
      using room by (simp_all add: hc_cs_def hc_h1_def hc_h2_def take_Suc_update)
    moreover have "hc_shape ops (Suc i) (Suc i) ?s" using sh by (simp add: hc_shape_def)
    moreover have "hc_lay cfg d ?s" using lay by (simp add: hc_lay_def)
    moreover have "split_ok cfg d (map (op_fill p) (take (Suc i) ops)) (hc_cs s) (hc_h1 s @ [(?op, loc)]) (hc_h2 s)"
      unfolding seen_Suc [OF ops] using inv hot by (simp add: hc_inv_def split_ok_hot)
    moreover have "conf_ok (op_regs cfg d (map (op_fill p) (take (Suc i) ops))) (reg_usage s) False"
      unfolding seen_Suc [OF ops] op_regs_app
      using inv hot old conf_ok_app(2) [of _ "reg_usage s" "do_accel ?t"] by (simp add: hc_inv_def)
    ultimately show ?thesis using inv by (simp add: hc_inv_def regs_ok_app)
  qed
  ultimately show thesis by (rule that)
qed

lemma hc_pass2_inv:
  assumes inv: "hc_inv cfg d p ops i (Suc i) s" and ops: "length ops = N_OPS" "i < N_OPS"
    and hot: "is_hot cfg d (op_id (ops ! i))" "loc = loc_of cfg d (op_id (ops ! i))"
    and old: "unat (reg_array_id loc) \<in> reg_usage s" "MAX_PASSES_ACCEL cfg = 2"
  obtains s' where "hc_pass2 s (op_fill p (ops ! i)) loc = Inr s'" "hc_inv cfg d p ops (Suc i) (Suc i) s'"
proof -
  let ?op = "op_fill p (ops ! i)" and ?reg = "unat (reg_array_id loc)" and ?t = "hc_txn s"
  have sh: "hc_shape ops i (Suc i) s" and lay: "hc_lay cfg d s" and ro: "regs_ok (hot_reorder_buf s) (reg_usage s) (hc_h1 s)"
    and sp: "split_ok cfg d (map (op_fill p) (take i ops)) (hc_cs s) (hc_h1 s) (hc_h2 s)"
    using inv old(2) by (simp_all add: hc_inv_def)
  note room = hc_shape_room [OF sh] and lk = hc_loc(2) [OF lay, of "op_id (ops ! i)", folded hot(2)]
  obtain lc where lc: "lock_set (locks_check ?t) (lock_pos loc) = Inr lc"
    "\<And>n. bit (locks_check ?t) n \<Longrightarrow> bit lc n" "lock_pos loc \<noteq> NO_LOCK \<Longrightarrow> bit lc (unat (lock_pos loc))"
    using lock_set_ok [OF lk, of "locks_check ?t"] by metis
  obtain la where la: "lock_set (locks_acquire ?t) (lock_pos loc) = Inr la"
    using lock_set_ok [OF lk, of "locks_acquire ?t"] by metis
  obtain j where j: "hot_reorder_buf s ?reg = Some j" "j < hot_p1 s" "hot_reg (hc_h1 s ! j) = ?reg"
    using ro old(1) unfolding regs_ok_def by (auto simp: hc_h1_def)
  let ?old = "hot_ops_pass1 ?t ! j"
  have jl: "j < length (hc_h1 s)" "hc_h1 s ! j = ?old" "j < length (hot_ops_pass1 ?t)"
    using j(2) room by (simp_all add: hc_h1_def)
  define sw where "sw = (\<not> total_order_gt (dist_freq (snd ?old)) (op_id (fst ?old)) (dist_freq loc) (op_id ?op))"
  let ?s = "s\<lparr>reg_usage_2 := insert ?reg (reg_usage_2 s), n_pass2_ops := n_pass2_ops s + 1, hot_p2 := hot_p2 s + 1,
     hc_txn := ?t\<lparr>hot_ops_pass1 := (if sw then (hot_ops_pass1 ?t)[j := (?op, loc)] else hot_ops_pass1 ?t),
       hot_ops_pass2 := (hot_ops_pass2 ?t)[hot_p2 s := (if sw then ?old else (?op, loc))],
       locks_check := lc, locks_acquire := la\<rparr>\<rparr>"
  have "hc_pass2 s ?op loc = Inr ?s"
    using room j(1) jl(3) lc(1) la by (simp add: hc_pass2_def Let_def at_res_def sw_def)
  moreover have "hc_inv cfg d p ops (Suc i) (Suc i) ?s"
  proof -
    have v1: "hc_cs ?s = hc_cs s" "hc_h1 ?s = (if sw then (hc_h1 s)[j := (?op, loc)] else hc_h1 s)"
      by (simp_all add: hc_cs_def hc_h1_def take_update_swap)
    have v2: "hc_h2 ?s = hc_h2 s @ [if sw then ?old else (?op, loc)]"
      using room by (simp add: hc_h2_def take_Suc_update)
    note v = v1 v2
    have "hc_shape ops (Suc i) (Suc i) ?s" using sh by (simp add: hc_shape_def)
    moreover have "hc_lay cfg d ?s" using lay by (simp add: hc_lay_def)
    moreover have "split_ok cfg d (map (op_fill p) (take (Suc i) ops)) (hc_cs ?s) (hc_h1 ?s) (hc_h2 ?s)"
      unfolding seen_Suc [OF ops] v
      using split_ok_hot(2) [OF sp, of ?op loc] split_ok_swap [OF sp, of ?op loc j] hot jl by simp
    moreover have "regs_ok (hot_reorder_buf s) (reg_usage s) (hc_h1 ?s)"
      unfolding v using regs_ok_swap [OF ro, of "(?op, loc)" j] ro j(3) by simp
    moreover have "accel_ok (reg_usage s) lc (hc_h1 ?s) (hc_h2 ?s)" if "do_accel ?t"
    proof -
      have a: "accel_ok (reg_usage s) (locks_check ?t) (hc_h1 s) (hc_h2 s)" using inv that by (simp add: hc_inv_def)
      show ?thesis
        unfolding v
        using accel_ok_app(2) [OF a, of lc "(?op, loc)"] accel_ok_swap [OF a, of lc "(?op, loc)" j] lc(2,3) jl j(3)
        by simp
    qed
    moreover have "hot_max cfg d (hc_cs ?s) (cold1_v ?s) (cold1_i ?s)" using inv v1(1) by (simp add: hc_inv_def)
    moreover have "conf_ok (op_regs cfg d (map (op_fill p) (take (Suc i) ops))) (reg_usage s) (do_accel ?t)"
      unfolding seen_Suc [OF ops] op_regs_app
      using inv hot old(1) conf_ok_app(2) [of _ "reg_usage s" "do_accel ?t"] by (simp add: hc_inv_def)
    ultimately show ?thesis using old(2) unfolding hc_inv_def by simp
  qed
  ultimately show thesis by (rule that)
qed

lemma hc_step_inv:
  assumes inv: "hc_inv cfg d p ops i i s" and ops: "length ops = N_OPS" "i < N_OPS"
    and p: "partition_size p \<noteq> 0" and o: "\<not> ORIG_MODE cfg"
  obtains s' where "hc_step cfg p i s = Inr s'" "hc_inv cfg d p ops (Suc i) (Suc i) s'"
proof -
  let ?op = "op_fill p (ops ! i)" and ?k = "op_id (ops ! i)" and ?t = "hc_txn s"
  let ?loc = "loc_of cfg d ?k"
  define d' where "d' = snd (get_location cfg (hc_layout s) ?k)"
  let ?s = "s\<lparr>hc_txn := ?t\<lparr>cold_ops := (cold_ops ?t)[i := ?op]\<rparr>, hc_layout := d'\<rparr>"
  have sh: "hc_shape ops i i s" and lay: "hc_lay cfg d s" using inv by (simp_all add: hc_inv_def)
  have len: "length (cold_ops ?t) = N_OPS" and dr: "drop i (cold_ops ?t) = drop i ops"
    using sh by (simp_all add: hc_shape_def)
  have at: "cold_ops ?t ! i = ops ! i"
    using dr len ops by (metis Cons_nth_drop_Suc list.inject)
  have mid: "hc_inv cfg d p ops i (Suc i) ?s"
  proof -
    have "drop (Suc i) (cold_ops ?t) = drop (Suc i) ops"
      using arg_cong [OF dr, of tl] by (simp add: tl_drop drop_Suc)
    then have "hc_shape ops i (Suc i) ?s"
      using sh ops by (simp add: hc_shape_def drop_update_cancel)
    moreover have "hc_lay cfg d ?s" using lay by (simp add: hc_lay_def d'_def get_location_keeps get_location_regs)
    moreover have "hc_cs ?s = hc_cs s" "hc_h1 ?s = hc_h1 s" "hc_h2 ?s = hc_h2 s"
      using sh by (simp_all add: hc_cs_def hc_h1_def hc_h2_def hc_shape_def)
    ultimately show ?thesis using inv by (simp add: hc_inv_def)
  qed
  obtain li where li: "location p ?k = Inr li" using location_fill [OF p] by blast
  have g: "get_location cfg (hc_layout s) ?k = ((is_hot cfg d ?k, ?loc), d')"
    using lay get_location_split [of cfg "hc_layout s" ?k] by (simp add: hc_lay_def d'_def)
  have step: "hc_step cfg p i s =
     (if is_hot cfg d ?k then
        (if unat (reg_array_id ?loc) \<notin> reg_usage s then hc_pass1 cfg ?s ?op ?loc
         else if MAX_PASSES_ACCEL cfg = 2 \<and> unat (reg_array_id ?loc) \<notin> reg_usage_2 s \<and> n_pass2_ops s < MAX_OPS_PASS2_ACCEL
         then hc_pass2 ?s ?op ?loc else hc_give_up ?s ?op ?loc)
      else hc_cold ?s ?op ?loc)"
    using ops len hc_loc(1) [OF lay, of ?k] o
    by (simp add: hc_step_def at_res_def at g li Let_def op_fill_def bitset_check_def)
  have "\<exists>s'. hc_step cfg p i s = Inr s' \<and> hc_inv cfg d p ops (Suc i) (Suc i) s'"
  proof (cases "is_hot cfg d ?k")
    case False
    obtain s' where "hc_cold ?s ?op ?loc = Inr s'" "hc_inv cfg d p ops (Suc i) (Suc i) s'"
      using hc_cold_inv [OF mid ops False refl] .
    with False step show ?thesis by simp
  next
    case hot: True
    show ?thesis
    proof (cases "unat (reg_array_id ?loc) \<notin> reg_usage s")
      case True
      have u: "unat (reg_array_id ?loc) \<notin> reg_usage ?s" using True by simp
      obtain s' where "hc_pass1 cfg ?s ?op ?loc = Inr s'" "hc_inv cfg d p ops (Suc i) (Suc i) s'"
        using hc_pass1_inv [OF mid ops hot refl u] .
      with hot True step show ?thesis by simp
    next
      case used: False
      show ?thesis
      proof (cases "MAX_PASSES_ACCEL cfg = 2 \<and> unat (reg_array_id ?loc) \<notin> reg_usage_2 s \<and> n_pass2_ops s < MAX_OPS_PASS2_ACCEL")
        case True
        have u: "unat (reg_array_id ?loc) \<in> reg_usage ?s" using used by simp
        obtain s' where "hc_pass2 ?s ?op ?loc = Inr s'" "hc_inv cfg d p ops (Suc i) (Suc i) s'"
          by (rule hc_pass2_inv [OF mid ops hot refl u]) (use True in blast)
        with hot used True step show ?thesis by simp
      next
        case False
        have u: "unat (reg_array_id ?loc) \<in> reg_usage ?s" using used by simp
        obtain s' where "hc_give_up ?s ?op ?loc = Inr s'" "hc_inv cfg d p ops (Suc i) (Suc i) s'"
          using hc_give_up_inv [OF mid ops hot refl u] .
        with hot used False step show ?thesis by auto
      qed
    qed
  qed
  then show thesis using that by blast
qed

lemma hc_loop_inv:
  assumes "hc_inv cfg d p ops (N_OPS - n) (N_OPS - n) s" "n \<le> N_OPS" "length ops = N_OPS"
    "partition_size p \<noteq> 0" "\<not> ORIG_MODE cfg" "\<forall>op \<in> set ops. op_mode op \<noteq> INVALID"
  shows "\<exists>s'. hc_loop cfg p n s = Inr s' \<and> hc_inv cfg d p ops N_OPS N_OPS s'"
  using assms
proof (induction n arbitrary: s)
  case (Suc n)
  let ?i = "N_OPS - Suc n"
  have i: "?i < N_OPS" "Suc ?i = N_OPS - n" using Suc.prems(2) by simp_all
  have sh: "length (cold_ops (hc_txn s)) = N_OPS" "drop ?i (cold_ops (hc_txn s)) = drop ?i ops"
    using Suc.prems(1) by (simp_all add: hc_inv_def hc_shape_def)
  have "cold_ops (hc_txn s) ! ?i = ops ! ?i"
    using sh i(1) Suc.prems(3) by (metis Cons_nth_drop_Suc list.inject)
  then have at: "at_res (cold_ops (hc_txn s)) ?i = Inr (ops ! ?i)" using i(1) sh(1) by simp
  have md: "op_mode (ops ! ?i) \<noteq> INVALID" using Suc.prems(3,6) i(1) by simp
  obtain s1 where s1: "hc_step cfg p ?i s = Inr s1" "hc_inv cfg d p ops (Suc ?i) (Suc ?i) s1"
    using hc_step_inv [OF Suc.prems(1,3) i(1) Suc.prems(4,5)] .
  have "hc_inv cfg d p ops (N_OPS - n) (N_OPS - n) s1" using s1(2) by (simp only: i(2))
  then have "\<exists>s'. hc_loop cfg p n s1 = Inr s' \<and> hc_inv cfg d p ops N_OPS N_OPS s'"
    using Suc.IH Suc.prems(2-6) Suc_leD by blast
  then show ?case using s1(1) md by (simp add: at del: at_res_Inr)
qed simp

lemma copy_back_ok:
  "pos + length xs \<le> length c \<Longrightarrow>
   copy_back c pos xs = Inr (take pos c @ xs @ drop (pos + length xs) c)"
proof (induction xs arbitrary: c pos)
  case (Cons x xs)
  then show ?case
    by (simp add: take_Suc_update drop_update_cancel)
qed simp

lemma takeWhile_invalid:
  assumes "n < length xs" "\<forall>x \<in> set (take n xs). P x" "\<not> P y"
  shows "takeWhile P (xs[n := y]) = take n xs"
proof -
  have "xs[n := y] = take n xs @ y # drop (Suc n) xs" using assms(1) by (simp add: upd_conv_take_nth_drop)
  with assms(2,3) show ?thesis by (simp add: takeWhile_append2)
qed

lemma takeWhile_all: "\<forall>x \<in> set xs. P x \<Longrightarrow> takeWhile P xs = xs"
  by (simp add: takeWhile_eq_all_conv)

lemma split_ok_modes:
  assumes "split_ok cfg d seen cold h1 h2" "\<forall>op \<in> set seen. op_mode op \<noteq> INVALID"
  shows "\<forall>op \<in> set cold. op_mode op \<noteq> INVALID" "\<forall>h \<in> set h1 \<union> set h2. op_mode (fst h) \<noteq> INVALID"
proof -
  show "\<forall>op \<in> set cold. op_mode op \<noteq> INVALID" using assms by (auto simp: split_ok_def)
  have "set_mset (mset (map fst h1) + mset (map fst h2)) \<subseteq> set seen"
    using assms(1) unfolding split_ok_def by (metis (no_types) filter_is_subset set_mset_mset)
  with assms(2) show "\<forall>h \<in> set h1 \<union> set h2. op_mode (fst h) \<noteq> INVALID" by auto
qed

lemma split_ok_mset:
  "split_ok cfg d seen cold h1 h2 \<Longrightarrow> mset cold + (mset (map fst h1) + mset (map fst h2)) = mset seen"
  unfolding split_ok_def by (metis add.commute multiset_partition mset_filter)

text \<open>The two ways out of the loop.\<close>

lemma hc_restore_ok:
  assumes inv: "hc_inv cfg d p ops N_OPS N_OPS s" and ops: "length ops = N_OPS" "\<forall>op \<in> set ops. op_mode op \<noteq> INVALID"
  obtains t where "hc_restore s = Inr t" "do_accel t = do_accel (hc_txn s)" "live_hot (hot_ops_pass1 t) = []"
    "live_hot (hot_ops_pass2 t) = []" "mset (cold_ops t) = mset (map (op_fill p) ops)" "live_ops (cold_ops t) = cold_ops t"
    "length (cold_ops t) = N_OPS"
proof -
  let ?t = "hc_txn s"
  have sh: "hc_shape ops N_OPS N_OPS s" and sp: "split_ok cfg d (map (op_fill p) ops) (hc_cs s) (hc_h1 s) (hc_h2 s)"
    using inv ops(1) by (simp_all add: hc_inv_def)
  have len: "length (map fst (hc_h1 s)) = hot_p1 s" "length (map fst (hc_h2 s)) = hot_p2 s"
    and lc: "length (cold_ops ?t) = N_OPS" and sum: "cold_p s + hot_p1 s + hot_p2 s = N_OPS"
    and ne: "hot_ops_pass1 ?t \<noteq> []" "hot_ops_pass2 ?t \<noteq> []"
    using sh by (auto simp: hc_shape_def hc_h1_def hc_h2_def N_OPS_def MAX_OPS_PASS2_ACCEL_def)
  let ?c = "hc_cs s @ map fst (hc_h1 s) @ map fst (hc_h2 s)"
  let ?r = "?t\<lparr>cold_ops := ?c, hot_ops_pass1 := hot_invalidate (hot_ops_pass1 ?t) 0,
      hot_ops_pass2 := hot_invalidate (hot_ops_pass2 ?t) 0\<rparr>"
  have 1: "copy_back (cold_ops ?t) (cold_p s) (map fst (hc_h1 s)) =
      Inr (hc_cs s @ map fst (hc_h1 s) @ drop (cold_p s + hot_p1 s) (cold_ops ?t))"
    using copy_back_ok [of "cold_p s" "map fst (hc_h1 s)" "cold_ops ?t"] len(1) lc sum by (simp add: hc_cs_def)
  have "copy_back (hc_cs s @ map fst (hc_h1 s) @ drop (cold_p s + hot_p1 s) (cold_ops ?t))
      (cold_p s + hot_p1 s) (map fst (hc_h2 s)) = Inr ?c"
    using copy_back_ok [of "cold_p s + hot_p1 s" "map fst (hc_h2 s)"
        "hc_cs s @ map fst (hc_h1 s) @ drop (cold_p s + hot_p1 s) (cold_ops ?t)"] len lc sum
    by (simp add: hc_cs_def)
  with 1 have "hc_restore s = Inr ?r" by (simp add: hc_restore_def Let_def flip: hc_h1_def hc_h2_def)
  moreover have "live_hot (hot_ops_pass1 ?r) = []" "live_hot (hot_ops_pass2 ?r) = []"
    using ne by (cases "hot_ops_pass1 ?t"; cases "hot_ops_pass2 ?t"; simp add: live_hot_def hot_invalidate_def)+
  moreover have "mset (cold_ops ?r) = mset (map (op_fill p) ops)" using split_ok_mset [OF sp] by simp
  moreover have "live_ops (cold_ops ?r) = cold_ops ?r"
    unfolding live_ops_def by (rule takeWhile_all) (use split_ok_modes [OF sp] ops(2) in auto)
  moreover have "length (cold_ops ?r) = N_OPS" using sum lc len by (simp add: hc_cs_def)
  ultimately show thesis using that by simp
qed

lemma live_ops_terminated:
  "n \<le> length xs \<Longrightarrow> \<forall>op \<in> set (take n xs). op_mode op \<noteq> INVALID \<Longrightarrow>
   live_ops (if n < length xs then op_invalidate xs n else xs) = take n xs"
  by (auto simp: live_ops_def op_invalidate_def takeWhile_invalid takeWhile_all)

lemma live_hot_terminated:
  "n \<le> length xs \<Longrightarrow> \<forall>h \<in> set (take n xs). op_mode (fst h) \<noteq> INVALID \<Longrightarrow>
   live_hot (if n < length xs then hot_invalidate xs n else xs) = take n xs"
  by (auto simp: live_hot_def hot_invalidate_def takeWhile_invalid takeWhile_all)

lemma hc_finish_ok:
  assumes inv: "hc_inv cfg d p ops N_OPS N_OPS s" and ops: "length ops = N_OPS" "\<forall>op \<in> set ops. op_mode op \<noteq> INVALID"
  obtains t where "hc_finish cfg s = Inr t" "do_accel t = do_accel (hc_txn s)" "live_hot (hot_ops_pass1 t) = hc_h1 s"
    "live_hot (hot_ops_pass2 t) = hc_h2 s" "live_ops (cold_ops t) = hc_cs s" "locks_check t = locks_check (hc_txn s)"
    "length (cold_ops t) = N_OPS"
proof -
  let ?t = "hc_txn s"
  have sh: "hc_shape ops N_OPS N_OPS s" and sp: "split_ok cfg d (map (op_fill p) ops) (hc_cs s) (hc_h1 s) (hc_h2 s)"
    and p2: "MAX_PASSES_ACCEL cfg \<noteq> 2 \<Longrightarrow> hot_p2 s = 0 \<and> live_hot (hot_ops_pass2 ?t) = []"
    using inv ops(1) by (simp_all add: hc_inv_def)
  have sum: "cold_p s + hot_p1 s + hot_p2 s = N_OPS" and len: "length (cold_ops ?t) = N_OPS"
    "length (hot_ops_pass1 ?t) = N_OPS" "length (hot_ops_pass2 ?t) = MAX_OPS_PASS2_ACCEL"
    using sh by (simp_all add: hc_shape_def)
  note md = split_ok_modes [OF sp, unfolded hc_cs_def hc_h1_def hc_h2_def]
  have v: "\<forall>op \<in> set (map (op_fill p) ops). op_mode op \<noteq> INVALID" using ops(2) by simp
  let ?c = "if cold_p s < N_OPS then op_invalidate (cold_ops ?t) (cold_p s) else cold_ops ?t"
  let ?h1 = "if hot_p1 s < N_OPS then hot_invalidate (hot_ops_pass1 ?t) (hot_p1 s) else hot_ops_pass1 ?t"
  let ?h2 = "if MAX_PASSES_ACCEL cfg = 2 \<and> hot_p2 s < MAX_OPS_PASS2_ACCEL
     then hot_invalidate (hot_ops_pass2 ?t) (hot_p2 s) else hot_ops_pass2 ?t"
  let ?r = "?t\<lparr>cold_ops := ?c, hot_ops_pass1 := ?h1, hot_ops_pass2 := ?h2,
     hottest_cold_i1 := (if cold1_v s > 0 then cold1_i s else hottest_cold_i1 ?t),
     hottest_cold_i2 := (if cold2_v s > 0 then cold2_i s else hottest_cold_i2 ?t)\<rparr>"
  have "hc_finish cfg s = Inr ?r" using sum by (simp add: hc_finish_def Let_def)
  moreover have "live_ops (cold_ops ?r) = hc_cs s"
    using live_ops_terminated [of "cold_p s" "cold_ops ?t"] md(1) [OF v] len(1) sum by (simp add: hc_cs_def)
  moreover have "live_hot (hot_ops_pass1 ?r) = hc_h1 s"
    using live_hot_terminated [of "hot_p1 s" "hot_ops_pass1 ?t"] md(2) [OF v] len(2) sum by (simp add: hc_h1_def)
  moreover have "live_hot (hot_ops_pass2 ?r) = hc_h2 s"
  proof (cases "MAX_PASSES_ACCEL cfg = 2")
    case True
    have "hot_p2 s \<le> length (hot_ops_pass2 ?t)" using len(3) sum by (simp add: N_OPS_def MAX_OPS_PASS2_ACCEL_def)
    with True live_hot_terminated [of "hot_p2 s" "hot_ops_pass2 ?t"] md(2) [OF v] len(3) show ?thesis
      by (simp add: hc_h2_def)
  qed (use p2 in \<open>simp add: hc_h2_def\<close>)
  moreover have "length (cold_ops ?r) = N_OPS" using len(1) by (simp add: op_invalidate_def)
  ultimately show thesis using that by simp
qed

text \<open>The hottest cold keys are cold operations, and the split leaves the other fields alone.\<close>

definition hc_idx :: "hc_state \<Rightarrow> bool" where
  "hc_idx s \<longleftrightarrow> (\<forall>j. cold1_i s = Some j \<longrightarrow> j < cold_p s) \<and> (\<forall>j. cold2_i s = Some j \<longrightarrow> j < cold_p s)"

definition hc_frame :: "Txn \<Rightarrow> Txn \<Rightarrow> bool" where
  "hc_frame t t' \<longleftrightarrow> loader_id t' = loader_id t \<and> hottest_cold_i1 t' = hottest_cold_i1 t \<and>
     hottest_cold_i2 t' = hottest_cold_i2 t \<and> txn_aborts t' = txn_aborts t"

lemma hc_branches_keep:
  "hc_pass1 cfg s op loc = Inr s' \<Longrightarrow> hc_frame (hc_txn s) (hc_txn s') \<and> (hc_idx s \<longrightarrow> hc_idx s')"
  "hc_pass2 s op loc = Inr s' \<Longrightarrow> hc_frame (hc_txn s) (hc_txn s') \<and> (hc_idx s \<longrightarrow> hc_idx s')"
  "hc_give_up s op loc = Inr s' \<Longrightarrow> hc_frame (hc_txn s) (hc_txn s') \<and> (hc_idx s \<longrightarrow> hc_idx s')"
  "hc_cold s op loc = Inr s' \<Longrightarrow> hc_frame (hc_txn s) (hc_txn s') \<and> (hc_idx s \<longrightarrow> hc_idx s')"
  by (auto simp: hc_pass1_def hc_pass2_def hc_give_up_def hc_cold_def hc_track_def hc_frame_def hc_idx_def Let_def
      res_elims less_SucI split: if_splits option.splits)

lemma hc_step_keep:
  assumes "hc_step cfg p i s = Inr s'" "hc_idx s"
  shows "hc_frame (hc_txn s) (hc_txn s') \<and> hc_idx s'"
proof -
  obtain s1 op loc where s1: "hc_frame (hc_txn s) (hc_txn s1)" "hc_idx s1"
    and br: "s' = s1 \<or> hc_pass1 cfg s1 op loc = Inr s' \<or> hc_pass2 s1 op loc = Inr s' \<or>
      hc_give_up s1 op loc = Inr s' \<or> hc_cold s1 op loc = Inr s'"
  proof -
    obtain li where li: "location p (op_id (cold_ops (hc_txn s) ! i)) = Inr li"
      using assms(1) by (auto simp: hc_step_def res_elims)
    let ?op = "(cold_ops (hc_txn s) ! i)\<lparr>loc_info := li\<rparr>"
    obtain h loc d where g: "get_location cfg (hc_layout s) (op_id ?op) = ((h, loc), d)" by (metis prod.exhaust)
    let ?s1 = "s\<lparr>hc_txn := (hc_txn s)\<lparr>cold_ops := (cold_ops (hc_txn s))[i := ?op]\<rparr>, hc_layout := d\<rparr>"
    have "hc_frame (hc_txn s) (hc_txn ?s1)" "hc_idx ?s1" using assms(2) by (simp_all add: hc_frame_def hc_idx_def)
    moreover have "?s1 = s' \<or> hc_pass1 cfg ?s1 ?op loc = Inr s' \<or> hc_pass2 ?s1 ?op loc = Inr s' \<or>
        hc_give_up ?s1 ?op loc = Inr s' \<or> hc_cold ?s1 ?op loc = Inr s'"
      using assms(1) li g by (auto simp: hc_step_def Let_def res_elims split: if_splits)
    ultimately show thesis using that by blast
  qed
  then show ?thesis
    using hc_branches_keep by (auto simp: hc_frame_def)
qed

lemma hc_loop_keep:
  "hc_loop cfg p n s = Inr s' \<Longrightarrow> hc_idx s \<Longrightarrow> hc_frame (hc_txn s) (hc_txn s') \<and> hc_idx s'"
proof (induction n arbitrary: s)
  case (Suc n)
  show ?case
  proof (cases "op_mode (cold_ops (hc_txn s) ! (N_OPS - Suc n)) \<noteq> INVALID")
    case True
    with Suc.prems obtain s1 where "hc_step cfg p (N_OPS - Suc n) s = Inr s1" "hc_loop cfg p n s1 = Inr s'"
      by (auto simp: res_elims Let_def)
    with hc_step_keep Suc.prems(2) Suc.IH show ?thesis by (fastforce simp: hc_frame_def)
  next
    case False
    with Suc.prems show ?thesis by (auto simp: res_elims Let_def hc_frame_def)
  qed
qed (simp add: hc_frame_def)

lemma hc_finish_keep:
  "hc_finish cfg s = Inr t \<Longrightarrow> hc_idx s \<Longrightarrow> hottest_cold_i1 (hc_txn s) = None \<Longrightarrow> hottest_cold_i2 (hc_txn s) = None \<Longrightarrow>
   loader_id t = loader_id (hc_txn s) \<and> hottest_cold_i1 t = (if cold1_v s > 0 then cold1_i s else None) \<and>
   (\<forall>j. hottest_cold_i1 t = Some j \<longrightarrow> j < cold_p s) \<and>
   (\<forall>j. hottest_cold_i2 t = Some j \<longrightarrow> j < cold_p s)"
  by (auto simp: hc_finish_def Let_def hc_idx_def res_elims split: if_splits)

lemma hc_restore_keep:
  "hc_restore s = Inr t \<Longrightarrow> hc_frame (hc_txn s) t"
  by (auto simp: hc_restore_def Let_def hc_frame_def res_elims)

text \<open>What the split guarantees of its result \<open>t\<close>.\<close>

definition split_spec ::
  "build_cfg \<Rightarrow> DeclusteredLayout \<Rightarrow> OP list \<Rightarrow> Txn \<Rightarrow> bool" where
  "split_spec cfg d all t \<longleftrightarrow>
    (let cold = live_ops (cold_ops t); h1 = live_hot (hot_ops_pass1 t); h2 = live_hot (hot_ops_pass2 t) in
     mset cold + mset (map fst h1) + mset (map fst h2) = mset all \<and>
     (distinct (op_regs cfg d all) \<longrightarrow> do_accel t) \<and>
     (if do_accel t
      then cold = filter (\<lambda>op. \<not> is_hot cfg d (op_id op)) all \<and> distinct (map hot_reg h1) \<and>
        (\<forall>h \<in> set h1 \<union> set h2. is_hot cfg d (op_id (fst h)) \<and> snd h = loc_of cfg d (op_id (fst h)) \<and>
           (lock_pos (snd h) \<noteq> NO_LOCK \<longrightarrow> bit (locks_check t) (unat (lock_pos (snd h))))) \<and>
        (case hottest_cold_i1 t of
           None \<Rightarrow> \<forall>op \<in> set cold. op_freq cfg d op = 0
         | Some j \<Rightarrow> j < length cold \<and> (\<forall>op \<in> set cold. op_freq cfg d op \<le> op_freq cfg d (cold ! j)))
      else h1 = [] \<and> h2 = []))"

definition hottest_ok :: "Txn \<Rightarrow> bool" where
  "hottest_ok t \<longleftrightarrow> (\<forall>j. hottest_cold_i1 t = Some j \<longrightarrow> j < length (live_ops (cold_ops t))) \<and>
     (\<forall>j. hottest_cold_i2 t = Some j \<longrightarrow> j < length (live_ops (cold_ops t)))"

lemma extract_ok:
  assumes "length ops = N_OPS" "\<forall>op \<in> set ops. op_mode op \<noteq> INVALID" "layout_regs d"
    "partition_size (part_info tbl) \<noteq> 0" "\<not> ORIG_MODE cfg"
  obtains t d' where "extract_hot_cold cfg tbl (Txn_mk lid ops) d = Inr (t, d')" "init_done t"
    "split_spec cfg d (map (op_fill (part_info tbl)) ops) t" "hottest_ok t" "loader_id t = lid"
    "length (cold_ops t) = N_OPS" "layout_regs d'"
    "\<And>k. is_hot cfg d' k = is_hot cfg d k \<and> loc_of cfg d' k = loc_of cfg d k"
    "MAX_PASSES_ACCEL cfg \<noteq> 2 \<Longrightarrow> live_hot (hot_ops_pass2 t) = []"
proof -
  let ?p = "part_info tbl" and ?t0 = "Txn_mk lid ops"
  have "hc_inv cfg d ?p (cold_ops ?t0) 0 0 (hc_start ?t0 d)"
    by (rule hc_inv_start) (use assms(1,3) in
      \<open>simp_all add: Txn_mk_def live_hot_def OP_zero_def MAX_OPS_PASS2_ACCEL_def\<close>)
  then obtain s where s: "hc_loop cfg ?p N_OPS (hc_start ?t0 d) = Inr s" and inv: "hc_inv cfg d ?p ops N_OPS N_OPS s"
    using hc_loop_inv [of cfg d ?p ops N_OPS] assms by (auto simp: Txn_mk_def)
  have sp: "split_ok cfg d (map (op_fill ?p) ops) (hc_cs s) (hc_h1 s) (hc_h2 s)" and lay: "hc_lay cfg d s"
    and sh: "hc_shape ops N_OPS N_OPS s"
    using inv assms(1) by (simp_all add: hc_inv_def)
  have "hc_frame (hc_txn (hc_start ?t0 d)) (hc_txn s) \<and> hc_idx s"
    by (rule hc_loop_keep [OF s]) (simp add: hc_idx_def hc_start_def)
  then have fr: "hottest_cold_i1 (hc_txn s) = None" "hottest_cold_i2 (hc_txn s) = None" "loader_id (hc_txn s) = lid"
    and idx: "hc_idx s"
    by (auto simp: hc_frame_def hc_start_def Txn_mk_def)
  show thesis
  proof (cases "do_accel (hc_txn s)")
    case True
    obtain t where t: "hc_finish cfg s = Inr t" "do_accel t = do_accel (hc_txn s)"
      "live_hot (hot_ops_pass1 t) = hc_h1 s" "live_hot (hot_ops_pass2 t) = hc_h2 s"
      "live_ops (cold_ops t) = hc_cs s" "locks_check t = locks_check (hc_txn s)" "length (cold_ops t) = N_OPS"
      using hc_finish_ok [OF inv assms(1,2)] .
    have acc: "accel_ok (reg_usage s) (locks_check (hc_txn s)) (hc_h1 s) (hc_h2 s)" using inv True by (simp add: hc_inv_def)
    have hot: "is_hot cfg d (op_id (fst h))" if "h \<in> set (hc_h1 s) \<union> set (hc_h2 s)" for h
    proof -
      have "fst h \<in># mset (map fst (hc_h1 s)) + mset (map fst (hc_h2 s))" using that by auto
      then have "fst h \<in># mset (filter (\<lambda>op. is_hot cfg d (op_id op)) (map (op_fill ?p) ops))"
        using sp unfolding split_ok_def by metis
      then show ?thesis by simp
    qed
    have "extract_hot_cold cfg tbl ?t0 d = Inr (t\<lparr>init_done := True\<rparr>, hc_layout s)"
      using s t(1) True by (simp add: extract_hot_cold_def)
    moreover have "split_spec cfg d (map (op_fill ?p) ops) (t\<lparr>init_done := True\<rparr>)"
    proof -
      let ?cold = "live_ops (cold_ops t)" and ?h1 = "live_hot (hot_ops_pass1 t)" and ?h2 = "live_hot (hot_ops_pass2 t)"
      have F1: "mset ?cold + mset (map fst ?h1) + mset (map fst ?h2) = mset (map (op_fill ?p) ops)"
        unfolding t(3-5) using split_ok_mset [OF sp] by (simp only: add.assoc)
      have F2: "?cold = filter (\<lambda>op. \<not> is_hot cfg d (op_id op)) (map (op_fill ?p) ops)"
        unfolding t(5) using sp by (simp only: split_ok_def)
      have F3: "distinct (map hot_reg ?h1)" unfolding t(3) using acc by (simp only: accel_ok_def)
      have F4: "\<forall>h \<in> set ?h1 \<union> set ?h2. is_hot cfg d (op_id (fst h)) \<and> snd h = loc_of cfg d (op_id (fst h)) \<and>
           (lock_pos (snd h) \<noteq> NO_LOCK \<longrightarrow> bit (locks_check t) (unat (lock_pos (snd h))))"
        unfolding t(3,4,6) using hot sp acc unfolding split_ok_def accel_ok_def by blast
      have F5: "case hottest_cold_i1 t of None \<Rightarrow> \<forall>op \<in> set ?cold. op_freq cfg d op = 0
          | Some j \<Rightarrow> j < length ?cold \<and> (\<forall>op \<in> set ?cold. op_freq cfg d op \<le> op_freq cfg d (?cold ! j))"
      proof -
        have "hot_max cfg d (hc_cs s) (cold1_v s) (cold1_i s)" using inv by (simp add: hc_inv_def)
        then show ?thesis
          unfolding t(5) using hc_finish_keep [OF t(1) idx fr(1,2)] by (auto simp: hot_max_def)
      qed
      have sel: "cold_ops (t\<lparr>init_done := True\<rparr>) = cold_ops t" "hot_ops_pass1 (t\<lparr>init_done := True\<rparr>) = hot_ops_pass1 t"
        "hot_ops_pass2 (t\<lparr>init_done := True\<rparr>) = hot_ops_pass2 t" "locks_check (t\<lparr>init_done := True\<rparr>) = locks_check t"
        "hottest_cold_i1 (t\<lparr>init_done := True\<rparr>) = hottest_cold_i1 t" "do_accel (t\<lparr>init_done := True\<rparr>) = True"
        using True t(2) by simp_all
      show ?thesis
        unfolding split_spec_def Let_def sel if_True by (intro conjI F1 F2 F3 F4 F5 impI TrueI)
    qed
    moreover have "length (hc_cs s) = cold_p s" using sh by (simp add: hc_cs_def hc_shape_def)
    then have "hottest_ok (t\<lparr>init_done := True\<rparr>)" "loader_id (t\<lparr>init_done := True\<rparr>) = lid"
      using hc_finish_keep [OF t(1) idx fr(1,2)] fr(3) t(5) by (simp_all add: hottest_ok_def)
    moreover have "live_hot (hot_ops_pass2 (t\<lparr>init_done := True\<rparr>)) = []" if "MAX_PASSES_ACCEL cfg \<noteq> 2"
      using that t(4) inv assms(1) by (simp add: hc_inv_def hc_h2_def)
    ultimately show thesis using that t(7) lay by (simp add: hc_lay_def)
  next
    case False
    obtain t where t: "hc_restore s = Inr t" "do_accel t = do_accel (hc_txn s)" "live_hot (hot_ops_pass1 t) = []"
      "live_hot (hot_ops_pass2 t) = []" "mset (cold_ops t) = mset (map (op_fill ?p) ops)"
      "live_ops (cold_ops t) = cold_ops t" "length (cold_ops t) = N_OPS"
      using hc_restore_ok [OF inv assms(1,2)] .
    have "extract_hot_cold cfg tbl ?t0 d = Inr (t\<lparr>init_done := True\<rparr>, hc_layout s)"
      using s t(1) False by (simp add: extract_hot_cold_def)
    moreover have "split_spec cfg d (map (op_fill ?p) ops) (t\<lparr>init_done := True\<rparr>)"
      using t False inv assms(1) by (simp add: split_spec_def Let_def hc_inv_def conf_ok_def)
    moreover have "hottest_ok (t\<lparr>init_done := True\<rparr>)" "loader_id (t\<lparr>init_done := True\<rparr>) = lid"
      using hc_restore_keep [OF t(1)] fr by (simp_all add: hottest_ok_def hc_frame_def)
    ultimately show thesis using that t(4,7) lay by (simp add: hc_lay_def)
  qed
qed

text \<open>
  C20. The split keeps the transaction. For a loaded transaction of eight operations (in the
  builds other than \<open>IS_ORIG_MODE\<close>, for one or two passes) \<open>extract_hot_cold\<close> never fails, and
  the live cold and hot operations together are the original ones, each with its location
  filled in. A transaction whose hot operations use distinct registers is accelerated. An
  accelerated transaction keeps exactly its cold operations, in their order, on
  the host; its first pass uses each switch register at most once, every hot operation has the
  layout's location, every lock of a hot operation is in \<open>locks_check\<close>, and \<open>hottest_cold_i1\<close> names a
  cold operation of the greatest frequency (or none, when no cold key has one). A transaction that is not
  accelerated has all its operations back on the host.
\<close>

theorem extract_hot_cold_correct:
  assumes "length ops = N_OPS" "\<forall>op \<in> set ops. op_mode op \<noteq> INVALID" "layout_wf d"
    "partition_size (part_info tbl) \<noteq> 0" "\<not> ORIG_MODE cfg"
  shows "\<exists>t d'. extract_hot_cold cfg tbl (Txn_mk lid ops) d = Inr (t, d') \<and> init_done t \<and>
    (let cold = live_ops (cold_ops t); h1 = live_hot (hot_ops_pass1 t); h2 = live_hot (hot_ops_pass2 t);
         all = map (op_fill (part_info tbl)) ops in
     mset cold + mset (map fst h1) + mset (map fst h2) = mset all \<and>
     (distinct (op_regs cfg d all) \<longrightarrow> do_accel t) \<and>
     (if do_accel t
      then cold = filter (\<lambda>op. \<not> is_hot cfg d (op_id op)) all \<and> distinct (map hot_reg h1) \<and>
        (\<forall>h \<in> set h1 \<union> set h2. is_hot cfg d (op_id (fst h)) \<and> snd h = loc_of cfg d (op_id (fst h)) \<and>
           (lock_pos (snd h) \<noteq> NO_LOCK \<longrightarrow> bit (locks_check t) (unat (lock_pos (snd h))))) \<and>
        (case hottest_cold_i1 t of
           None \<Rightarrow> \<forall>op \<in> set cold. op_freq cfg d op = 0
         | Some j \<Rightarrow> j < length cold \<and> (\<forall>op \<in> set cold. op_freq cfg d op \<le> op_freq cfg d (cold ! j)))
      else h1 = [] \<and> h2 = []))"
proof -
  obtain t d' where t: "extract_hot_cold cfg tbl (Txn_mk lid ops) d = Inr (t, d')" "init_done t"
    "split_spec cfg d (map (op_fill (part_info tbl)) ops) t"
    using extract_ok [OF assms(1,2) layout_wf_regs [OF assms(3)] assms(4,5)] by blast
  from t(1,2) t(3) [unfolded split_spec_def Let_def] show ?thesis
    unfolding Let_def by (intro exI [of _ t] exI [of _ d']) (elim conjE, intro conjI, assumption+)
qed

definition txn_demo_ops :: "OP list" where
  "txn_demo_ops = map (\<lambda>k. OP_zero\<lparr>op_id := k, op_mode := WRITE\<rparr>) [72, 1, 2, 3, 4, 5, 6, 7]"

definition txn_demo_table :: StructTable where
  "txn_demo_table = \<lparr>t_id = 0, t_name = ''kvs'', t_size = 80, max_size = 80,
     part_info = \<lparr>total_size = 80, partition_size = 40, offset = 0, my_id = 0, switch_id = 2\<rparr>,
     t_data = replicate 80 (Row_mk \<lparr>kv_id = 0, kv_value = 0\<rparr>)\<rparr>"

theorem extract_hot_cold_correct_witness:
  "\<exists>d t d'. DeclusteredLayout_mk layout_demo_cfg layout_demo_freq = Inr d \<and>
     extract_hot_cold layout_demo_cfg txn_demo_table (Txn_mk 1 txn_demo_ops) d = Inr (t, d') \<and> init_done t \<and>
     mset (live_ops (cold_ops t)) + mset (map fst (live_hot (hot_ops_pass1 t))) +
       mset (map fst (live_hot (hot_ops_pass2 t))) = mset (map (op_fill (part_info txn_demo_table)) txn_demo_ops)"
proof -
  obtain d where d: "DeclusteredLayout_mk layout_demo_cfg layout_demo_freq = Inr d" by (rule layout_demo_mk)
  have wf: "layout_wf d"
    by (rule layout_mk_wf(1) [OF d]) (simp_all add: layout_demo_freq_def comp_def)
  have "length txn_demo_ops = N_OPS" "\<forall>op \<in> set txn_demo_ops. op_mode op \<noteq> INVALID"
    "partition_size (part_info txn_demo_table) \<noteq> 0" "\<not> ORIG_MODE layout_demo_cfg"
    by (simp_all add: txn_demo_ops_def txn_demo_table_def layout_demo_cfg_def default_build_def N_OPS_def)
  from extract_hot_cold_correct [OF this(1,2) wf this(3,4), of 1] obtain t d' where
    "extract_hot_cold layout_demo_cfg txn_demo_table (Txn_mk 1 txn_demo_ops) d = Inr (t, d')" "init_done t"
    "mset (live_ops (cold_ops t)) + mset (map fst (live_hot (hot_ops_pass1 t))) +
       mset (map fst (live_hot (hot_ops_pass2 t))) = mset (map (op_fill (part_info txn_demo_table)) txn_demo_ops)"
    unfolding Let_def by (elim exE conjE)
  with d show ?thesis by blast
qed

end
