(* ===== verification/P4_Sched.thy ===== *)
theory P4_Sched
  imports P4_Txn
begin

text \<open>
  The scheduler of \<open>ee/sched.cpp\<close>: a pool of schedules that says, for every key and every
  mini-batch of a period, which node may run transactions on that key, and the distribution of
  a batch of transactions over one queue per mini-batch.
\<close>

section \<open>Schedules\<close>

record scheduler =
  sc_node_id :: nat
  schedules :: "nat list list list"
  n_schedules :: nat
  n_queues :: nat
  schedule_len :: nat
  mb_queues :: "nat list list"
  touched :: "db_key set"

text \<open>The number of extra local slices, computed in \<open>size_t\<close>.\<close>

definition n_extra_local :: "config \<Rightarrow> nat" where
  "n_extra_local config =
     unat ((word_of_nat (num_nodes config) :: u64) * word_of_nat (100 - REMOTE_FRAC) - 100) div REMOTE_FRAC"

definition mk_schedule :: "nat \<Rightarrow> nat \<Rightarrow> nat \<Rightarrow> nat \<Rightarrow> nat list" where
  "mk_schedule nodes len node s = map (\<lambda>i. if i \<ge> s \<and> i < s + nodes then i - s else node) [0..<len]"

definition scheduler_mk :: "config \<Rightarrow> scheduler" where
  "scheduler_mk config =
     (let x = n_extra_local config; n_scheds = x + 1; len = x + num_nodes config in
      \<lparr>sc_node_id = unat (node_u32 (cfg_node_id config)),
       schedules = map (\<lambda>node. map (mk_schedule (num_nodes config) len node) [0..<n_scheds]) [0..<num_nodes config],
       n_schedules = n_scheds, n_queues = len, schedule_len = len, mb_queues = replicate len [], touched = {}\<rparr>)"

text \<open>\<open>entry_to_txn\<close>: the transaction at a position of the worker's array.\<close>

definition entry_to_txn :: "Txn list \<Rightarrow> nat \<Rightarrow> Txn result" where
  "entry_to_txn txns entry = bind_res (assert_res (entry < length txns)) (\<lambda>_. ok (txns ! entry))"

section \<open>Scheduling a batch\<close>

text \<open>The schedule of an operation's key.\<close>

definition op_schedule :: "scheduler \<Rightarrow> OP \<Rightarrow> nat list result" where
  "op_schedule sc op =
     bind_res (at_res (schedules sc) (unat (node_u32 (target (loc_info op))))) (\<lambda>node_schedules.
     if n_schedules sc = 0 then fail DivisionByZero
     else at_res node_schedules (op_id op mod n_schedules sc))"

text \<open>The scan for the shortest queue among the slots that satisfy a test; \<open>None\<close> is \<open>-1\<close>.\<close>

definition scan_best :: "nat list list \<Rightarrow> (nat \<Rightarrow> bool) \<Rightarrow> nat \<Rightarrow> nat option" where
  "scan_best queues ok_slot len =
     foldl (\<lambda>best s. if ok_slot s \<and> (case best of None \<Rightarrow> True | Some b \<Rightarrow> length (queues ! b) > length (queues ! s))
                     then Some s else best) None [0..<len]"

definition best_slot :: "scheduler \<Rightarrow> Txn \<Rightarrow> nat \<Rightarrow> nat result" where
  "best_slot sc txn i1 =
     bind_res (at_res (cold_ops txn) i1) (\<lambda>op1.
     bind_res (op_schedule sc op1) (\<lambda>sched1.
     bind_res
       (case hottest_cold_i2 txn of
          None \<Rightarrow> ok None
        | Some i2 \<Rightarrow>
            bind_res (at_res (cold_ops txn) i2) (\<lambda>op2.
            bind_res (op_schedule sc op2) (\<lambda>sched2.
              ok (scan_best (mb_queues sc) (\<lambda>s. sched1 ! s = sc_node_id sc \<and> sched2 ! s = sc_node_id sc)
                    (schedule_len sc))))) (\<lambda>s_best.
     let s_best = (if s_best = None
                   then scan_best (mb_queues sc) (\<lambda>s. sched1 ! s = sc_node_id sc) (schedule_len sc)
                   else s_best) in
     case s_best of None \<Rightarrow> fail AssertFailed | Some s \<Rightarrow> ok s)))"

definition push_queue :: "scheduler \<Rightarrow> nat \<Rightarrow> nat \<Rightarrow> scheduler result" where
  "push_queue sc s e =
     bind_res (at_res (mb_queues sc) s) (\<lambda>q. ok (sc\<lparr>mb_queues := (mb_queues sc)[s := q @ [e]]\<rparr>))"

record sched_state =
  ss_sched :: scheduler
  ss_txns :: "Txn list"
  ss_layout :: DeclusteredLayout
  zero_spray_idx :: nat

definition sched_txn :: "build_cfg \<Rightarrow> StructTable \<Rightarrow> sched_state \<Rightarrow> nat \<Rightarrow> sched_state result" where
  "sched_txn cfg tbl st i =
     bind_res (at_res (ss_txns st) i) (\<lambda>txn.
     bind_res (assert_res (init_done txn = False)) (\<lambda>_.
     bind_res (extract_hot_cold cfg tbl txn (ss_layout st)) (\<lambda>(txn, d).
     bind_res (assert_res (init_done txn = True)) (\<lambda>_.
     let st = st\<lparr>ss_txns := (ss_txns st)[i := txn], ss_layout := d\<rparr> in
     case (if DO_SCHED cfg then hottest_cold_i1 txn else None) of
       Some i1 \<Rightarrow>
         bind_res (best_slot (ss_sched st) txn i1) (\<lambda>s.
         bind_res (entry_to_txn (ss_txns st) i) (\<lambda>txn'.
         bind_res (assert_res (loader_id txn = loader_id txn')) (\<lambda>_.
         bind_res (push_queue (ss_sched st) s i) (\<lambda>sc. ok (st\<lparr>ss_sched := sc\<rparr>)))))
     | None \<Rightarrow>
         if n_queues (ss_sched st) = 0 then fail DivisionByZero
         else bind_res (push_queue (ss_sched st) (zero_spray_idx st mod n_queues (ss_sched st)) i) (\<lambda>sc.
                ok (st\<lparr>ss_sched := sc, zero_spray_idx := zero_spray_idx st + 1\<rparr>))))))"

primrec sched_txns :: "build_cfg \<Rightarrow> StructTable \<Rightarrow> sched_state \<Rightarrow> nat list \<Rightarrow> sched_state result" where
  "sched_txns cfg tbl st [] = ok st"
| "sched_txns cfg tbl st (i # is) = bind_res (sched_txn cfg tbl st i) (\<lambda>st. sched_txns cfg tbl st is)"

definition sched_batch ::
  "build_cfg \<Rightarrow> StructTable \<Rightarrow> scheduler \<Rightarrow> DeclusteredLayout \<Rightarrow> Txn list \<Rightarrow> nat \<Rightarrow> nat \<Rightarrow>
   (scheduler \<times> DeclusteredLayout \<times> Txn list) result" where
  "sched_batch cfg tbl sc d txns start end =
     bind_res (assert_res (\<forall>q \<in> set (take (n_queues sc) (mb_queues sc)). q = [])) (\<lambda>_.
     bind_res (sched_txns cfg tbl \<lparr>ss_sched = sc, ss_txns = txns, ss_layout = d, zero_spray_idx = 0\<rparr> [start..<end]) (\<lambda>st.
       ok (ss_sched st, ss_layout st, ss_txns st)))"

definition process_touched :: "scheduler \<Rightarrow> scheduler" where
  "process_touched sc = sc\<lparr>touched := {}\<rparr>"

section \<open>Schedules cover every node\<close>

lemma n_extra_local_val:
  assumes "2 \<le> num_nodes config" "num_nodes config \<le> 256"
  shows "n_extra_local config = 9 * num_nodes config - 10"
proof -
  let ?n = "num_nodes config"
  have "(word_of_nat ?n :: u64) * word_of_nat (100 - REMOTE_FRAC) - 100 = word_of_nat (?n * 90 - 100)"
    using assms(1) by (simp add: REMOTE_FRAC_def of_nat_diff)
  moreover have "unat (word_of_nat (?n * 90 - 100) :: u64) = ?n * 90 - 100"
    using assms(2) by (simp add: unat_of_nat)
  ultimately show ?thesis using assms(1) by (simp add: n_extra_local_def REMOTE_FRAC_def)
qed

lemma mk_schedule_nth [simp]:
  "i < len \<Longrightarrow> mk_schedule nodes len node s ! i = (if i \<ge> s \<and> i < s + nodes then i - s else node)"
  by (simp add: mk_schedule_def)

lemma mk_schedule_length [simp]: "length (mk_schedule nodes len node s) = len"
  by (simp add: mk_schedule_def)

text \<open>In a schedule that starts at \<open>s\<close>, node \<open>n\<close> has slot \<open>s + n\<close>.\<close>

lemma mk_schedule_covers:
  "s + nodes \<le> len \<Longrightarrow> n < nodes \<Longrightarrow> s + n < len \<and> mk_schedule nodes len node s ! (s + n) = n"
  by simp

lemma scan_best_Some:
  "scan_best q P len = Some s \<Longrightarrow> s < len \<and> P s \<and> (\<forall>s' < len. P s' \<longrightarrow> length (q ! s) \<le> length (q ! s'))"
proof (induction len arbitrary: s)
  case (Suc len)
  have step: "scan_best q P (Suc len) =
      (if P len \<and> (case scan_best q P len of None \<Rightarrow> True | Some b \<Rightarrow> length (q ! b) > length (q ! len))
       then Some len else scan_best q P len)"
    by (simp add: scan_best_def)
  show ?case
  proof (cases "scan_best q P len")
    case None
    have "\<not> P s'" if "s' < len" for s'
      using None that
    proof (induction len)
      case (Suc n)
      then show ?case by (auto simp: scan_best_def less_Suc_eq split: if_splits option.splits)
    qed simp
    with None step Suc.prems show ?thesis by (auto simp: less_Suc_eq split: if_splits)
  next
    case (Some b)
    with Suc.IH [OF Some] step Suc.prems show ?thesis by (auto simp: less_Suc_eq split: if_splits)
  qed
qed (simp add: scan_best_def)

lemma scan_best_exists: "s < len \<Longrightarrow> P s \<Longrightarrow> \<exists>b. scan_best q P len = Some b"
  by (induction len) (auto simp: scan_best_def less_Suc_eq split: option.splits)

text \<open>A scheduler with the constructor's schedules, whatever its queues hold.\<close>

definition sched_of :: "config \<Rightarrow> scheduler \<Rightarrow> bool" where
  "sched_of config sc \<longleftrightarrow> sc_node_id sc = sc_node_id (scheduler_mk config) \<and>
     schedules sc = schedules (scheduler_mk config) \<and> n_schedules sc = n_schedules (scheduler_mk config) \<and>
     n_queues sc = n_queues (scheduler_mk config) \<and> schedule_len sc = schedule_len (scheduler_mk config) \<and>
     length (mb_queues sc) = schedule_len sc"

definition cluster_ok :: "config \<Rightarrow> bool" where
  "cluster_ok config \<longleftrightarrow> 2 \<le> num_nodes config \<and> num_nodes config \<le> 256 \<and>
     unat (node_u32 (cfg_node_id config)) < num_nodes config"

text \<open>The node that may run transactions on key \<open>k\<close> in slot \<open>s\<close>: a function of the cluster alone.\<close>

definition slot_owner :: "config \<Rightarrow> nat \<Rightarrow> db_key \<Rightarrow> nat \<Rightarrow> nat" where
  "slot_owner config ts k s =
     mk_schedule (num_nodes config) (n_extra_local config + num_nodes config) (k div (ts div num_nodes config))
       (k mod (n_extra_local config + 1)) ! s"

lemma op_schedule_fill:
  assumes "sched_of config sc" "cluster_ok config" "PartitionInfo_mk config ts = Inr p" "op_id op < ts"
  shows "op_schedule sc (op_fill p op) =
    Inr (mk_schedule (num_nodes config) (n_extra_local config + num_nodes config)
          (op_id op div (ts div num_nodes config)) (op_id op mod (n_extra_local config + 1)))"
proof -
  let ?n = "num_nodes config" and ?k = "op_id op"
  have d: "?n dvd ts" and ps: "partition_size p = ts div ?n" using assms(3) by (simp_all add: PartitionInfo_mk_Inr)
  have o: "?k div (ts div ?n) < ?n" by (rule owner_less [OF assms(4) d])
  have "?n \<le> 256" using assms(2) by (simp add: cluster_ok_def)
  with o have w: "unat (node_u32 (word_of_nat (?k div (ts div ?n)))) = ?k div (ts div ?n)"
    by (simp add: unat_of_nat)
  have "partition_size p \<noteq> 0" using partition_part_pos [of ts ?n] assms(4) d ps by simp
  then have "target (loc_info (op_fill p op)) = word_of_nat (?k div (ts div ?n))"
    by (simp add: op_fill_def location_def Let_def ps)
  with w o assms(1) show ?thesis
    by (simp add: op_schedule_def sched_of_def scheduler_mk_def Let_def at_res_def del: upt_Suc)
qed

lemma slot_exists:
  assumes "cluster_ok config"
  shows "\<exists>s < n_extra_local config + num_nodes config. slot_owner config ts k s = unat (node_u32 (cfg_node_id config))"
proof -
  let ?x = "n_extra_local config" and ?n = "num_nodes config" and ?me = "unat (node_u32 (cfg_node_id config))"
  have me: "?me < ?n" using assms by (simp add: cluster_ok_def)
  have "k mod (?x + 1) + ?n \<le> ?x + ?n" by simp
  from mk_schedule_covers [OF this me] show ?thesis unfolding slot_owner_def by blast
qed

section \<open>Scheduling is fair and complete\<close>

lemma sched_of_sel:
  assumes "sched_of config sc"
  shows "sc_node_id sc = unat (node_u32 (cfg_node_id config))"
    "schedule_len sc = n_extra_local config + num_nodes config"
    "n_queues sc = n_extra_local config + num_nodes config"
    "length (mb_queues sc) = n_extra_local config + num_nodes config"
  using assms by (simp_all add: sched_of_def scheduler_mk_def Let_def)

text \<open>The slot chosen for a transaction is one its hottest cold key grants to this node.\<close>

lemma best_slot_ok:
  assumes sc: "sched_of config sc" "cluster_ok config" "PartitionInfo_mk config ts = Inr p"
    and ops: "i1 < length (cold_ops t)" "cold_ops t ! i1 = op_fill p o1" "op_id o1 < ts"
    and i2: "\<And>i2. hottest_cold_i2 t = Some i2 \<Longrightarrow>
      i2 < length (cold_ops t) \<and> (\<exists>o2. cold_ops t ! i2 = op_fill p o2 \<and> op_id o2 < ts)"
  obtains s where "best_slot sc t i1 = Inr s" "s < schedule_len sc"
    "slot_owner config ts (op_id o1) s = unat (node_u32 (cfg_node_id config))"
proof -
  let ?len = "n_extra_local config + num_nodes config" and ?me = "unat (node_u32 (cfg_node_id config))"
  define s1 where "s1 = mk_schedule (num_nodes config) ?len (op_id o1 div (ts div num_nodes config))
      (op_id o1 mod (n_extra_local config + 1))"
  have so: "slot_owner config ts (op_id o1) s = s1 ! s" for s by (simp add: slot_owner_def s1_def)
  have os1: "op_schedule sc (op_fill p o1) = Inr s1" using op_schedule_fill [OF sc ops(3)] by (simp add: s1_def)
  define P where "P = (\<lambda>s. s1 ! s = ?me)"
  obtain s0 where s0: "s0 < ?len" "P s0" using slot_exists [OF sc(2), of ts "op_id o1"] so by (auto simp: P_def)
  obtain b where b: "scan_best (mb_queues sc) P ?len = Some b"
    using scan_best_exists [of s0 ?len P "mb_queues sc"] s0 by blast
  note sel = sched_of_sel [OF sc(1)]
  obtain r where r: "(case hottest_cold_i2 t of None \<Rightarrow> ok None
        | Some i2 \<Rightarrow> bind_res (at_res (cold_ops t) i2) (\<lambda>op2. bind_res (op_schedule sc op2) (\<lambda>sched2.
              ok (scan_best (mb_queues sc) (\<lambda>s. s1 ! s = sc_node_id sc \<and> sched2 ! s = sc_node_id sc)
                    (schedule_len sc))))) = Inr r" and rs: "\<And>s. r = Some s \<Longrightarrow> s < ?len \<and> P s"
  proof (cases "hottest_cold_i2 t")
    case None
    then show thesis using that [of None] by simp
  next
    case (Some i2)
    then obtain o2 where o2: "i2 < length (cold_ops t)" "cold_ops t ! i2 = op_fill p o2" "op_id o2 < ts"
      using i2 by blast
    obtain s2 where s2: "op_schedule sc (op_fill p o2) = Inr s2" using op_schedule_fill [OF sc o2(3)] by blast
    have at2: "at_res (cold_ops t) i2 = Inr (op_fill p o2)" using o2 by simp
    show thesis
    proof (rule that)
      show "(case hottest_cold_i2 t of None \<Rightarrow> ok None
        | Some i2 \<Rightarrow> bind_res (at_res (cold_ops t) i2) (\<lambda>op2. bind_res (op_schedule sc op2) (\<lambda>sched2.
              ok (scan_best (mb_queues sc) (\<lambda>s. s1 ! s = sc_node_id sc \<and> sched2 ! s = sc_node_id sc)
                    (schedule_len sc))))) =
          Inr (scan_best (mb_queues sc) (\<lambda>s. s1 ! s = sc_node_id sc \<and> s2 ! s = sc_node_id sc) (schedule_len sc))"
        unfolding Some option.case at2 bind_res_simps s2 ..
      show "s < ?len \<and> P s"
        if "scan_best (mb_queues sc) (\<lambda>s. s1 ! s = sc_node_id sc \<and> s2 ! s = sc_node_id sc) (schedule_len sc) = Some s" for s
        using scan_best_Some [OF that] by (simp add: P_def sel)
    qed
  qed
  let ?s = "case r of Some s \<Rightarrow> s | None \<Rightarrow> b"
  have at: "at_res (cold_ops t) i1 = Inr (op_fill p o1)" using ops(1,2) by simp
  have b': "scan_best (mb_queues sc) (\<lambda>s. s1 ! s = sc_node_id sc) (schedule_len sc) = Some b"
    using b by (simp add: P_def sel)
  have "best_slot sc t i1 = Inr ?s"
    unfolding best_slot_def at bind_res_simps os1 r by (cases r) (simp_all add: b')
  moreover have "?s < ?len \<and> P ?s" using rs scan_best_Some [OF b] by (auto split: option.split)
  ultimately show thesis using that sel so by (simp add: P_def)
qed

text \<open>A transaction as loaded, with keys of a table of \<open>ts\<close> rows.\<close>

definition loaded :: "nat \<Rightarrow> Txn \<Rightarrow> bool" where
  "loaded ts t \<longleftrightarrow> t = Txn_mk (loader_id t) (cold_ops t) \<and> length (cold_ops t) = N_OPS \<and>
     (\<forall>op \<in> set (cold_ops t). op_mode op \<noteq> INVALID \<and> op_id op < ts)"

text \<open>Slot \<open>s\<close> suits a split transaction: its hottest cold key grants the slot to this node.\<close>

definition slot_fits :: "build_cfg \<Rightarrow> config \<Rightarrow> nat \<Rightarrow> Txn \<Rightarrow> nat \<Rightarrow> bool" where
  "slot_fits cfg config ts t s \<longleftrightarrow>
     (\<forall>j. DO_SCHED cfg \<longrightarrow> hottest_cold_i1 t = Some j \<longrightarrow> j < length (cold_ops t) \<and>
        slot_owner config ts (op_id (cold_ops t ! j)) s = unat (node_u32 (cfg_node_id config)))"

text \<open>Two layouts that answer every lookup alike.\<close>

definition same_layout :: "build_cfg \<Rightarrow> DeclusteredLayout \<Rightarrow> DeclusteredLayout \<Rightarrow> bool" where
  "same_layout cfg d d' \<longleftrightarrow> is_hot cfg d' = is_hot cfg d \<and> loc_of cfg d' = loc_of cfg d"

lemma split_spec_same: "same_layout cfg d d' \<Longrightarrow> split_spec cfg d' all t = split_spec cfg d all t"
  unfolding same_layout_def split_spec_def op_regs_def by (elim conjE) (simp only:)

definition sched_inv ::
  "build_cfg \<Rightarrow> config \<Rightarrow> nat \<Rightarrow> DeclusteredLayout \<Rightarrow> PartitionInfo \<Rightarrow> Txn list \<Rightarrow> nat list \<Rightarrow> sched_state \<Rightarrow> bool" where
  "sched_inv cfg config ts d0 p txns fin st \<longleftrightarrow> sched_of config (ss_sched st) \<and> layout_regs (ss_layout st) \<and>
     length (ss_txns st) = length txns \<and> (\<forall>i. i \<notin> set fin \<longrightarrow> ss_txns st ! i = txns ! i) \<and>
     same_layout cfg d0 (ss_layout st) \<and>
     (\<forall>i \<in> set fin. split_spec cfg d0 (map (op_fill p) (cold_ops (txns ! i))) (ss_txns st ! i)) \<and>
     mset (concat (mb_queues (ss_sched st))) = mset fin \<and>
     (\<forall>s < schedule_len (ss_sched st). \<forall>i \<in> set (mb_queues (ss_sched st) ! s). i \<in> set fin \<and>
        init_done (ss_txns st ! i) \<and> slot_fits cfg config ts (ss_txns st ! i) s)"

lemma mset_concat_push:
  "s < length qs \<Longrightarrow> mset (concat (qs[s := qs ! s @ [e]])) = add_mset e (mset (concat qs))"
proof (induction qs arbitrary: s)
  case (Cons q qs)
  then show ?case by (cases s) simp_all
qed simp

lemma live_prefix: "j < length (live_ops xs) \<Longrightarrow> xs ! j = live_ops xs ! j \<and> j < length xs"
  unfolding live_ops_def using length_takeWhile_le [of _ xs] takeWhile_nth by (metis order_less_le_trans)

text \<open>The operations at the hottest positions are filled operations of the original transaction.\<close>

lemma hottest_filled:
  assumes "split_spec cfg d (map (op_fill p) ops) t" "j < length (live_ops (cold_ops t))"
  obtains op where "op \<in> set ops" "cold_ops t ! j = op_fill p op" "j < length (cold_ops t)"
proof -
  let ?o = "live_ops (cold_ops t) ! j"
  have "?o \<in># mset (live_ops (cold_ops t))" using assms(2) by simp
  then have "?o \<in># mset (map (op_fill p) ops)"
    using assms(1) unfolding split_spec_def Let_def by (metis union_iff)
  then obtain op where "op \<in> set ops" "?o = op_fill p op" by auto
  with that live_prefix [OF assms(2)] show thesis by simp
qed

lemma push_queue_ok:
  assumes "sched_of config sc" "s < schedule_len sc"
  shows "push_queue sc s e = Inr (sc\<lparr>mb_queues := (mb_queues sc)[s := mb_queues sc ! s @ [e]]\<rparr>)"
    "sched_of config (sc\<lparr>mb_queues := (mb_queues sc)[s := mb_queues sc ! s @ [e]]\<rparr>)"
  using assms by (simp_all add: push_queue_def at_res_def sched_of_def)

lemma sched_inv_push:
  assumes inv: "sched_inv cfg config ts d0 p txns fin st" and i: "i < length txns" "i \<notin> set fin"
    and t: "init_done t" "slot_fits cfg config ts t s" and s: "s < schedule_len (ss_sched st)" and d: "layout_regs d" "same_layout cfg d0 d"
    and spec: "split_spec cfg d0 (map (op_fill p) (cold_ops (txns ! i))) t"
  shows "sched_inv cfg config ts d0 p txns (fin @ [i])
    (st\<lparr>ss_txns := (ss_txns st)[i := t], ss_layout := d, zero_spray_idx := z,
        ss_sched := (ss_sched st)\<lparr>mb_queues := (mb_queues (ss_sched st))[s := mb_queues (ss_sched st) ! s @ [i]]\<rparr>\<rparr>)"
    (is "sched_inv cfg config ts d0 p txns _ ?st")
proof -
  let ?q = "mb_queues (ss_sched st)"
  have sc: "sched_of config (ss_sched st)" and lt: "length (ss_txns st) = length txns"
    and ms: "mset (concat ?q) = mset fin"
    and un: "\<And>i. i \<notin> set fin \<Longrightarrow> ss_txns st ! i = txns ! i"
    and sps: "\<forall>i \<in> set fin. split_spec cfg d0 (map (op_fill p) (cold_ops (txns ! i))) (ss_txns st ! i)"
    and fits: "\<And>s i. s < schedule_len (ss_sched st) \<Longrightarrow> i \<in> set (?q ! s) \<Longrightarrow> i \<in> set fin \<and>
        init_done (ss_txns st ! i) \<and> slot_fits cfg config ts (ss_txns st ! i) s"
    using inv unfolding sched_inv_def by blast+
  have lq: "length ?q = schedule_len (ss_sched st)" using sc by (simp add: sched_of_def)
  have "i' \<in> set (fin @ [i]) \<and> init_done (ss_txns ?st ! i') \<and> slot_fits cfg config ts (ss_txns ?st ! i') s'"
    if "s' < schedule_len (ss_sched ?st)" "i' \<in> set (mb_queues (ss_sched ?st) ! s')" for s' i'
  proof (cases "i' = i")
    case True
    then have "s' = s" using that fits [of s' i] i(2) s lq by (auto simp: nth_list_update split: if_splits)
    with True t i(1) lt show ?thesis by simp
  next
    case False
    then have "i' \<in> set (?q ! s')" using that s lq by (auto simp: nth_list_update split: if_splits)
    with fits [of s' i'] that(1) False show ?thesis by simp
  qed
  moreover have "mset (concat (mb_queues (ss_sched ?st))) = mset (fin @ [i])"
    using mset_concat_push [of s ?q i] s lq ms by simp
  moreover have "\<forall>i' \<in> set (fin @ [i]). split_spec cfg d0 (map (op_fill p) (cold_ops (txns ! i'))) (ss_txns ?st ! i')"
    using sps spec i lt by (auto simp: nth_list_update)
  ultimately show ?thesis
    using push_queue_ok(2) [OF sc s] d lt un unfolding sched_inv_def by simp
qed

lemma sched_txn_inv:
  assumes inv: "sched_inv cfg config ts d0 p txns fin st" and i: "i < length txns" "i \<notin> set fin" "loaded ts (txns ! i)"
    and cl: "cluster_ok config" "PartitionInfo_mk config ts = Inr (part_info tbl)" "\<not> ORIG_MODE cfg"
    and p: "p = part_info tbl"
  obtains st' where "sched_txn cfg tbl st i = Inr st'" "sched_inv cfg config ts d0 p txns (fin @ [i]) st'"
proof -
  let ?p = "part_info tbl" and ?ops = "cold_ops (txns ! i)"
  have sc: "sched_of config (ss_sched st)" and lr: "layout_regs (ss_layout st)"
    and sl0: "same_layout cfg d0 (ss_layout st)" and lt: "length (ss_txns st) = length txns" and at: "ss_txns st ! i = txns ! i"
    using inv i(2) unfolding sched_inv_def by blast+
  have ops: "length ?ops = N_OPS" "\<forall>op \<in> set ?ops. op_mode op \<noteq> INVALID" "\<And>op. op \<in> set ?ops \<Longrightarrow> op_id op < ts"
    and mk: "txns ! i = Txn_mk (loader_id (txns ! i)) ?ops"
    using i(3) unfolding loaded_def by blast+
  have "?ops \<noteq> []" using ops(1) by (auto simp: N_OPS_def)
  then have "0 < ts" using ops(3) [of "hd ?ops"] by simp
  with cl(2) have ps: "partition_size ?p \<noteq> 0" by (auto simp: PartitionInfo_mk_Inr dvd_div_eq_0_iff)
  obtain t d where t: "extract_hot_cold cfg tbl (Txn_mk (loader_id (txns ! i)) ?ops) (ss_layout st) = Inr (t, d)"
    "init_done t" "split_spec cfg (ss_layout st) (map (op_fill ?p) ?ops) t" "hottest_ok t" "layout_regs d"
    "\<And>k. is_hot cfg d k = is_hot cfg (ss_layout st) k \<and> loc_of cfg d k = loc_of cfg (ss_layout st) k"
    using extract_ok [OF ops(1,2) lr ps cl(3), of "loader_id (txns ! i)"] by metis
  have sd: "same_layout cfg d0 d" using sl0 t(6) by (simp add: same_layout_def fun_eq_iff)
  have spec: "split_spec cfg d0 (map (op_fill p) ?ops) t" using t(3) split_spec_same [OF sl0] p by simp
  have filled: "\<exists>op. cold_ops t ! j = op_fill ?p op \<and> op_id op < ts \<and> j < length (cold_ops t)"
    if "j < length (live_ops (cold_ops t))" for j
    using hottest_filled [OF t(3) that] ops(3) by metis
  have nd: "init_done (txns ! i) = False" by (subst mk) (simp add: Txn_mk_def)
  let ?st = "st\<lparr>ss_txns := (ss_txns st)[i := t], ss_layout := d\<rparr>"
  have e: "entry_to_txn (ss_txns ?st) i = Inr t" using i(1) lt by (simp add: entry_to_txn_def)
  have ext: "extract_hot_cold cfg tbl (txns ! i) (ss_layout st) = Inr (t, d)" using t(1) mk by simp
  have ati: "at_res (ss_txns st) i = Inr (txns ! i)" using i(1) lt at by simp
  show thesis
  proof (cases "if DO_SCHED cfg then hottest_cold_i1 t else None")
    case None
    let ?s = "zero_spray_idx st mod n_queues (ss_sched st)"
    have nq: "0 < n_queues (ss_sched st)" "n_queues (ss_sched st) = schedule_len (ss_sched st)"
      using sched_of_sel [OF sc] cl(1) by (simp_all add: cluster_ok_def)
    have sl: "?s < schedule_len (ss_sched st)" using nq mod_less_divisor [of "n_queues (ss_sched st)"] by simp
    have "slot_fits cfg config ts t ?s" using None by (simp add: slot_fits_def split: if_splits)
    note r = sched_inv_push [OF inv i(1,2) t(2) this sl t(5) sd spec, of "zero_spray_idx st + 1"]
    show thesis
      by (rule that [OF _ r])
        (use None nq push_queue_ok(1) [OF sc sl, of i] t(2) nd in \<open>simp add: sched_txn_def ati ext\<close>)
  next
    case (Some i1)
    then have h1: "DO_SCHED cfg" "hottest_cold_i1 t = Some i1" by (auto split: if_splits)
    then have "i1 < length (live_ops (cold_ops t))" using t(4) by (simp add: hottest_ok_def)
    then obtain o1 where o1: "i1 < length (cold_ops t)" "cold_ops t ! i1 = op_fill ?p o1" "op_id o1 < ts"
      using filled by blast
    have "i2 < length (cold_ops t) \<and> (\<exists>o2. cold_ops t ! i2 = op_fill ?p o2 \<and> op_id o2 < ts)"
      if "hottest_cold_i2 t = Some i2" for i2
      using filled [of i2] t(4) that by (auto simp: hottest_ok_def)
    then obtain s where s: "best_slot (ss_sched st) t i1 = Inr s" "s < schedule_len (ss_sched st)"
      "slot_owner config ts (op_id o1) s = unat (node_u32 (cfg_node_id config))"
      using best_slot_ok [OF sc cl(1,2) o1] by metis
    have "slot_fits cfg config ts t s" using h1 o1 s(3) by (simp add: slot_fits_def)
    note r = sched_inv_push [OF inv i(1,2) t(2) this s(2) t(5) sd spec, of "zero_spray_idx st"]
    show thesis
      by (rule that [OF _ r])
        (use Some push_queue_ok(1) [OF sc s(2), of i] t(2) nd s(1) e in \<open>simp add: sched_txn_def ati ext\<close>)
  qed
qed

lemma sched_txns_inv:
  assumes "sched_inv cfg config ts d0 p txns fin st" "distinct (fin @ is)"
    "\<forall>i \<in> set is. i < length txns \<and> loaded ts (txns ! i)"
    "cluster_ok config" "PartitionInfo_mk config ts = Inr (part_info tbl)" "\<not> ORIG_MODE cfg" "p = part_info tbl"
  shows "\<exists>st'. sched_txns cfg tbl st is = Inr st' \<and> sched_inv cfg config ts d0 p txns (fin @ is) st'"
  using assms
proof (induction "is" arbitrary: st fin)
  case (Cons i "is")
  have i: "i < length txns" "i \<notin> set fin" "loaded ts (txns ! i)" using Cons.prems(2,3) by auto
  obtain st1 where st1: "sched_txn cfg tbl st i = Inr st1" "sched_inv cfg config ts d0 p txns (fin @ [i]) st1"
    using sched_txn_inv [OF Cons.prems(1) i Cons.prems(4-7)] .
  have "\<exists>st'. sched_txns cfg tbl st1 is = Inr st' \<and> sched_inv cfg config ts d0 p txns ((fin @ [i]) @ is) st'"
    by (rule Cons.IH [OF st1(2)]) (use Cons.prems in auto)
  with st1(1) show ?case by simp
qed simp

lemma sched_batch_ok:
  assumes "cluster_ok config" "PartitionInfo_mk config ts = Inr (part_info tbl)" "\<not> ORIG_MODE cfg" "layout_regs d"
    and "sched_of config sc" "\<forall>q \<in> set (mb_queues sc). q = []" "end \<le> length txns"
    and "\<forall>i. start \<le> i \<longrightarrow> i < end \<longrightarrow> loaded ts (txns ! i)"
  obtains sc' d' txns' where "sched_batch cfg tbl sc d txns start end = Inr (sc', d', txns')"
    "sched_of config sc'" "mset (concat (mb_queues sc')) = mset [start..<end]" "length txns' = length txns"
    "\<And>s i. s < schedule_len sc' \<Longrightarrow> i \<in> set (mb_queues sc' ! s) \<Longrightarrow>
       init_done (txns' ! i) \<and> slot_fits cfg config ts (txns' ! i) s"
    "\<And>i. start \<le> i \<Longrightarrow> i < end \<Longrightarrow> split_spec cfg d (map (op_fill (part_info tbl)) (cold_ops (txns ! i))) (txns' ! i)"
proof -
  let ?p = "part_info tbl"
  let ?st = "\<lparr>ss_sched = sc, ss_txns = txns, ss_layout = d, zero_spray_idx = 0\<rparr>"
  have len: "length (mb_queues sc) = schedule_len sc" using assms(5) by (simp add: sched_of_def)
  have "concat (mb_queues sc) = []" using assms(6) by simp
  moreover have "mb_queues sc ! s = []" if "s < schedule_len sc" for s using assms(6) that len by simp
  ultimately have "sched_inv cfg config ts d ?p txns [] ?st"
    using assms(4,5) by (simp add: sched_inv_def same_layout_def)
  then obtain st where st: "sched_txns cfg tbl ?st [start..<end] = Inr st" "sched_inv cfg config ts d ?p txns [start..<end] st"
    using sched_txns_inv [of cfg config ts d ?p txns "[]" ?st "[start..<end]" tbl] assms by auto
  have "\<forall>q \<in> set (take (n_queues sc) (mb_queues sc)). q = []" using assms(6) in_set_takeD by metis
  then have "sched_batch cfg tbl sc d txns start end = Inr (ss_sched st, ss_layout st, ss_txns st)"
    unfolding sched_batch_def by (simp only: st(1) bind_res_simps assert_res_simps) (simp add: st(1))
  with st(2) that show thesis unfolding sched_inv_def by simp
qed

text \<open>
  C16. Scheduling a batch. On a cluster of 2 to 256 nodes, scheduling loaded transactions never
  fails (in particular a slot is always found): every transaction of the batch enters exactly
  one queue, is split as \<open>split_spec\<close> says, and if it has a hottest cold key the queue's slot is
  one that the key's schedule grants to this node.
\<close>

theorem sched_batch_correct:
  assumes "cluster_ok config" "PartitionInfo_mk config ts = Inr (part_info tbl)" "\<not> ORIG_MODE cfg" "layout_wf d"
    and "end \<le> length txns" "\<forall>i. start \<le> i \<longrightarrow> i < end \<longrightarrow> loaded ts (txns ! i)"
  shows "\<exists>sc d' txns'. sched_batch cfg tbl (scheduler_mk config) d txns start end = Inr (sc, d', txns') \<and>
    mset (concat (mb_queues sc)) = mset [start..<end] \<and>
    (\<forall>s < schedule_len sc. \<forall>i \<in> set (mb_queues sc ! s).
       init_done (txns' ! i) \<and> slot_fits cfg config ts (txns' ! i) s) \<and>
    (\<forall>i. start \<le> i \<longrightarrow> i < end \<longrightarrow>
       split_spec cfg d (map (op_fill (part_info tbl)) (cold_ops (txns ! i))) (txns' ! i))"
proof -
  have "sched_of config (scheduler_mk config)" by (simp add: sched_of_def scheduler_mk_def Let_def)
  moreover have "\<forall>q \<in> set (mb_queues (scheduler_mk config)). q = []" by (simp add: scheduler_mk_def Let_def)
  ultimately show ?thesis
    using sched_batch_ok [OF assms(1-3) layout_wf_regs [OF assms(4)] _ _ assms(5,6)] by metis
qed

text \<open>
  C10. Nodes take turns. If two different nodes of a cluster each have a scheduled transaction
  with the same hottest cold key, the transactions are in different slots: within a slot, a hot
  key is used by the transactions of one node.
\<close>

theorem sched_slots_separate_nodes:
  assumes "cluster_ok (on_node config a)" "cluster_ok (on_node config b)"
    and "PartitionInfo_mk (on_node config a) ts = Inr (part_info tbla)" "PartitionInfo_mk (on_node config b) ts = Inr (part_info tblb)"
    and "\<not> ORIG_MODE cfg" "DO_SCHED cfg" "layout_wf d" "a < 256" "b < 256" "a \<noteq> b"
    and "\<forall>i < length ta. loaded ts (ta ! i)" "\<forall>i < length tb. loaded ts (tb ! i)"
    and "sched_batch cfg tbla (scheduler_mk (on_node config a)) d ta 0 (length ta) = Inr (sa, da, ta')"
    and "sched_batch cfg tblb (scheduler_mk (on_node config b)) d tb 0 (length tb) = Inr (sb, db, tb')"
    and "s < schedule_len sa" "s' < schedule_len sb" "i \<in> set (mb_queues sa ! s)" "j \<in> set (mb_queues sb ! s')"
    and "hottest_cold_i1 (ta' ! i) = Some x" "hottest_cold_i1 (tb' ! j) = Some y"
    and "op_id (cold_ops (ta' ! i) ! x) = op_id (cold_ops (tb' ! j) ! y)"
  shows "s \<noteq> s'"
proof -
  have run: "slot_owner config ts (op_id (cold_ops (t' ! i) ! x)) s = n"
    if h: "cluster_ok (on_node config n)" "PartitionInfo_mk (on_node config n) ts = Inr (part_info tbl)" "n < 256"
      "\<forall>i < length t. loaded ts (t ! i)"
      "sched_batch cfg tbl (scheduler_mk (on_node config n)) d t 0 (length t) = Inr (sc, d', t')"
      "s < schedule_len sc" "i \<in> set (mb_queues sc ! s)" "hottest_cold_i1 (t' ! i) = Some x" for n tbl t sc d' t' s i x
  proof -
    let ?c = "on_node config n"
    have mk: "sched_of ?c (scheduler_mk ?c)" "\<forall>q \<in> set (mb_queues (scheduler_mk ?c)). q = []"
      by (simp_all add: sched_of_def scheduler_mk_def Let_def)
    have ld: "\<forall>i. 0 \<le> i \<longrightarrow> i < length t \<longrightarrow> loaded ts (t ! i)" using h(4) by simp
    have "slot_fits cfg ?c ts (t' ! i) s"
      using sched_batch_ok [OF h(1,2) assms(5) layout_wf_regs [OF assms(7)] mk order_refl ld] h(5-7)
      by (metis Inr_inject prod.inject)
    moreover have "unat (node_u32 (word_of_nat n)) = n" using h(3) by (simp add: unat_of_nat)
    moreover have "slot_owner ?c ts = slot_owner config ts"
      by (auto simp: n_extra_local_def slot_owner_def fun_eq_iff)
    ultimately show ?thesis using h(8) assms(6) by (simp add: slot_fits_def)
  qed
  have "slot_owner config ts (op_id (cold_ops (ta' ! i) ! x)) s = a"
    by (rule run [OF assms(1,3,8,11,13,15,17,19)])
  moreover have "slot_owner config ts (op_id (cold_ops (tb' ! j) ! y)) s' = b"
    by (rule run [OF assms(2,4,9,12,14,16,18,20)])
  ultimately show ?thesis using assms(10,21) by auto
qed

section \<open>An example\<close>

text \<open>
  Seventy-three keys of frequency one: the first 72 fill slot 0 of the registers in turn, and
  key 0, the last, is a register's second key.
\<close>

definition sched_demo_freq :: "(db_key \<times> nat) list" where
  "sched_demo_freq = map (\<lambda>i. (i, 1)) [0..<73]"

lemma sched_demo_order: "layout_order sched_demo_freq = map (\<lambda>i. (72 - i, 1)) [0..<72] @ [(0, 1)]"
proof -
  have "sort_key (\<lambda>(k, f). (f, k)) sched_demo_freq = sched_demo_freq"
    by (rule sort_key_id_if_sorted) (simp add: sched_demo_freq_def comp_def sorted_iff_nth_mono)
  then have "layout_order sched_demo_freq = rev (map (\<lambda>i. (i, 1)) [0..<73])"
    by (simp add: layout_order_def) (simp add: sched_demo_freq_def)
  also have "\<dots> = map (\<lambda>i. (72 - i, 1)) [0..<72] @ [(0, 1)]"
    by (rule nth_equalityI) (auto simp: rev_nth nth_append)
  finally show ?thesis .
qed

lemma argmin_first_zero: "0 < n \<Longrightarrow> argmin_scan (replicate m 1 @ replicate n 0) = m"
proof -
  assume n: "0 < n"
  let ?w = "replicate m (1 :: nat) @ replicate n 0" and ?a = "argmin_scan (replicate m 1 @ replicate n 0)"
  have ne: "?w \<noteq> []" using n by auto
  have "?w ! ?a \<le> ?w ! m" by (rule argmin_scan_least) (use n in simp)
  moreover have "?w ! m = 0" using n by (simp add: nth_append)
  ultimately have z: "?w ! ?a = 0" by simp
  have "\<not> ?a < m" using z by (auto simp: nth_append)
  moreover have "\<not> m < ?a" using argmin_scan_first [OF _ ne, of m] \<open>?w ! m = 0\<close> by fastforce
  ultimately show ?thesis by simp
qed

lemma place_round_robin:
  "m \<le> N_REGS \<Longrightarrow>
   weight (foldl layout_place layout_start (map (\<lambda>i. (f i, 1)) [0..<m])) = replicate m 1 @ replicate (N_REGS - m) 0 \<and>
   idx_to_alloc (foldl layout_place layout_start (map (\<lambda>i. (f i, 1)) [0..<m])) = replicate m 1 @ replicate (N_REGS - m) 0"
proof (induction m)
  case (Suc m)
  let ?b = "foldl layout_place layout_start (map (\<lambda>i. (f i, 1)) [0..<m])"
  have n: "N_REGS - m = Suc (N_REGS - Suc m)" using Suc.prems by simp
  have w: "weight ?b = replicate m 1 @ replicate (N_REGS - m) 0" "idx_to_alloc ?b = replicate m 1 @ replicate (N_REGS - m) 0"
    using Suc by simp_all
  have a: "argmin_scan (weight ?b) = m" unfolding w(1) by (rule argmin_first_zero) (simp add: n)
  have upd: "(replicate m (1 :: nat) @ replicate (N_REGS - m) 0)[m := 1] = replicate (Suc m) 1 @ replicate (N_REGS - Suc m) 0"
    by (simp only: n list_update_append length_replicate) (simp add: replicate_append_same)
  have z: "(replicate m (1 :: nat) @ replicate (N_REGS - m) 0) ! m = 0" by (simp only: n nth_append) simp
  have st: "foldl layout_place layout_start (map (\<lambda>i. (f i, 1)) [0..<Suc m]) = layout_place ?b (f m, 1)"
    by simp
  have "size_add 0 1 = 1" by (simp add: size_add_def)
  then show ?case unfolding st layout_place_sel w a [unfolded w(1)] z by (simp only: upd add_0 simp_thms)
qed (simp add: layout_start_def)

text \<open>Key 0 is the second key of its register: with one slot per register it stays on the host.\<close>

lemma sched_demo_layout:
  obtains d where "DeclusteredLayout_mk layout_demo_cfg sched_demo_freq = Inr d" "layout_wf d"
    "\<not> is_hot layout_demo_cfg d 0" "dist_freq (loc_of layout_demo_cfg d 0) = 1"
proof -
  let ?ps = "map (\<lambda>i. (72 - i, 1 :: nat)) [0..<72]"
  define b where "b = foldl layout_place layout_start ?ps"
  let ?b = b
  have w: "weight ?b = replicate N_REGS 1" "idx_to_alloc ?b = replicate N_REGS 1"
    using place_round_robin [of N_REGS "\<lambda>i. 72 - i"] unfolding b_def by (simp_all add: N_REGS_def)
  have "argmin_scan (weight ?b) < N_REGS" by (rule argmin_regs) (simp add: w)
  then have loc: "unat (reg_array_idx (place_loc ?b 1)) = 1" "dist_freq (place_loc ?b 1) = 1"
    by (simp_all add: place_loc_def Let_def w)
  have d0: "distinct (map fst sched_demo_freq)" "length sched_demo_freq \<le> 65536"
    by (simp_all add: sched_demo_freq_def comp_def)
  have "inj_on (\<lambda>i. 72 - i) {0..<72 :: nat}" by (auto simp: inj_on_def)
  then have "layout_inv ?b ?ps"
    using foldl_place_inv [OF layout_inv_start, of ?ps, folded b_def] by (simp add: comp_def distinct_map sorted_wrt_iff_nth_less)
  then have "dom (lb_map ?b) = fst ` set ?ps" by (simp add: layout_inv_def)
  then have "0 \<notin> dom (lb_map ?b)" by auto
  then have "lb_map ?b 0 = None" by blast
  then have vm: "lb_map (layout_placed sched_demo_freq) 0 = Some (place_loc ?b 1)"
    by (simp only: layout_placed_def sched_demo_order foldl_append foldl_Cons foldl_Nil layout_place_sel flip: b_def) (simp add: emplace_def)
  have "N_ACCEL_KEYS layout_demo_cfg = 72" by (simp add: N_ACCEL_KEYS_def N_REGS_def layout_demo_cfg_def default_build_def)
  moreover have "length sched_demo_freq = 73" by (simp add: sched_demo_freq_def)
  ultimately obtain d where d: "DeclusteredLayout_mk layout_demo_cfg sched_demo_freq = Inr d"
    "virt_map d = lb_map (layout_placed sched_demo_freq)"
    by (simp add: DeclusteredLayout_mk_def at_res_def)
  have "SLOTS_PER_SCHED_BLOCK layout_demo_cfg = 1" by (simp add: layout_demo_cfg_def)
  then show thesis
    using that [OF d(1) layout_mk_wf(1) [OF d(1) d0]] get_location_known [of d 0 "place_loc ?b 1" layout_demo_cfg] loc
    by (simp add: is_hot_def loc_of_def d(2) vm)
qed

definition sched_demo_txn :: Txn where
  "sched_demo_txn = Txn_mk 1 (replicate N_OPS (OP_zero\<lparr>op_mode := WRITE\<rparr>))"

lemma sched_demo_loaded: "loaded 40 sched_demo_txn"
  by (simp add: loaded_def sched_demo_txn_def Txn_mk_def OP_zero_def)

definition sched_demo_table :: "nat \<Rightarrow> StructTable" where
  "sched_demo_table n = txn_demo_table\<lparr>part_info := projr (PartitionInfo_mk (on_node part_demo n) 40)\<rparr>"

lemma sched_demo_part: "PartitionInfo_mk (on_node part_demo n) 40 = Inr (part_info (sched_demo_table n))"
  by (simp add: sched_demo_table_def part_demo_def PartitionInfo_mk_def)

lemma sched_demo_cfg:
  "n < 4 \<Longrightarrow> cluster_ok (on_node part_demo n)" "\<not> ORIG_MODE layout_demo_cfg" "DO_SCHED layout_demo_cfg"
  by (auto simp: cluster_ok_def part_demo_def unat_of_nat layout_demo_cfg_def default_build_def)

lemma sched_demo_split:
  assumes "\<not> is_hot layout_demo_cfg d 0" "dist_freq (loc_of layout_demo_cfg d 0) = 1"
    and "split_spec layout_demo_cfg d (map (op_fill p) (cold_ops sched_demo_txn)) t"
  obtains x where "hottest_cold_i1 t = Some x" "op_id (cold_ops t ! x) = 0"
proof -
  let ?op = "OP_zero\<lparr>op_mode := WRITE\<rparr>"
  let ?all = "replicate N_OPS (op_fill p ?op)"
  have all: "map (op_fill p) (cold_ops sched_demo_txn) = ?all" by (simp add: sched_demo_txn_def Txn_mk_def)
  have z: "op_id (op_fill p ?op) = 0" "op_id OP_zero = 0" by (simp_all add: op_fill_def OP_zero_def)
  have "op_regs layout_demo_cfg d ?all = []" using assms(1) by (simp add: op_regs_def filter_replicate z)
  then have "do_accel t" using assms(3) unfolding all split_spec_def by (simp add: Let_def)
  then have c: "live_ops (cold_ops t) = ?all" and
    h: "case hottest_cold_i1 t of None \<Rightarrow> \<forall>op \<in> set ?all. op_freq layout_demo_cfg d op = 0 | Some j \<Rightarrow> j < length ?all"
    using assms(1,3) unfolding all split_spec_def by (auto simp: Let_def filter_replicate z split: option.splits)
  have "N_OPS > 0" by (simp add: N_OPS_def)
  then obtain x where x: "hottest_cold_i1 t = Some x" "x < N_OPS" using h assms(2) z by (cases "hottest_cold_i1 t") auto
  have "cold_ops t ! x = ?all ! x"
    using c x(2) takeWhile_nth [of x "\<lambda>op. op_mode op \<noteq> INVALID" "cold_ops t"] by (simp add: live_ops_def)
  with x z that show thesis by simp
qed

lemma sched_demo_run:
  assumes "n < 4" "layout_wf d" "\<not> is_hot layout_demo_cfg d 0" "dist_freq (loc_of layout_demo_cfg d 0) = 1"
  obtains sc d' t s x where
    "sched_batch layout_demo_cfg (sched_demo_table n) (scheduler_mk (on_node part_demo n)) d [sched_demo_txn] 0 (length [sched_demo_txn])
       = Inr (sc, d', t)"
    "s < schedule_len sc" "0 \<in> set (mb_queues sc ! s)" "hottest_cold_i1 (t ! 0) = Some x" "op_id (cold_ops (t ! 0) ! x) = 0"
proof -
  let ?c = "on_node part_demo n"
  have mk: "sched_of ?c (scheduler_mk ?c)" "\<forall>q \<in> set (mb_queues (scheduler_mk ?c)). q = []"
    by (simp_all add: sched_of_def scheduler_mk_def Let_def)
  have ld: "\<forall>i. 0 \<le> i \<longrightarrow> i < length [sched_demo_txn] \<longrightarrow> loaded 40 ([sched_demo_txn] ! i)" using sched_demo_loaded by simp
  obtain sc d' t where b:
    "sched_batch layout_demo_cfg (sched_demo_table n) (scheduler_mk ?c) d [sched_demo_txn] 0 (length [sched_demo_txn]) = Inr (sc, d', t)"
    "sched_of ?c sc" "mset (concat (mb_queues sc)) = mset [0..<length [sched_demo_txn]]"
    "split_spec layout_demo_cfg d (map (op_fill (part_info (sched_demo_table n))) (cold_ops sched_demo_txn)) (t ! 0)"
    using sched_batch_ok [OF sched_demo_cfg(1) [OF assms(1)] sched_demo_part sched_demo_cfg(2) layout_wf_regs [OF assms(2)] mk order_refl ld]
    by (metis length_Cons list.size(3) nth_Cons_0 order_refl zero_less_Suc)
  have "0 \<in> set (concat (mb_queues sc))" using b(3) by (metis atLeastLessThan_iff le0 length_Cons set_mset_mset set_upt zero_less_Suc)
  then obtain s where "s < schedule_len sc" "0 \<in> set (mb_queues sc ! s)"
    using b(2) by (auto simp: sched_of_def in_set_conv_nth [of _ "mb_queues sc"])
  with that [OF b(1)] sched_demo_split [OF assms(3,4) b(4)] show thesis by metis
qed

theorem sched_batch_correct_witness:
  "\<exists>d sc d' txns'. DeclusteredLayout_mk layout_demo_cfg sched_demo_freq = Inr d \<and>
     sched_batch layout_demo_cfg (sched_demo_table 1) (scheduler_mk (on_node part_demo 1)) d [sched_demo_txn] 0 1 = Inr (sc, d', txns') \<and>
     mset (concat (mb_queues sc)) = {#0#}"
proof -
  obtain d where d: "DeclusteredLayout_mk layout_demo_cfg sched_demo_freq = Inr d" "layout_wf d" by (rule sched_demo_layout)
  have c: "cluster_ok (on_node part_demo 1)" by (rule sched_demo_cfg) simp
  have "\<forall>i. 0 \<le> i \<longrightarrow> i < 1 \<longrightarrow> loaded 40 ([sched_demo_txn] ! i)" using sched_demo_loaded by simp
  from sched_batch_correct [OF c sched_demo_part sched_demo_cfg(2) d(2) _ this] d(1) show ?thesis by auto
qed

theorem sched_slots_separate_nodes_witness:
  "\<exists>d sa da ta s sb db tb s'. DeclusteredLayout_mk layout_demo_cfg sched_demo_freq = Inr d \<and>
     sched_batch layout_demo_cfg (sched_demo_table 0) (scheduler_mk (on_node part_demo 0)) d [sched_demo_txn] 0 1 = Inr (sa, da, ta) \<and>
     sched_batch layout_demo_cfg (sched_demo_table 1) (scheduler_mk (on_node part_demo 1)) d [sched_demo_txn] 0 1 = Inr (sb, db, tb) \<and>
     0 \<in> set (mb_queues sa ! s) \<and> 0 \<in> set (mb_queues sb ! s') \<and> s \<noteq> s'"
proof -
  obtain d where d: "DeclusteredLayout_mk layout_demo_cfg sched_demo_freq = Inr d" "layout_wf d"
    "\<not> is_hot layout_demo_cfg d 0" "dist_freq (loc_of layout_demo_cfg d 0) = 1" by (rule sched_demo_layout)
  obtain sa da ta s x where A:
    "sched_batch layout_demo_cfg (sched_demo_table 0) (scheduler_mk (on_node part_demo 0)) d [sched_demo_txn] 0 (length [sched_demo_txn])
       = Inr (sa, da, ta)"
    "s < schedule_len sa" "0 \<in> set (mb_queues sa ! s)" "hottest_cold_i1 (ta ! 0) = Some x" "op_id (cold_ops (ta ! 0) ! x) = 0"
    by (rule sched_demo_run [OF _ d(2-4), of 0]) simp_all
  obtain sb db tb s' y where B:
    "sched_batch layout_demo_cfg (sched_demo_table 1) (scheduler_mk (on_node part_demo 1)) d [sched_demo_txn] 0 (length [sched_demo_txn])
       = Inr (sb, db, tb)"
    "s' < schedule_len sb" "0 \<in> set (mb_queues sb ! s')" "hottest_cold_i1 (tb ! 0) = Some y" "op_id (cold_ops (tb ! 0) ! y) = 0"
    by (rule sched_demo_run [OF _ d(2-4), of 1]) simp_all
  have c: "cluster_ok (on_node part_demo 0)" "cluster_ok (on_node part_demo 1)" by (rule sched_demo_cfg(1); simp)+
  have l: "\<forall>i < length [sched_demo_txn]. loaded 40 ([sched_demo_txn] ! i)" using sched_demo_loaded by simp
  have "s \<noteq> s'"
    by (rule sched_slots_separate_nodes [OF c sched_demo_part sched_demo_part sched_demo_cfg(2,3) d(2) _ _ _ l l
          A(1) B(1) A(2) B(2) A(3) B(3) A(4) B(4)]) (simp_all add: A(5) B(5))
  with A(1,3) B(1,3) d(1) show ?thesis by (metis One_nat_def length_Cons list.size(3))
qed

end
