(* ===== verification/P4_Switch.thy ===== *)
theory P4_Switch
  imports P4_Sched P4_Pools
begin

text \<open>
  The switch packets of \<open>ee/switch.cpp\<close>: the one-pass packet, with one instruction per switch
  register, and the generic packet, with a list of instructions.
\<close>

section \<open>Byte order\<close>

definition htons :: "u16 \<Rightarrow> u16" where
  "htons x = push_bit 8 x OR drop_bit 8 x"

definition htonl :: "u32 \<Rightarrow> u32" where
  "htonl x = push_bit 24 (take_bit 8 x) OR push_bit 16 (take_bit 8 (drop_bit 8 x)) OR
     push_bit 8 (take_bit 8 (drop_bit 16 x)) OR drop_bit 24 x"

abbreviation ntohl :: "u32 \<Rightarrow> u32" where
  "ntohl \<equiv> htonl"

abbreviation ntohs :: "u16 \<Rightarrow> u16" where
  "ntohs \<equiv> htons"

lemma bit_htons: "bit (htons x) n \<longleftrightarrow> (if n < 8 then bit x (n + 8) else n < 16 \<and> bit x (n - 8))"
  by (auto simp: htons_def bit_simps ac_simps dest: bit_imp_le_length)

lemma ntohs_htons [simp]: "ntohs (htons x) = x"
  by (rule bit_word_eqI) (auto simp: bit_htons)

lemma bit_htonl:
  "bit (htonl x) n \<longleftrightarrow>
     (if n < 8 then bit x (n + 24) else if n < 16 then bit x (n + 8)
      else if n < 24 then bit x (n - 8) else n < 32 \<and> bit x (n - 24))"
proof -
  consider "n < 8" | "8 \<le> n" "n < 16" | "16 \<le> n" "n < 24" | "24 \<le> n" by linarith
  then show ?thesis
    by cases (auto simp: htonl_def bit_simps ac_simps dest: bit_imp_le_length)
qed

lemma ntohl_htonl [simp]: "ntohl (htonl x) = x"
proof (rule bit_word_eqI)
  fix n
  assume "n < LENGTH(32)"
  then consider "n < 8" | "8 \<le> n" "n < 16" | "16 \<le> n" "n < 24" | "24 \<le> n" "n < 32" by fastforce
  then show "bit (ntohl (htonl x)) n = bit x n" by cases (auto simp: bit_htonl)
qed

section \<open>Packets\<close>

definition STOP :: u8 where "STOP = 0x80"
definition UID_HDR :: "u8 list" where
  "UID_HDR = [0xBE, 0x87, 0xEF, 0x7E, 0x61, 0x3C, 0x4B, 0x33, 0x82, 0xEB, 0x90, 0x66, 0x3A, 0x40, 0x3D, 0xAE]"
definition N_OFFSET_BITS :: nat where "N_OFFSET_BITS = 7"
definition N_INSTRS_PADDED :: nat where "N_INSTRS_PADDED = 20"
definition PERM_BIT_POS :: nat where "PERM_BIT_POS = 7"
definition MAX_HOT_OPS :: nat where "MAX_HOT_OPS = 8"

record pass1_normal_instr =
  idx_perm_mask :: u8
  data_be :: u32

record pass1_padded_instr =
  padding :: u8
  reg_instr :: pass1_normal_instr

record generic_instr =
  g_type :: u8
  g_op :: u8
  g_idx_be :: u16
  g_data_be :: u32

record network_hdr =
  dst_mac :: "u8 list"
  src_mac :: "u8 list"
  ether_type :: u16
  uid :: "u8 list"

record pass1_pkt =
  net_hdr :: network_hdr
  base_offset :: u16
  padded_instrs :: "pass1_padded_instr list"
  normal_instrs :: "pass1_normal_instr list"

record generic_pkt =
  g_net_hdr :: network_hdr
  locks_check_nb :: u32
  locks_acquire_nb :: u32
  locks_undo_nb :: u32
  is_second_pass :: u8
  n_failed :: u8
  g_instrs :: "generic_instr list"

text \<open>The addresses that \<open>fill_network_hdr\<close> takes from the configuration.\<close>

record net_conf =
  switch_mac :: "u8 list"
  node_mac :: "u8 list"
  p4db_ether_type :: u16

definition fill_network_hdr :: "net_conf \<Rightarrow> network_hdr" where
  "fill_network_hdr nc = \<lparr>dst_mac = switch_mac nc, src_mac = node_mac nc,
     ether_type = htons (p4db_ether_type nc), uid = UID_HDR\<rparr>"

definition fill_reg_instr :: "hot_op \<Rightarrow> generic_instr" where
  "fill_reg_instr pr = \<lparr>g_type = 1 + reg_array_id (snd pr), g_op = mode_byte (op_mode (fst pr)),
     g_idx_be = htons (reg_array_idx (snd pr)), g_data_be = htonl (op_value (fst pr))\<rparr>"

section \<open>Encoding\<close>

text \<open>The first slot of the 128-slot window that holds the tenant's block.\<close>

definition base_of :: "build_cfg \<Rightarrow> DeclusteredLayout \<Rightarrow> u64" where
  "base_of cfg d = word_of_nat (block_num d * SLOTS_PER_SCHED_BLOCK cfg) AND NOT (push_bit N_OFFSET_BITS 1 - 1)"

definition clear_masks :: "pass1_pkt \<Rightarrow> pass1_pkt" where
  "clear_masks pkt = pkt\<lparr>
     padded_instrs := map (\<lambda>pi. pi\<lparr>reg_instr := (reg_instr pi)\<lparr>idx_perm_mask := 0\<rparr>\<rparr>) (padded_instrs pkt),
     normal_instrs := map (\<lambda>ins. ins\<lparr>idx_perm_mask := 0\<rparr>) (normal_instrs pkt)\<rparr>"

text \<open>The instruction of a register: where the packet keeps it, and its update.\<close>

definition get_instr :: "pass1_pkt \<Rightarrow> nat \<Rightarrow> pass1_normal_instr result" where
  "get_instr pkt r =
     (if r < N_INSTRS_PADDED then bind_res (at_res (padded_instrs pkt) r) (\<lambda>pi. ok (reg_instr pi))
      else at_res (normal_instrs pkt) (r - N_INSTRS_PADDED))"

definition put_instr :: "pass1_pkt \<Rightarrow> nat \<Rightarrow> pass1_normal_instr \<Rightarrow> pass1_pkt result" where
  "put_instr pkt r ins =
     (if r < N_INSTRS_PADDED
      then bind_res (at_res (padded_instrs pkt) r) (\<lambda>pi.
        ok (pkt\<lparr>padded_instrs := (padded_instrs pkt)[r := pi\<lparr>reg_instr := ins\<rparr>]\<rparr>))
      else bind_res (at_res (normal_instrs pkt) (r - N_INSTRS_PADDED)) (\<lambda>_.
        ok (pkt\<lparr>normal_instrs := (normal_instrs pkt)[r - N_INSTRS_PADDED := ins]\<rparr>)))"

primrec fill_pass1 :: "u64 \<Rightarrow> pass1_pkt \<Rightarrow> hot_op list \<Rightarrow> pass1_pkt result" where
  "fill_pass1 base pkt [] = ok pkt"
| "fill_pass1 base pkt (pr # prs) =
     (let r = unat (reg_array_id (snd pr));
          idx = ucast (reg_array_idx (snd pr)) - base;
          is_write_bits = (if op_mode (fst pr) = WRITE then push_bit PERM_BIT_POS 1 else 0) in
      bind_res (assert_res (idx AND (push_bit N_OFFSET_BITS 1 - 1) = idx)) (\<lambda>_.
      bind_res (put_instr pkt r \<lparr>idx_perm_mask = ucast (is_write_bits OR idx), data_be = htonl (op_value (fst pr))\<rparr>) (\<lambda>pkt.
        fill_pass1 base pkt prs)))"

definition make_txn_pass1 :: "build_cfg \<Rightarrow> net_conf \<Rightarrow> DeclusteredLayout \<Rightarrow> Txn \<Rightarrow> pass1_pkt \<Rightarrow> pass1_pkt result" where
  "make_txn_pass1 cfg nc d txn pkt =
     (let base = base_of cfg d in
      bind_res (assert_res (unat base < 65535)) (\<lambda>_.
        fill_pass1 base (clear_masks (pkt\<lparr>net_hdr := fill_network_hdr nc, base_offset := htons (ucast base)\<rparr>))
          (live_hot (hot_ops_pass1 txn))))"

definition make_txn_generic :: "build_cfg \<Rightarrow> net_conf \<Rightarrow> Txn \<Rightarrow> generic_pkt \<Rightarrow> generic_pkt result" where
  "make_txn_generic cfg nc txn pkt =
     (let h1 = live_hot (hot_ops_pass1 txn); h2 = live_hot (hot_ops_pass2 txn);
          ins1 = map fill_reg_instr h1; off1 = length h1;
          ins2 = map fill_reg_instr h2;
          fits = (\<lambda>n. n < length (g_instrs pkt));
          is1 = ins1 @ drop off1 (g_instrs pkt) in
      bind_res (if off1 > length (g_instrs pkt) then fail OutOfBounds
        else if MAX_PASSES_ACCEL cfg > 1 then
          (let p = length h2; is2 = ins1 @ ins2 @ drop (off1 + p) (g_instrs pkt) in
           if \<not> fits (off1 + p) then fail OutOfBounds
           else let is3 = is2[off1 := (is2 ! off1)\<lparr>g_type := g_type (is2 ! off1) OR STOP\<rparr>] in
             ok (is3[off1 + p := (is3 ! (off1 + p))\<lparr>g_type := STOP\<rparr>]))
        else if \<not> fits off1 then fail OutOfBounds
        else ok (is1[off1 := (is1 ! off1)\<lparr>g_type := STOP\<rparr>])) (\<lambda>is.
      ok (pkt\<lparr>g_net_hdr := fill_network_hdr nc, g_instrs := is, locks_check_nb := htonl (locks_check txn),
            locks_acquire_nb := htonl (locks_acquire txn), locks_undo_nb := 0, is_second_pass := 0, n_failed := 0\<rparr>)))"

text \<open>\<open>USE_1PASS_PKTS\<close> is true in every build: \<open>make_txn\<close> fills a one-pass packet, and
  \<open>make_txn_generic\<close> is the branch for the other value.\<close>

definition make_txn :: "build_cfg \<Rightarrow> net_conf \<Rightarrow> DeclusteredLayout \<Rightarrow> Txn \<Rightarrow> pass1_pkt \<Rightarrow> pass1_pkt result" where
  "make_txn cfg nc d txn pkt =
     bind_res (assert_res (do_accel txn)) (\<lambda>_. make_txn_pass1 cfg nc d txn pkt)"

section \<open>Replies\<close>

text \<open>
  \<open>process_reply_txn\<close> with \<open>write\<close> set, for one-pass packets: each operation's key gets the value in
  the reply. The source reads \<open>normal_instrs[reg_array_id]\<close> without the offset that \<open>make_txn\<close>
  subtracts.
\<close>

definition reply_instr :: "pass1_pkt \<Rightarrow> nat \<Rightarrow> pass1_normal_instr result" where
  "reply_instr pkt r =
     (if r < N_INSTRS_PADDED then bind_res (at_res (padded_instrs pkt) r) (\<lambda>pi. ok (reg_instr pi))
      else at_res (normal_instrs pkt) r)"

definition lockless_write :: "StructTable \<Rightarrow> db_key \<Rightarrow> u32 \<Rightarrow> StructTable result" where
  "lockless_write t k v =
     bind_res (lockless_access t k) (\<lambda>i.
       ok (t\<lparr>t_data := (t_data t)[i := (t_data t ! i)\<lparr>r_tuple := (r_tuple (t_data t ! i))\<lparr>kv_value := v\<rparr>\<rparr>]\<rparr>))"

primrec process_reply :: "StructTable \<Rightarrow> pass1_pkt \<Rightarrow> bool \<Rightarrow> hot_op list \<Rightarrow> StructTable result" where
  "process_reply t pkt wr [] = ok t"
| "process_reply t pkt wr (pr # prs) =
     bind_res (if wr then bind_res (reply_instr pkt (unat (reg_array_id (snd pr)))) (\<lambda>ins.
                           lockless_write t (op_id (fst pr)) (ntohl (data_be ins)))
               else ok t) (\<lambda>t. process_reply t pkt wr prs)"

definition process_reply_txn :: "StructTable \<Rightarrow> Txn \<Rightarrow> pass1_pkt \<Rightarrow> bool \<Rightarrow> StructTable result" where
  "process_reply_txn t txn pkt wr = process_reply t pkt wr (live_hot (hot_ops_pass1 txn))"

section \<open>What the switch reads\<close>

definition pkt_shape :: "pass1_pkt \<Rightarrow> bool" where
  "pkt_shape pkt \<longleftrightarrow> length (padded_instrs pkt) = N_INSTRS_PADDED \<and> length (normal_instrs pkt) = N_REGS - N_INSTRS_PADDED"

text \<open>The access the packet asks of a register: slot, whether it writes, and the value.\<close>

definition reg_access :: "pass1_pkt \<Rightarrow> nat \<Rightarrow> (nat \<times> bool \<times> u32) result" where
  "reg_access pkt r =
     bind_res (get_instr pkt r) (\<lambda>ins.
       ok (unat (ntohs (base_offset pkt)) + unat (take_bit N_OFFSET_BITS (idx_perm_mask ins)),
           bit (idx_perm_mask ins) PERM_BIT_POS, ntohl (data_be ins)))"

lemma put_instr_ok:
  assumes "pkt_shape pkt" "r < N_REGS"
  obtains pkt' where "put_instr pkt r ins = Inr pkt'" "pkt_shape pkt'" "base_offset pkt' = base_offset pkt"
    "\<And>r'. r' < N_REGS \<Longrightarrow> get_instr pkt' r' = (if r' = r then Inr ins else get_instr pkt r')"
proof (cases "r < N_INSTRS_PADDED")
  case True
  let ?pkt = "pkt\<lparr>padded_instrs := (padded_instrs pkt)[r := (padded_instrs pkt ! r)\<lparr>reg_instr := ins\<rparr>]\<rparr>"
  show thesis
    by (rule that [of ?pkt])
      (use True assms in \<open>auto simp: put_instr_def get_instr_def pkt_shape_def at_res_lt nth_list_update\<close>)
next
  case False
  let ?pkt = "pkt\<lparr>normal_instrs := (normal_instrs pkt)[r - N_INSTRS_PADDED := ins]\<rparr>"
  have r: "r - N_INSTRS_PADDED < N_REGS - N_INSTRS_PADDED" using False assms(2) by simp
  have e: "r' - N_INSTRS_PADDED < N_REGS - N_INSTRS_PADDED" "r' - N_INSTRS_PADDED = r - N_INSTRS_PADDED \<longleftrightarrow> r' = r"
    if "\<not> r' < N_INSTRS_PADDED" "r' < N_REGS" for r' using that False by auto
  show thesis
    by (rule that [of ?pkt])
      (use False assms r e in \<open>auto simp: put_instr_def get_instr_def pkt_shape_def at_res_def nth_list_update\<close>)
qed

lemma clear_masks_instr:
  assumes "pkt_shape pkt" "r < N_REGS"
  shows "\<exists>v. get_instr (clear_masks pkt) r = Inr \<lparr>idx_perm_mask = 0, data_be = v\<rparr>" and "pkt_shape (clear_masks pkt)"
    and "base_offset (clear_masks pkt) = base_offset pkt"
  using assms
  by (auto simp: get_instr_def clear_masks_def pkt_shape_def at_res_def N_INSTRS_PADDED_def N_REGS_def
      pass1_normal_instr.defs intro!: exI pass1_normal_instr.equality)

text \<open>The instruction word of an operation whose slot is \<open>i\<close> places into the window.\<close>

definition op_instr :: "nat \<Rightarrow> hot_op \<Rightarrow> pass1_normal_instr" where
  "op_instr i pr = \<lparr>idx_perm_mask = word_of_nat i OR (if op_mode (fst pr) = WRITE then push_bit PERM_BIT_POS 1 else 0),
     data_be = htonl (op_value (fst pr))\<rparr>"

lemma op_instr_decode:
  assumes "i < 128"
  shows "unat (take_bit N_OFFSET_BITS (idx_perm_mask (op_instr i pr))) = i"
    and "bit (idx_perm_mask (op_instr i pr)) PERM_BIT_POS \<longleftrightarrow> op_mode (fst pr) = WRITE"
    and "ntohl (data_be (op_instr i pr)) = op_value (fst pr)"
proof -
  have t: "take_bit 7 i = i" using assms by (simp add: take_bit_nat_eq_self)
  have "take_bit 7 (word_of_nat i OR (if b then push_bit 7 1 else 0) :: u8) = word_of_nat (take_bit 7 i)" for b
    by (auto simp: take_bit_or take_bit_push_bit take_bit_of_nat of_nat_take_bit simp flip: of_nat_take_bit)
  then have "take_bit N_OFFSET_BITS (idx_perm_mask (op_instr i pr)) = word_of_nat i"
    unfolding op_instr_def N_OFFSET_BITS_def PERM_BIT_POS_def by (simp only: t pass1_normal_instr.simps)
  then show "unat (take_bit N_OFFSET_BITS (idx_perm_mask (op_instr i pr))) = i"
    using assms by (simp add: unat_of_nat)
  have "\<not> bit (take_bit 7 i) 7" by (simp add: bit_take_bit_iff)
  then have "\<not> bit (word_of_nat i :: u8) 7" using t by (simp add: bit_simps)
  then show "bit (idx_perm_mask (op_instr i pr)) PERM_BIT_POS \<longleftrightarrow> op_mode (fst pr) = WRITE"
    by (simp add: op_instr_def PERM_BIT_POS_def bit_simps)
  show "ntohl (data_be (op_instr i pr)) = op_value (fst pr)" by (simp add: op_instr_def)
qed

lemma window_idx:
  assumes "o' < 128"
  shows "(word_of_nat o' :: u64) AND (push_bit N_OFFSET_BITS 1 - 1) = word_of_nat o'"
    and "(ucast ((if w then push_bit PERM_BIT_POS 1 else 0) OR (word_of_nat o' :: u64)) :: u8) =
      word_of_nat o' OR (if w then push_bit PERM_BIT_POS 1 else 0)"
proof -
  have "take_bit 7 o' = o'" using assms by (simp add: take_bit_nat_eq_self)
  then have "take_bit 7 (word_of_nat o' :: u64) = word_of_nat o'" by (metis take_bit_of_nat)
  then show "(word_of_nat o' :: u64) AND (push_bit N_OFFSET_BITS 1 - 1) = word_of_nat o'"
    by (simp add: N_OFFSET_BITS_def take_bit_eq_mask mask_eq_exp_minus_1)
  show "(ucast ((if w then push_bit PERM_BIT_POS 1 else 0) OR (word_of_nat o' :: u64)) :: u8) =
      word_of_nat o' OR (if w then push_bit PERM_BIT_POS 1 else 0)"
    by (rule bit_word_eqI) (auto simp: PERM_BIT_POS_def bit_simps)
qed

lemma fill_pass1_ok:
  assumes "pkt_shape pkt" "distinct (map hot_reg prs)"
    and "\<And>pr. pr \<in> set prs \<Longrightarrow> hot_reg pr < N_REGS \<and> off pr < 128 \<and> ucast (reg_array_idx (snd pr)) - base = word_of_nat (off pr)"
  obtains pkt' where "fill_pass1 base pkt prs = Inr pkt'" "base_offset pkt' = base_offset pkt"
    "\<And>pr. pr \<in> set prs \<Longrightarrow> get_instr pkt' (hot_reg pr) = Inr (op_instr (off pr) pr)"
    "\<And>r. r < N_REGS \<Longrightarrow> r \<notin> hot_reg ` set prs \<Longrightarrow> get_instr pkt' r = get_instr pkt r"
proof -
  have "\<exists>pkt'. fill_pass1 base pkt prs = Inr pkt' \<and> base_offset pkt' = base_offset pkt \<and>
    (\<forall>pr \<in> set prs. get_instr pkt' (hot_reg pr) = Inr (op_instr (off pr) pr)) \<and>
    (\<forall>r < N_REGS. r \<notin> hot_reg ` set prs \<longrightarrow> get_instr pkt' r = get_instr pkt r)"
    using assms
  proof (induction prs arbitrary: pkt)
    case (Cons pr prs)
    have h: "hot_reg pr < N_REGS" "off pr < 128" "ucast (reg_array_idx (snd pr)) - base = word_of_nat (off pr)"
      using Cons.prems(3) [of pr] by auto
    obtain pkt1 where p1: "put_instr pkt (hot_reg pr) (op_instr (off pr) pr) = Inr pkt1" "pkt_shape pkt1"
      "base_offset pkt1 = base_offset pkt"
      "\<And>r'. r' < N_REGS \<Longrightarrow> get_instr pkt1 r' = (if r' = hot_reg pr then Inr (op_instr (off pr) pr) else get_instr pkt r')"
      by (rule put_instr_ok [OF Cons.prems(1) h(1), of "op_instr (off pr) pr"]) blast
    have step: "fill_pass1 base pkt (pr # prs) = fill_pass1 base pkt1 prs"
      using p1(1) window_idx(1) [OF h(2)] by (simp add: Let_def h(3) window_idx(2) [OF h(2)] op_instr_def)
    obtain pkt' where p': "fill_pass1 base pkt1 prs = Inr pkt'" "base_offset pkt' = base_offset pkt1"
      "\<forall>pr \<in> set prs. get_instr pkt' (hot_reg pr) = Inr (op_instr (off pr) pr)"
      "\<forall>r < N_REGS. r \<notin> hot_reg ` set prs \<longrightarrow> get_instr pkt' r = get_instr pkt1 r"
      using Cons.IH [OF p1(2)] Cons.prems(2,3) by auto
    have "hot_reg pr \<notin> hot_reg ` set prs" using Cons.prems(2) by simp
    with step p' p1(3,4) h(1) show ?case by auto
  qed simp
  with that show thesis by blast
qed

text \<open>The slots of a block lie in one window of 128 slots when the block size divides 128.\<close>

lemma block_window:
  assumes "S dvd 128" "i < (S :: nat)"
  shows "(b * S + i) mod 128 = b * S mod 128 + i" and "b * S div 128 * 128 + (b * S mod 128 + i) = b * S + i"
    and "b * S mod 128 + i < 128"
proof -
  obtain q where q: "128 = S * q" using assms(1) by (auto simp: dvd_def)
  have e: "b * S mod 128 = S * (b mod q)" unfolding q by (simp add: mult.commute mod_mult_mult1)
  have "b mod q < q" using q by (cases q) auto
  then have "S * (b mod q) + S \<le> S * q" by (metis Suc_leI mult_Suc_right mult_le_mono2 add.commute)
  then show lt: "b * S mod 128 + i < 128" using assms(2) e q by linarith
  show "b * S div 128 * 128 + (b * S mod 128 + i) = b * S + i" by (simp add: mult.commute)
  have "(b * S + i) mod 128 = (b * S mod 128 + i) mod 128" by (simp add: mod_add_left_eq)
  with lt show "(b * S + i) mod 128 = b * S mod 128 + i" by simp
qed

lemma base_of_val:
  assumes "block_num d * SLOTS_PER_SCHED_BLOCK cfg < 2 ^ 64"
  shows "unat (base_of cfg d) = block_num d * SLOTS_PER_SCHED_BLOCK cfg div 128 * 128"
proof -
  let ?o = "block_num d * SLOTS_PER_SCHED_BLOCK cfg"
  have m: "push_bit N_OFFSET_BITS 1 - 1 = (mask 7 :: u64)" by (simp add: mask_eq_exp_minus_1 N_OFFSET_BITS_def)
  have "x AND NOT (mask 7) = push_bit 7 (drop_bit 7 x)" for x :: u64
    by (rule bit_word_eqI) (auto simp: bit_simps)
  then have "base_of cfg d = push_bit 7 (drop_bit 7 (word_of_nat ?o))" by (simp only: base_of_def m)
  moreover have "unat (push_bit 7 (drop_bit 7 x)) = take_bit 64 (push_bit 7 (drop_bit 7 (unat x)))" for x :: u64
  proof -
    have "take_bit 64 (unat x) = unat x"
      using unsigned_less [where 'a = nat, of x] by (intro take_bit_nat_eq_self) simp
    then show ?thesis by (simp add: unsigned_push_bit_eq unsigned_drop_bit_eq)
  qed
  ultimately have "unat (base_of cfg d) = take_bit 64 (push_bit 7 (drop_bit 7 (unat (word_of_nat ?o :: u64))))"
    by (simp only:)
  moreover have "unat (word_of_nat ?o :: u64) = ?o" using assms by (subst unat_of_nat) simp
  moreover have "?o div 128 * 128 < 2 ^ 64" using assms by (metis div_times_less_eq_dividend le_less_trans)
  ultimately show ?thesis by (simp add: push_bit_eq_mult drop_bit_eq_div take_bit_nat_eq_self)
qed

lemma hot_slot:
  assumes "is_hot cfg d k"
  obtains i where "i < SLOTS_PER_SCHED_BLOCK cfg"
    "reg_array_idx (loc_of cfg d k) = word_of_nat (SLOTS_PER_SCHED_BLOCK cfg * block_num d + i)"
  using assms by (auto simp: is_hot_def loc_of_def get_location_def Let_def)

lemma make_txn_pass1_ok:
  assumes "pkt_shape pkt" "SLOTS_PER_SCHED_BLOCK cfg dvd 128" "(block_num d + 1) * SLOTS_PER_SCHED_BLOCK cfg < 65535"
    and "distinct (map hot_reg (live_hot (hot_ops_pass1 t)))"
    and "\<And>h. h \<in> set (live_hot (hot_ops_pass1 t)) \<Longrightarrow>
      is_hot cfg d (op_id (fst h)) \<and> snd h = loc_of cfg d (op_id (fst h)) \<and> hot_reg h < N_REGS"
  obtains pkt' where "make_txn_pass1 cfg nc d t pkt = Inr pkt'"
    "\<And>h. h \<in> set (live_hot (hot_ops_pass1 t)) \<Longrightarrow> reg_access pkt' (hot_reg h) =
       Inr (unat (reg_array_idx (snd h)), op_mode (fst h) = WRITE, op_value (fst h))"
    "\<And>r. r < N_REGS \<Longrightarrow> r \<notin> hot_reg ` set (live_hot (hot_ops_pass1 t)) \<Longrightarrow>
       \<exists>v. get_instr pkt' r = Inr \<lparr>idx_perm_mask = 0, data_be = v\<rparr>"
proof -
  let ?S = "SLOTS_PER_SCHED_BLOCK cfg" and ?b = "block_num d" and ?hs = "live_hot (hot_ops_pass1 t)"
  let ?base = "base_of cfg d"
  let ?pkt0 = "pkt\<lparr>net_hdr := fill_network_hdr nc, base_offset := htons (ucast ?base)\<rparr>"
  define off where "off = (\<lambda>h :: hot_op. unat (reg_array_idx (snd h)) - unat ?base)"
  have small: "?b * ?S < 65535" using assms(3) by simp
  have base: "unat ?base = ?b * ?S div 128 * 128" by (rule base_of_val) (use small in simp)
  have bl: "unat ?base < 65535" using base small by (metis div_times_less_eq_dividend le_less_trans)
  have slot: "\<exists>i < ?S. unat (reg_array_idx (snd h)) = ?b * ?S + i" if h: "h \<in> set ?hs" for h
  proof -
    from assms(5) [OF h] obtain i where i: "i < ?S" "reg_array_idx (snd h) = word_of_nat (?S * ?b + i)"
      using hot_slot by metis
    have "?S * ?b + i < 65536" using i(1) assms(3) by (simp add: algebra_simps)
    then have "unat (reg_array_idx (snd h)) = ?b * ?S + i"
      unfolding i(2) by (subst unat_of_nat) (simp add: mult.commute)
    with i(1) show ?thesis by blast
  qed
  have off: "off h < 128" "unat (reg_array_idx (snd h)) = unat ?base + off h" if h: "h \<in> set ?hs" for h
  proof -
    from slot [OF h] obtain i where i: "i < ?S" "unat (reg_array_idx (snd h)) = ?b * ?S + i" by blast
    note w = block_window [OF assms(2) i(1), of ?b]
    have "unat (reg_array_idx (snd h)) = unat ?base + (?b * ?S mod 128 + i)" using w(2) base i(2) by linarith
    then show "off h < 128" "unat (reg_array_idx (snd h)) = unat ?base + off h" using w(3) by (simp_all add: off_def)
  qed
  have sub: "ucast (reg_array_idx (snd h)) - ?base = word_of_nat (off h)" if h: "h \<in> set ?hs" for h
  proof -
    have "(ucast (reg_array_idx (snd h)) :: u64) = word_of_nat (unat ?base + off h)"
      by (simp only: flip: off(2) [OF h]) (simp add: unsigned_of_nat)
    then show ?thesis by simp
  qed
  have sh: "pkt_shape ?pkt0" using assms(1) by (simp add: pkt_shape_def)
  note cm = clear_masks_instr [OF sh]
  have h: "hot_reg pr < N_REGS \<and> off pr < 128 \<and> ucast (reg_array_idx (snd pr)) - ?base = word_of_nat (off pr)"
    if "pr \<in> set ?hs" for pr using assms(5) [OF that] off(1) [OF that] sub [OF that] by blast
  have z: "0 < N_REGS" by (simp add: N_REGS_def)
  obtain pkt' where p: "fill_pass1 ?base (clear_masks ?pkt0) ?hs = Inr pkt'"
    "base_offset pkt' = base_offset (clear_masks ?pkt0)"
    "\<And>pr. pr \<in> set ?hs \<Longrightarrow> get_instr pkt' (hot_reg pr) = Inr (op_instr (off pr) pr)"
    "\<And>r. r < N_REGS \<Longrightarrow> r \<notin> hot_reg ` set ?hs \<Longrightarrow> get_instr pkt' r = get_instr (clear_masks ?pkt0) r"
    by (rule fill_pass1_ok [OF cm(2) [OF z] assms(4), of off ?base]) (use h in blast)+
  have bo: "unat (ntohs (base_offset pkt')) = unat ?base"
    using p(2) cm(3) [OF z] bl by (simp add: unsigned_ucast_eq take_bit_nat_eq_self)
  show thesis
  proof (rule that)
    show "make_txn_pass1 cfg nc d t pkt = Inr pkt'" using p(1) bl by (simp add: make_txn_pass1_def Let_def)
    show "reg_access pkt' (hot_reg h) = Inr (unat (reg_array_idx (snd h)), op_mode (fst h) = WRITE, op_value (fst h))"
      if "h \<in> set ?hs" for h
      using op_instr_decode [OF off(1) [OF that], of h] off(2) [OF that] by (simp add: reg_access_def p(3) [OF that] bo)
    show "\<exists>v. get_instr pkt' r = Inr \<lparr>idx_perm_mask = 0, data_be = v\<rparr>" if "r < N_REGS" "r \<notin> hot_reg ` set ?hs" for r
      using p(4) [OF that] cm(1) [OF that(1)] by simp
  qed
qed

text \<open>
  C8. From transaction to packet. When the block size divides 128 and the tenant's block lies
  below slot 65535, the packet made for an accelerated transaction of \<open>extract_hot_cold\<close> asks the switch,
  for every operation of the first pass, for exactly that access: its register, its slot, read or write, and
  its value; and the masks of all other registers are clear.
\<close>

theorem make_txn_faithful:
  assumes "length ops = N_OPS" "\<forall>op \<in> set ops. op_mode op \<noteq> INVALID" "layout_wf d"
    and "partition_size (part_info tbl) \<noteq> 0" "\<not> ORIG_MODE cfg"
    and "extract_hot_cold cfg tbl (Txn_mk lid ops) d = Inr (t, d')" "do_accel t"
    and "SLOTS_PER_SCHED_BLOCK cfg dvd 128" "(block_num d + 1) * SLOTS_PER_SCHED_BLOCK cfg < 65535" "pkt_shape pkt"
  shows "\<exists>pkt'. make_txn cfg nc d t pkt = Inr pkt' \<and>
    (\<forall>h \<in> set (live_hot (hot_ops_pass1 t)). reg_access pkt' (unat (reg_array_id (snd h))) =
       Inr (unat (reg_array_idx (snd h)), op_mode (fst h) = WRITE, op_value (fst h))) \<and>
    (\<forall>r < N_REGS. r \<notin> hot_reg ` set (live_hot (hot_ops_pass1 t)) \<longrightarrow>
       (\<exists>v. get_instr pkt' r = Inr \<lparr>idx_perm_mask = 0, data_be = v\<rparr>))"
proof -
  obtain t1 d1 where "extract_hot_cold cfg tbl (Txn_mk lid ops) d = Inr (t1, d1)"
    "split_spec cfg d (map (op_fill (part_info tbl)) ops) t1"
    using extract_ok [OF assms(1,2) layout_wf_regs [OF assms(3)] assms(4,5)] by metis
  with assms(6) have spec: "split_spec cfg d (map (op_fill (part_info tbl)) ops) t" by simp
  let ?hs = "live_hot (hot_ops_pass1 t)"
  have hs: "is_hot cfg d (op_id (fst h)) \<and> snd h = loc_of cfg d (op_id (fst h))" if "h \<in> set ?hs" for h
    using spec assms(7) that by (auto simp: split_spec_def Let_def)
  have reg: "hot_reg h < N_REGS" if "h \<in> set ?hs" for h
    using hs [OF that] loc_of_regs [OF layout_wf_regs [OF assms(3)]] by metis
  have d: "distinct (map hot_reg ?hs)" using spec assms(7) by (simp add: split_spec_def Let_def)
  have h: "is_hot cfg d (op_id (fst h)) \<and> snd h = loc_of cfg d (op_id (fst h)) \<and> hot_reg h < N_REGS" if "h \<in> set ?hs" for h
    using hs [OF that] reg [OF that] by blast
  obtain pkt' where p: "make_txn_pass1 cfg nc d t pkt = Inr pkt'"
    "\<And>h. h \<in> set ?hs \<Longrightarrow> reg_access pkt' (hot_reg h) = Inr (unat (reg_array_idx (snd h)), op_mode (fst h) = WRITE, op_value (fst h))"
    "\<And>r. r < N_REGS \<Longrightarrow> r \<notin> hot_reg ` set ?hs \<Longrightarrow> \<exists>v. get_instr pkt' r = Inr \<lparr>idx_perm_mask = 0, data_be = v\<rparr>"
    by (rule make_txn_pass1_ok [OF assms(10,8,9) d h, of nc]) blast+
  show ?thesis
    by (rule exI [of _ pkt']) (use p assms(7) in \<open>auto simp: make_txn_def\<close>)
qed

definition switch_demo_ops :: "OP list" where
  "switch_demo_ops = OP_zero\<lparr>op_id := 72, op_mode := WRITE, op_value := 7\<rparr> # replicate 7 (OP_zero\<lparr>op_mode := READ\<rparr>)"

definition switch_demo_pkt :: pass1_pkt where
  "switch_demo_pkt = \<lparr>net_hdr = \<lparr>dst_mac = [], src_mac = [], ether_type = 0, uid = []\<rparr>, base_offset = 0,
     padded_instrs = replicate N_INSTRS_PADDED \<lparr>padding = 0, reg_instr = \<lparr>idx_perm_mask = 255, data_be = 0\<rparr>\<rparr>,
     normal_instrs = replicate (N_REGS - N_INSTRS_PADDED) \<lparr>idx_perm_mask = 255, data_be = 0\<rparr>\<rparr>"

theorem make_txn_faithful_witness:
  "\<exists>d t d' pkt'. DeclusteredLayout_mk layout_demo_cfg sched_demo_freq = Inr d \<and>
     extract_hot_cold layout_demo_cfg txn_demo_table (Txn_mk 1 switch_demo_ops) (d\<lparr>block_num := 5\<rparr>) = Inr (t, d') \<and> do_accel t \<and>
     make_txn layout_demo_cfg \<lparr>switch_mac = [], node_mac = [], p4db_ether_type = 1\<rparr> (d\<lparr>block_num := 5\<rparr>) t switch_demo_pkt = Inr pkt'"
proof -
  let ?c = layout_demo_cfg
  obtain d where d: "DeclusteredLayout_mk ?c sched_demo_freq = Inr d" "layout_wf d" "\<not> is_hot ?c d 0"
    by (rule sched_demo_layout)
  let ?d = "d\<lparr>block_num := 5\<rparr>"
  have "virt_map d = lb_map (layout_placed sched_demo_freq)" using d(1) by (auto simp: DeclusteredLayout_mk_def res_elims)
  then have wf: "layout_wf ?d" "\<not> is_hot ?c ?d 0"
    using d(2,3) by (auto simp: layout_wf_def is_hot_def get_location_def Let_def)
  have o: "length switch_demo_ops = N_OPS" "\<forall>op \<in> set switch_demo_ops. op_mode op \<noteq> INVALID"
    "partition_size (part_info txn_demo_table) \<noteq> 0" "\<not> ORIG_MODE ?c"
    by (simp_all add: switch_demo_ops_def txn_demo_table_def layout_demo_cfg_def default_build_def N_OPS_def)
  let ?all = "map (op_fill (part_info txn_demo_table)) switch_demo_ops"
  obtain t d' where t: "extract_hot_cold ?c txn_demo_table (Txn_mk 1 switch_demo_ops) ?d = Inr (t, d')" "split_spec ?c ?d ?all t"
    using extract_ok [OF o(1,2) layout_wf_regs [OF wf(1)] o(3,4)] by metis
  have "op_id (op_fill p (OP_zero\<lparr>op_mode := READ\<rparr>)) = 0" for p by (simp add: op_fill_def OP_zero_def)
  then have "filter (\<lambda>op. is_hot ?c ?d (op_id op)) (map (op_fill p) (replicate 7 (OP_zero\<lparr>op_mode := READ\<rparr>))) = []" for p
    using wf(2) by (simp only: map_replicate filter_replicate) simp
  then have "distinct (op_regs ?c ?d ?all)" by (simp add: op_regs_def switch_demo_ops_def)
  then have acc: "do_accel t" using t(2) by (simp add: split_spec_def Let_def)
  have s: "SLOTS_PER_SCHED_BLOCK ?c dvd 128" "(block_num ?d + 1) * SLOTS_PER_SCHED_BLOCK ?c < 65535" "pkt_shape switch_demo_pkt"
    by (simp_all add: layout_demo_cfg_def pkt_shape_def switch_demo_pkt_def)
  from make_txn_faithful [OF o(1,2) wf(1) o(3,4) t(1) acc s] t(1) acc d(1) show ?thesis by blast
qed

end
