(* ===== verification/P4_Exec.thy ===== *)
theory P4_Exec
  imports P4_Undo P4_Switch
begin

text \<open>
  The transaction executor of \<open>ee/executor.cpp\<close>: one worker of one node, running transactions
  against the tables of the cluster. A message it sends is handled, with the response it causes, before
  the worker goes on; the locks that other transactions hold are those in the rows.
\<close>

section \<open>State\<close>

datatype RC = COMMIT | ROLLBACK

text \<open>
  \<open>TxnExecutor\<close>. Its memory pool of futures is in the node. \<open>t_*\<close> and the other timing fields
  are not modelled.
\<close>

record executor =
  kvs :: nat
  ex_log :: undolog
  ex_tid :: nat
  mb_num :: nat
  leftover_txns :: "nat list"
  ex_ts :: u64
  n_commits :: nat
  n_aborts :: nat
  n_dropped :: nat
  n_cold_fallbacks :: nat

text \<open>
  The world of one worker: all nodes and the position of its own, the node's queue of switch packets
  with the contents of its buffers (by offset), the worker's transactions, the layout and
  the addresses for switch packets.
\<close>

record sys =
  nodes :: "node list"
  self :: nat
  send_queue :: hot_send_q
  pkt_bufs :: "nat \<Rightarrow> pass1_pkt"
  exec :: executor
  my_txns :: "Txn list"
  sys_layout :: DeclusteredLayout
  sys_net :: net_conf

definition TxnExecutor_mk :: "nat \<Rightarrow> nat \<Rightarrow> nat \<Rightarrow> executor" where
  "TxnExecutor_mk n w t = \<lparr>kvs = t, ex_log = Undolog_mk n w, ex_tid = w, mb_num = 1, leftover_txns = [], ex_ts = 0,
     n_commits = 0, n_aborts = 0, n_dropped = 0, n_cold_fallbacks = 0\<rparr>"

definition my_node :: "sys \<Rightarrow> node result" where
  "my_node st = at_res (nodes st) (self st)"

definition set_node :: "sys \<Rightarrow> node \<Rightarrow> sys" where
  "set_node st nd = st\<lparr>nodes := (nodes st)[self st := nd]\<rparr>"

definition set_log :: "sys \<Rightarrow> undolog \<Rightarrow> sys" where
  "set_log st l = st\<lparr>exec := (exec st)\<lparr>ex_log := l\<rparr>\<rparr>"

definition sizeof_TupleFuture :: nat where "sizeof_TupleFuture = 24"

text \<open>\<open>mempool.allocate<TupleFuture<KV>>()\<close> in the worker's \<open>StackPool<8192>\<close>, and \<open>mempool.clear()\<close>.\<close>

definition alloc_future :: "node \<Rightarrow> nat \<Rightarrow> (nat \<times> node) result" where
  "alloc_future nd w =
     bind_res (StackPool_allocate \<lparr>sp_max = 8192, sp_size = sizeof_TupleFuture * length (futures nd w)\<rparr> sizeof_TupleFuture) (\<lambda>_.
       ok (length (futures nd w), nd\<lparr>futures := (futures nd)(w := futures nd w @ [TupleFuture_mk])\<rparr>))"

definition mempool_clear :: "node \<Rightarrow> nat \<Rightarrow> node" where
  "mempool_clear nd w = nd\<lparr>futures := (futures nd)(w := [])\<rparr>"

text \<open>\<open>future->get()\<close> on a future of the worker.\<close>

definition fut_get :: "sys \<Rightarrow> nat \<Rightarrow> (tuple_ptr \<times> sys) result" where
  "fut_get st f =
     (let w = ex_tid (exec st) in
      bind_res (my_node st) (\<lambda>nd.
      bind_res (the_future nd w f) (\<lambda>fut.
        case future_get fut of
          None \<Rightarrow> fail Blocked
        | Some (fut, p) \<Rightarrow> bind_res (upd_future nd (w, f) (\<lambda>_. fut)) (\<lambda>nd. ok (p, set_node st nd)))))"

section \<open>Reading and writing a row\<close>

text \<open>The two halves of \<open>read\<close> and \<open>write\<close>, which differ in the mode alone: the local lock and
  the request to the key's node. The result is the future, or \<open>None\<close> for the null pointer.\<close>

definition access_local ::
  "build_cfg \<Rightarrow> AccessMode \<Rightarrow> sys \<Rightarrow> OP \<Rightarrow> TxnId \<Rightarrow> (nat option \<times> sys) result" where
  "access_local cfg md st op i =
     (let w = ex_tid (exec st); tb = kvs (exec st) in
      bind_res (my_node st) (\<lambda>nd.
      bind_res (alloc_future nd w) (\<lambda>(f, nd).
      let fut = TupleFuture_mk\<lparr>f_last_acq := i\<rparr> in
      bind_res (assert_res (\<not> valid i \<or> unat (mini_batch_id (f_last_acq fut)) = mb_num (exec st))) (\<lambda>_.
      bind_res (at_res (tables nd) tb) (\<lambda>t.
      bind_res (table_get cfg t (op_id op) md fut) (\<lambda>(rc, t, fut).
      bind_res (upd_future (set_table nd tb t) (w, f) (\<lambda>_. fut)) (\<lambda>nd.
      let st = set_node st nd in
      if err_not rc then ok (None, st)
      else bind_res (log_add (ex_log (exec st)) (if md = WRITE then Write tb (op_id op) f else Read tb (op_id op) f)) (\<lambda>l.
           bind_res (fut_get (set_log st l) f) (\<lambda>(p, st). ok (if p = NullPtr then None else Some f, st))))))))))"

definition access_remote ::
  "build_cfg \<Rightarrow> AccessMode \<Rightarrow> sys \<Rightarrow> OP \<Rightarrow> TxnId \<Rightarrow> (nat option \<times> sys) result" where
  "access_remote cfg md st op i =
     (let w = ex_tid (exec st); tgt = target (loc_info op) in
      bind_res (my_node st) (\<lambda>nd.
      bind_res (at_res (tables nd) (kvs (exec st))) (\<lambda>t.
      let req = (TupleGetReq_mk (ex_ts (exec st)) (t_id t) (op_id op) md i)\<lparr>sender := comm_id nd\<rparr> in
      bind_res (alloc_future nd w) (\<lambda>(f, nd).
      let (mid, nd, req) = set_new_id nd req in
      bind_res (add_future nd mid (w, f)) (\<lambda>nd.
      bind_res (deliver cfg (nodes (set_node st nd)) (self st) tgt req) (\<lambda>nds.
      bind_res (log_add (ex_log (exec st)) (Remote md f tgt)) (\<lambda>l.
      bind_res (fut_get (set_log (st\<lparr>nodes := nds\<rparr>) l) f) (\<lambda>(p, st).
        ok (if p = NullPtr then None else Some f, st)))))))))"

definition exec_read :: "build_cfg \<Rightarrow> sys \<Rightarrow> OP \<Rightarrow> TxnId \<Rightarrow> (nat option \<times> sys) result" where
  "exec_read cfg st op i =
     (if is_local (loc_info op) then access_local cfg READ st op i else access_remote cfg READ st op i)"

definition exec_write :: "build_cfg \<Rightarrow> sys \<Rightarrow> OP \<Rightarrow> TxnId \<Rightarrow> (nat option \<times> sys) result" where
  "exec_write cfg st op i =
     (if is_local (loc_info op) then access_local cfg WRITE st op i else access_remote cfg WRITE st op i)"

text \<open>\<open>insert\<close>: a new row of the local table, locked for writing.\<close>

definition exec_insert :: "build_cfg \<Rightarrow> sys \<Rightarrow> (nat option \<times> sys) result" where
  "exec_insert cfg st =
     (let w = ex_tid (exec st); tb = kvs (exec st) in
      bind_res (my_node st) (\<lambda>nd.
      bind_res (at_res (tables nd) tb) (\<lambda>t.
      bind_res (table_insert t) (\<lambda>(t, key).
      bind_res (alloc_future (set_table nd tb t) w) (\<lambda>(f, nd).
      bind_res (table_get cfg t key WRITE TupleFuture_mk) (\<lambda>(rc, t, fut).
      bind_res (upd_future (set_table nd tb t) (w, f) (\<lambda>_. fut)) (\<lambda>nd.
      let st = set_node st nd in
      if err_not rc then ok (None, st)
      else bind_res (log_add (ex_log (exec st)) (Write tb key f)) (\<lambda>l.
           bind_res (fut_get (set_log st l) f) (\<lambda>(p, st). ok (if p = NullPtr then None else Some f, st))))))))))"

section \<open>Executing a transaction\<close>

text \<open>
  The lock loop of \<open>my_execute\<close> and \<open>execute\<close>: the futures of the operations, or \<open>None\<close> if a
  lock was refused. \<open>may_end\<close> is the assertion at an \<open>INVALID\<close> operation.
\<close>

fun lock_ops ::
  "build_cfg \<Rightarrow> bool \<Rightarrow> TxnId \<Rightarrow> sys \<Rightarrow> OP list \<Rightarrow> nat list \<Rightarrow> (nat list option \<times> sys) result" where
  "lock_ops cfg may_end i st [] fs = ok (Some fs, st)"
| "lock_ops cfg may_end i st (op # ops) fs =
     (if op_mode op = INVALID then bind_res (assert_res may_end) (\<lambda>_. ok (Some fs, st))
      else bind_res (if op_mode op = WRITE then exec_write cfg st op i else exec_read cfg st op i) (\<lambda>(f, st).
        case f of None \<Rightarrow> ok (None, st) | Some f \<Rightarrow> lock_ops cfg may_end i st ops (fs @ [f])))"

text \<open>\<open>x->value = op.value\<close> through the pointer a future returned.\<close>

definition store_value :: "sys \<Rightarrow> nat \<Rightarrow> tuple_ptr \<Rightarrow> u32 \<Rightarrow> sys result" where
  "store_value st f p v =
     bind_res (my_node st) (\<lambda>nd.
       case p of
         RowPtr k \<Rightarrow>
           bind_res (at_res (tables nd) (kvs (exec st))) (\<lambda>t.
           bind_res (at_res (t_data t) k) (\<lambda>r.
             ok (set_node st (set_table nd (kvs (exec st))
               (t\<lparr>t_data := (t_data t)[k := r\<lparr>r_tuple := (r_tuple r)\<lparr>kv_value := v\<rparr>\<rparr>]\<rparr>)))))
       | PktPtr \<Rightarrow>
           bind_res (the_future nd (ex_tid (exec st)) f) (\<lambda>fut.
             case f_pkt fut of
               None \<Rightarrow> fail OutOfBounds
             | Some m \<Rightarrow>
                 (case m_tuple m of
                    None \<Rightarrow> fail OutOfBounds
                  | Some t \<Rightarrow>
                      bind_res (upd_future nd (ex_tid (exec st), f)
                        (\<lambda>_. fut\<lparr>f_pkt := Some (m\<lparr>m_tuple := Some (t\<lparr>kv_value := v\<rparr>)\<rparr>)\<rparr>)) (\<lambda>nd. ok (set_node st nd))))
       | NullPtr \<Rightarrow> fail OutOfBounds
       | ExceptionPtr \<Rightarrow> fail OutOfBounds)"

definition set_last_acq :: "sys \<Rightarrow> nat \<Rightarrow> TxnId \<Rightarrow> sys result" where
  "set_last_acq st f i =
     bind_res (my_node st) (\<lambda>nd.
     bind_res (upd_future nd (ex_tid (exec st), f) (\<lambda>fut. fut\<lparr>f_last_acq := i\<rparr>)) (\<lambda>nd. ok (set_node st nd)))"

text \<open>The second loop: write the values; \<open>my_execute\<close> also stamps the futures with its id
  (\<open>stamp\<close>). \<open>False\<close> is the jump to \<open>rollback\<close>.\<close>

fun apply_ops :: "TxnId option \<Rightarrow> sys \<Rightarrow> OP list \<Rightarrow> nat list \<Rightarrow> (bool \<times> sys) result" where
  "apply_ops stamp st [] fs = ok (True, st)"
| "apply_ops stamp st (op # ops) fs =
     (if op_mode op = INVALID then ok (True, st)
      else case fs of
        [] \<Rightarrow> fail OutOfBounds
      | f # fs \<Rightarrow>
          bind_res (fut_get st f) (\<lambda>(p, st).
            if p = NullPtr then ok (False, st)
            else bind_res (if op_mode op = WRITE then store_value st f p (op_value op) else ok st) (\<lambda>st.
                 bind_res (case stamp of None \<Rightarrow> ok st | Some i \<Rightarrow> set_last_acq st f i) (\<lambda>st.
                   apply_ops stamp st ops fs))))"

text \<open>\<open>commit\<close> and \<open>rollback\<close> both clear the undo log, with what the futures then say.\<close>

definition end_txn :: "build_cfg \<Rightarrow> sys \<Rightarrow> sys result" where
  "end_txn cfg st =
     bind_res (undo_clear cfg (ex_log (exec st)) (nodes st)) (\<lambda>(l, nds).
     let st = set_log (st\<lparr>nodes := nds\<rparr>) l in
     bind_res (my_node st) (\<lambda>nd. ok (set_node st (mempool_clear nd (ex_tid (exec st))))))"

definition commit :: "build_cfg \<Rightarrow> sys \<Rightarrow> (RC \<times> sys) result" where
  "commit cfg st = bind_res (end_txn cfg st) (\<lambda>st. ok (COMMIT, st))"

definition rollback :: "build_cfg \<Rightarrow> sys \<Rightarrow> (RC \<times> sys) result" where
  "rollback cfg st = bind_res (end_txn cfg st) (\<lambda>st. ok (ROLLBACK, st))"

definition set_txn :: "sys \<Rightarrow> nat \<Rightarrow> Txn \<Rightarrow> sys" where
  "set_txn st e t = st\<lparr>my_txns := (my_txns st)[e := t]\<rparr>"

text \<open>\<open>my_execute\<close> on the transaction at position \<open>e\<close>; the buffer it fills in is \<open>None\<close> after a rollback.\<close>

definition my_execute :: "build_cfg \<Rightarrow> sys \<Rightarrow> nat \<Rightarrow> (RC \<times> nat option \<times> sys) result" where
  "my_execute cfg st e =
     bind_res (at_res (my_txns st) e) (\<lambda>arg.
     let i = (txn_id arg)\<lparr>valid := True\<rparr>; arg = arg\<lparr>txn_id := i\<rparr>; st = set_txn st e arg in
     bind_res (assert_res (unat (mini_batch_id i) = mb_num (exec st))) (\<lambda>_.
     bind_res (lock_ops cfg True i st (cold_ops arg) []) (\<lambda>(fs, st).
       case fs of
         None \<Rightarrow> bind_res (rollback cfg st) (\<lambda>(rc, st). ok (rc, None, st))
       | Some fs \<Rightarrow>
           bind_res (apply_ops (Some i) st (cold_ops arg) fs) (\<lambda>(done, st).
             if \<not> done then bind_res (rollback cfg st) (\<lambda>(rc, st). ok (rc, None, st))
             else bind_res (alloc_slot (send_queue st) (mb_num (exec st)) (ex_tid (exec st), e)) (\<lambda>(buf, q).
                  bind_res (commit cfg (st\<lparr>send_queue := q\<rparr>)) (\<lambda>(rc, st). ok (rc, Some buf, st)))))))"

text \<open>
  What a call of \<open>execute\<close> sees of its surroundings: the clock, whether the reply of the
  switch is lost, and the stack bytes its packet buffer starts with.
\<close>

record surroundings =
  now_ns :: u64
  reply_lost :: bool
  raw_buf :: pass1_pkt

definition upd_exec :: "(executor \<Rightarrow> executor) \<Rightarrow> sys \<Rightarrow> sys" where
  "upd_exec g st = st\<lparr>exec := g (exec st)\<rparr>"

definition atomic :: "build_cfg \<Rightarrow> surroundings \<Rightarrow> sys \<Rightarrow> Txn \<Rightarrow> sys result" where
  "atomic cfg en st arg =
     bind_res (make_txn cfg (sys_net st) (sys_layout st) arg (raw_buf en)) (\<lambda>_.
       ok (if reply_lost en then upd_exec (\<lambda>x. x\<lparr>n_dropped := n_dropped x + 1\<rparr>) st else st))"

definition abort_txn :: "build_cfg \<Rightarrow> sys \<Rightarrow> (RC \<times> sys) result" where
  "abort_txn cfg st = rollback cfg (upd_exec (\<lambda>x. x\<lparr>n_aborts := n_aborts x + 1\<rparr>) st)"

definition execute :: "build_cfg \<Rightarrow> surroundings \<Rightarrow> sys \<Rightarrow> nat \<Rightarrow> (RC \<times> sys) result" where
  "execute cfg en st e =
     bind_res (at_res (my_txns st) e) (\<lambda>arg.
     bind_res (my_node st) (\<lambda>nd.
     let i = (txn_id arg)\<lparr>valid := False\<rparr>; arg = arg\<lparr>txn_id := i\<rparr>;
         st = upd_exec (\<lambda>x. x\<lparr>ex_ts := ts_get (ts_mask (comm_id nd) (word_of_nat (ex_tid x))) (now_ns en)\<rparr>) (set_txn st e arg) in
     bind_res (lock_ops cfg (ORIG_MODE cfg) i st (cold_ops arg) []) (\<lambda>(fs, st).
       case fs of
         None \<Rightarrow> abort_txn cfg st
       | Some fs \<Rightarrow>
           bind_res (apply_ops None st (cold_ops arg) fs) (\<lambda>(done, st).
             if \<not> done then abort_txn cfg st
             else bind_res (if do_accel arg then atomic cfg en st arg else ok st) (\<lambda>st.
                  commit cfg (upd_exec (\<lambda>x. x\<lparr>n_commits := n_commits x + 1\<rparr>) st))))))"

section \<open>Running a queue\<close>

text \<open>\<open>txn.cold_ops[cold_p--] = ...\<close> for the operations of a list.\<close>

primrec restore_cold :: "OP list \<Rightarrow> u64 \<Rightarrow> hot_op list \<Rightarrow> (OP list \<times> u64) result" where
  "restore_cold cold cp [] = ok (cold, cp)"
| "restore_cold cold cp (h # hs) =
     bind_res (at_res cold (unat cp)) (\<lambda>_. restore_cold (cold[unat cp := fst h]) (cp - 1) hs)"

text \<open>
  The conversion of hot operations back into cold ones. The second loop counts the operations of the
  second pass but copies those of the first.
\<close>

definition to_cold :: "Txn \<Rightarrow> Txn result" where
  "to_cold t =
     bind_res (restore_cold (cold_ops t) (word_of_nat (N_OPS - 1)) (live_hot (hot_ops_pass1 t))) (\<lambda>(cold, cp).
     bind_res (restore_cold cold cp (take (length (live_hot (hot_ops_pass2 t))) (hot_ops_pass1 t))) (\<lambda>(cold, cp).
     bind_res (at_res cold (unat cp)) (\<lambda>op.
     bind_res (assert_res (op_mode op \<noteq> INVALID)) (\<lambda>_.
       ok (t\<lparr>cold_ops := cold, do_accel := False\<rparr>)))))"

definition push_leftover :: "nat \<Rightarrow> sys \<Rightarrow> sys" where
  "push_leftover e = upd_exec (\<lambda>x. x\<lparr>n_cold_fallbacks := n_cold_fallbacks x + 1, leftover_txns := leftover_txns x @ [e]\<rparr>)"

text \<open>\<open>run_txn\<close> on the queue \<open>q\<close>, with the scheduler's node id.\<close>

definition run_txn :: "build_cfg \<Rightarrow> nat \<Rightarrow> bool \<Rightarrow> nat list \<Rightarrow> sys \<Rightarrow> (nat list \<times> sys) result" where
  "run_txn cfg nid enqueue_aborts q st =
     (case q of
        [] \<Rightarrow> fail AssertFailed
      | e # q \<Rightarrow>
          bind_res (entry_to_txn (my_txns st) e) (\<lambda>txn.
          bind_res (assert_res (init_done txn)) (\<lambda>_.
          bind_res (assert_res (0 < mb_num (exec st))) (\<lambda>_.
          let i = TxnId_mk True nid (mb_num (exec st)); txn = txn\<lparr>txn_id := i\<rparr>; st = set_txn st e txn in
          bind_res (assert_res (valid i \<and> unat (node_id i) = nid \<and> unat (mini_batch_id i) = mb_num (exec st))) (\<lambda>_.
            if do_accel txn then
              bind_res (my_execute cfg st e) (\<lambda>(rc, buf, st).
              let txn = my_txns st ! e in
              case rc of
                ROLLBACK \<Rightarrow>
                  (let txn = txn\<lparr>txn_aborts := txn_aborts txn + 1\<rparr>;
                       st = set_txn (upd_exec (\<lambda>x. x\<lparr>n_aborts := n_aborts x + 1\<rparr>) st) e txn in
                   if enqueue_aborts \<and> txn_aborts txn \<le> MAX_TIMES_ACCEL_ABORT then ok (q @ [e], st)
                   else bind_res (to_cold txn) (\<lambda>txn. ok (q, push_leftover e (set_txn st e txn))))
              | COMMIT \<Rightarrow>
                  (case buf of
                     None \<Rightarrow> fail OutOfBounds
                   | Some b \<Rightarrow>
                       bind_res (make_txn cfg (sys_net st) (sys_layout st) txn (pkt_bufs st b)) (\<lambda>pkt.
                         ok (q, upd_exec (\<lambda>x. x\<lparr>n_commits := n_commits x + 1\<rparr>) (st\<lparr>pkt_bufs := (pkt_bufs st)(b := pkt)\<rparr>)))))
            else ok (q, push_leftover e st))))))"

text \<open>
  The loop of \<open>run_leftover_txns\<close>, which need not end; \<open>en n\<close> are the surroundings of its \<open>n\<close>th
  call of \<open>execute\<close>.
\<close>

partial_function (option) leftover_loop ::
  "build_cfg \<Rightarrow> (nat \<Rightarrow> surroundings) \<Rightarrow> nat \<Rightarrow> nat \<Rightarrow> sys \<Rightarrow> sys result option" where
  "leftover_loop cfg en bound n st =
     (if length (leftover_txns (exec st)) > bound then
        (case bind_res (entry_to_txn (my_txns st) (hd (leftover_txns (exec st))))
                (\<lambda>_. execute cfg (en n) st (hd (leftover_txns (exec st)))) of
           Inl er \<Rightarrow> Some (Inl er)
         | Inr (rc, st) \<Rightarrow>
             (let e = hd (leftover_txns (exec st)); rest = drop 1 (leftover_txns (exec st)) in
              leftover_loop cfg en bound (Suc n)
                (upd_exec (\<lambda>x. x\<lparr>leftover_txns := rest @ (if rc = ROLLBACK then [e] else [])\<rparr>) st)))
      else Some (Inr st))"

definition run_leftover_txns :: "build_cfg \<Rightarrow> (nat \<Rightarrow> surroundings) \<Rightarrow> sys \<Rightarrow> sys result option" where
  "run_leftover_txns cfg en st =
     map_option (\<lambda>r. bind_res r (\<lambda>st. ok (upd_exec (\<lambda>x. x\<lparr>leftover_txns := []\<rparr>) st)))
       (leftover_loop cfg en (length (leftover_txns (exec st)) div 100) 0 st)"

end
