(* ===== verification/P4_Commit.thy ===== *)
theory P4_Commit
  imports P4_Exec
begin

text \<open>
  The executor against its specification: a committed transaction has the effect of its
  operations applied to the rows one after the other, and an aborted one has none.
\<close>

section \<open>Rows of a cluster\<close>

text \<open>A row's place is its node and its key; \<open>rows\<close> is the contents of the table at every place.\<close>

definition nrow :: "nat \<Rightarrow> node list \<Rightarrow> nat \<times> db_key \<Rightarrow> row" where
  "nrow tb nds s = t_data (tables (nds ! fst s) ! tb) ! snd s"

definition put_row :: "nat \<Rightarrow> node list \<Rightarrow> nat \<times> db_key \<Rightarrow> row \<Rightarrow> node list" where
  "put_row tb nds s r =
     (let nd = nds ! fst s; t = tables nd ! tb in
      nds[fst s := set_table nd tb (t\<lparr>t_data := (t_data t)[snd s := r]\<rparr>)])"

text \<open>A node is set up as node \<open>n\<close> of \<open>N\<close>, with its table filled.\<close>

definition node_ok :: "nat \<Rightarrow> nat \<Rightarrow> nat \<Rightarrow> nat \<Rightarrow> node \<Rightarrow> bool" where
  "node_ok N ts tb n nd \<longleftrightarrow> comm_id nd = word_of_nat n \<and> comm_nodes nd = N \<and> tb < length (tables nd) \<and>
     t_id (tables nd ! tb) = tb \<and> t_size (tables nd ! tb) = ts \<and> ts \<le> length (t_data (tables nd ! tb))"

text \<open>A cluster of set-up nodes in which worker \<open>w\<close> of node \<open>sf\<close> waits for nothing.\<close>

definition nodes_ok :: "nat \<Rightarrow> nat \<Rightarrow> nat \<Rightarrow> nat \<Rightarrow> node list \<Rightarrow> bool" where
  "nodes_ok ts tb sf w nds \<longleftrightarrow> sf < length nds \<and> length nds \<le> 256 \<and> tb \<le> 4 \<and> w < 2 ^ 24 \<and>
     (\<forall>n < length nds. node_ok (length nds) ts tb n (nds ! n)) \<and>
     open_futures (nds ! sf) = Map.empty \<and> w < length (put_counts (nds ! sf)) \<and> put_counts (nds ! sf) ! w = 0"

definition in_range :: "nat \<Rightarrow> node list \<Rightarrow> nat \<times> db_key \<Rightarrow> bool" where
  "in_range ts nds s \<longleftrightarrow> fst s < length nds \<and> snd s < ts"

lemma nodes_ok_node:
  "nodes_ok ts tb sf w nds \<Longrightarrow> n < length nds \<Longrightarrow> node_ok (length nds) ts tb n (nds ! n)"
  by (simp add: nodes_ok_def)

lemma put_row_nrow:
  assumes "nodes_ok ts tb sf w nds" "in_range ts nds s"
  shows "nrow tb (put_row tb nds s r) = (nrow tb nds)(s := r)"
proof (rule ext)
  fix s'
  have "tb < length (tables (nds ! fst s))" "snd s < length (t_data (tables (nds ! fst s) ! tb))" "fst s < length nds"
    using nodes_ok_node [OF assms(1), of "fst s"] assms(2) by (auto simp: node_ok_def in_range_def)
  then show "nrow tb (put_row tb nds s r) s' = ((nrow tb nds)(s := r)) s'"
    by (cases s, cases s') (auto simp: nrow_def put_row_def Let_def set_table_def nth_list_update)
qed

lemma put_row_node:
  "put_row tb nds s r ! n = (nds ! n)\<lparr>tables := tables (put_row tb nds s r ! n)\<rparr>"
  by (cases "fst s < length nds"; cases "n = fst s")
    (simp_all add: put_row_def Let_def set_table_def list_update_beyond not_less)

lemma put_row_sel [simp]:
  "length (put_row tb nds s r) = length nds"
  "futures (put_row tb nds s r ! n) = futures (nds ! n)"
  "comm_id (put_row tb nds s r ! n) = comm_id (nds ! n)"
  "comm_nodes (put_row tb nds s r ! n) = comm_nodes (nds ! n)"
  "open_futures (put_row tb nds s r ! n) = open_futures (nds ! n)"
  "put_counts (put_row tb nds s r ! n) = put_counts (nds ! n)"
  "next_id (put_row tb nds s r ! n) = next_id (nds ! n)"
proof -
  show "length (put_row tb nds s r) = length nds" by (simp add: put_row_def Let_def)
qed (subst put_row_node, simp)+

lemma put_row_table:
  "length (tables (put_row tb nds s r ! n)) = length (tables (nds ! n))"
  "tb < length (tables (nds ! n)) \<Longrightarrow> t_id (tables (put_row tb nds s r ! n) ! tb) = t_id (tables (nds ! n) ! tb)"
  "tb < length (tables (nds ! n)) \<Longrightarrow> t_size (tables (put_row tb nds s r ! n) ! tb) = t_size (tables (nds ! n) ! tb)"
  "tb < length (tables (nds ! n)) \<Longrightarrow> length (t_data (tables (put_row tb nds s r ! n) ! tb)) = length (t_data (tables (nds ! n) ! tb))"
  by (cases "fst s < length nds"; cases "n = fst s"; simp add: put_row_def Let_def set_table_def list_update_beyond not_less)+

lemma put_row_node_ok: "node_ok N ts tb m (nds ! n) \<Longrightarrow> node_ok N ts tb m (put_row tb nds s r ! n)"
  by (simp add: node_ok_def put_row_table)

lemma put_row_ok: "nodes_ok ts tb sf w nds \<Longrightarrow> nodes_ok ts tb sf w (put_row tb nds s r)"
  by (simp add: nodes_ok_def put_row_node_ok)

text \<open>Changes of a node that leave its tables and its identity alone.\<close>

lemma nrow_keep: "tables nd = tables (nds ! n) \<Longrightarrow> nrow tb (nds[n := nd]) = nrow tb nds"
  by (rule ext, rename_tac s, case_tac "n < length nds"; case_tac "fst s = n")
    (simp_all add: nrow_def list_update_beyond not_less)

lemma nodes_ok_keep:
  assumes "nodes_ok ts tb sf w nds" "tables nd = tables (nds ! n)" "comm_id nd = comm_id (nds ! n)" "comm_nodes nd = comm_nodes (nds ! n)"
    and "n = sf \<Longrightarrow> open_futures nd = Map.empty \<and> put_counts nd = put_counts (nds ! sf)"
  shows "nodes_ok ts tb sf w (nds[n := nd])"
proof -
  have "node_ok (length nds) ts tb m (nds[n := nd] ! m)" if "m < length nds" for m
    using nodes_ok_node [OF assms(1) that] assms(2-4) that by (cases "m = n") (simp_all add: node_ok_def)
  moreover have "open_futures (nds[n := nd] ! sf) = Map.empty" "put_counts (nds[n := nd] ! sf) = put_counts (nds ! sf)"
    using assms(1,5) by (cases "n = sf"; simp add: nodes_ok_def)+
  ultimately show ?thesis using assms(1) by (simp add: nodes_ok_def)
qed

lemma comm_id_ok:
  assumes "nodes_ok ts tb sf w nds" "n < length nds"
  shows "unat (node_u32 (comm_id (nds ! n))) = n" "node_u32 (comm_id (nds ! n)) = word_of_nat n"
  using assms by (auto simp: nodes_ok_def node_ok_def unat_of_nat)

lemma send_ok_iff:
  assumes "nodes_ok ts tb sf w nds" "n < length nds"
  shows "send_ok (nds ! n) tgt \<longleftrightarrow> unat (node_u32 tgt) < length nds \<and> unat (node_u32 tgt) \<noteq> n"
proof -
  have "comm_nodes (nds ! n) = length nds" using assms by (simp add: nodes_ok_def node_ok_def)
  with comm_id_ok [OF assms] show ?thesis unfolding send_ok_def by (metis word_unat_eq_iff)
qed

section \<open>The worker's state\<close>

abbreviation futs :: "sys \<Rightarrow> future list" where
  "futs st \<equiv> futures (nodes st ! self st) (ex_tid (exec st))"

abbreviation acts :: "sys \<Rightarrow> action list" where
  "acts st \<equiv> actions (ex_log (exec st))"

abbreviation rows :: "sys \<Rightarrow> nat \<times> db_key \<Rightarrow> row" where
  "rows st \<equiv> nrow (kvs (exec st)) (nodes st)"

text \<open>The worker is set up: its cluster, its log, and room in its pools.\<close>

definition exec_ok :: "nat \<Rightarrow> sys \<Rightarrow> bool" where
  "exec_ok ts st \<longleftrightarrow> nodes_ok ts (kvs (exec st)) (self st) (ex_tid (exec st)) (nodes st) \<and>
     log_comm (ex_log (exec st)) = self st \<and> log_tid (ex_log (exec st)) = ex_tid (exec st) \<and>
     sp_max (log_pool (ex_log (exec st))) = 65536 \<and> sp_size (log_pool (ex_log (exec st))) \<le> 32 * length (futs st)"

text \<open>Only nodes and the log change.\<close>

definition frame :: "sys \<Rightarrow> sys \<Rightarrow> bool" where
  "frame st st' \<longleftrightarrow> st' = set_log (st\<lparr>nodes := nodes st'\<rparr>) (ex_log (exec st')) \<and> length (nodes st') = length (nodes st)"

lemma frame_sel:
  assumes "frame st st'"
  shows "self st' = self st" "kvs (exec st') = kvs (exec st)" "ex_tid (exec st') = ex_tid (exec st)"
    "mb_num (exec st') = mb_num (exec st)" "my_txns st' = my_txns st" "send_queue st' = send_queue st"
    "length (nodes st') = length (nodes st)"
proof -
  have e: "st' = set_log (st\<lparr>nodes := nodes st'\<rparr>) (ex_log (exec st'))" "length (nodes st') = length (nodes st)"
    using assms by (simp_all add: frame_def)
  show "length (nodes st') = length (nodes st)" by (rule e(2))
  show "self st' = self st" "kvs (exec st') = kvs (exec st)" "ex_tid (exec st') = ex_tid (exec st)"
    "mb_num (exec st') = mb_num (exec st)" "my_txns st' = my_txns st" "send_queue st' = send_queue st"
    by (subst e(1), simp add: set_log_def)+
qed

lemma frame_refl [simp]: "frame st st"
  by (simp add: frame_def set_log_def)

lemma frame_trans:
  assumes "frame st st1" "frame st1 st2"
  shows "frame st st2"
proof -
  have "st2 = set_log (st1\<lparr>nodes := nodes st2\<rparr>) (ex_log (exec st2))" "length (nodes st2) = length (nodes st1)"
    using assms(2) by (simp_all add: frame_def)
  moreover have "st1 = set_log (st\<lparr>nodes := nodes st1\<rparr>) (ex_log (exec st1))" "length (nodes st1) = length (nodes st)"
    using assms(1) by (simp_all add: frame_def)
  moreover have "set_log (set_log (st\<lparr>nodes := a\<rparr>) l\<lparr>nodes := b\<rparr>) l' = set_log (st\<lparr>nodes := b\<rparr>) l'" for a b l l'
    by (simp add: set_log_def)
  ultimately show ?thesis unfolding frame_def by metis
qed

lemma frameI [intro]: "length nds = length (nodes st) \<Longrightarrow> frame st (set_log (st\<lparr>nodes := nds\<rparr>) l)"
  "length nds = length (nodes st) \<Longrightarrow> frame st (st\<lparr>nodes := nds\<rparr>)"
  by (simp_all add: frame_def set_log_def)

lemma log_add_ok:
  assumes "sp_max (log_pool l) = 65536" "sp_size (log_pool l) \<le> 32 * n" "n < 300"
  shows "\<exists>l'. log_add l a = Inr l' \<and> actions l' = actions l @ [a] \<and> log_comm l' = log_comm l \<and> log_tid l' = log_tid l \<and>
    sp_max (log_pool l') = 65536 \<and> sp_size (log_pool l') \<le> 32 * Suc n"
proof -
  have "sizeof_action a \<le> 32" by (cases a) simp_all
  with assms show ?thesis by (simp add: log_add_def StackPool_allocate_def)
qed

section \<open>Acquiring a lock\<close>

text \<open>Whether a row grants a lock to a transaction.\<close>

definition grants :: "build_cfg \<Rightarrow> row \<Rightarrow> AccessMode \<Rightarrow> TxnId \<Rightarrow> bool" where
  "grants cfg r md i \<longleftrightarrow> is_compatible r md \<and> mb_allow_lock cfg r i = Inr True"

text \<open>The rule of mini-batches is applicable: the row's last mini-batch is not in the future.\<close>

definition in_order :: "row \<Rightarrow> TxnId \<Rightarrow> bool" where
  "in_order r i \<longleftrightarrow> (valid i \<longrightarrow> mini_batch_id (last_acq r) \<le> mini_batch_id i)"

lemma mb_allow_in_order: "in_order r i \<Longrightarrow> \<exists>b. mb_allow_lock cfg r i = Inr b"
  by (auto simp: mb_allow_lock_def in_order_def)

lemma table_get_eq:
  assumes "k < t_size t" "t_size t \<le> length (t_data t)" "in_order (t_data t ! k) (f_last_acq fut)" "md \<noteq> INVALID"
  shows "table_get cfg t k md fut = Inr
    (if grants cfg (t_data t ! k) md (f_last_acq fut)
     then (SUCCESS, t\<lparr>t_data := (t_data t)[k := grant (t_data t ! k) md]\<rparr>,
           fut\<lparr>f_tuple := RowPtr k, f_last_acq := last_acq (t_data t ! k)\<rparr>)
     else (lock_failed md, t, fut))"
proof -
  obtain b where b: "mb_allow_lock cfg (t_data t ! k) (f_last_acq fut) = Inr b" using mb_allow_in_order [OF assms(3)] by blast
  have "(t_data t)[k := t_data t ! k] = t_data t" by simp
  then have t: "t\<lparr>t_data := (t_data t)[k := t_data t ! k]\<rparr> = t" by simp
  show ?thesis
    using assms t b
    by (cases b)
      (simp_all add: table_get_def translate_def Let_def at_res_lt local_lock_def local_lock_locked_def grants_def grant_def)
qed

lemma lock_failed_err: "md \<noteq> INVALID \<Longrightarrow> err_not (lock_failed md)" "\<not> err_not SUCCESS"
  by (cases md; simp add: err_not_def)+

text \<open>\<open>get\<close> on a future that has its tuple, or has been refused.\<close>

lemma upd_future_same:
  "f < length (futures nd w) \<Longrightarrow> upd_future nd (w, f) (\<lambda>_. futures nd w ! f) = Inr nd"
  by (simp add: upd_future_def)

lemma fut_get_done:
  assumes "self st < length (nodes st)" "f < length (futs st)" "f_tuple (futs st ! f) \<noteq> NullPtr"
  shows "fut_get st f = Inr (if f_tuple (futs st ! f) = ExceptionPtr then NullPtr else f_tuple (futs st ! f), st)"
proof -
  have "future_get (futs st ! f) = Some (futs st ! f, if f_tuple (futs st ! f) = ExceptionPtr then NullPtr else f_tuple (futs st ! f))"
    using assms(3) by (cases "f_tuple (futs st ! f)") (simp_all add: future_get_def)
  moreover have "set_node st (nodes st ! self st) = st" by (simp add: set_node_def)
  ultimately show ?thesis
    using assms(1,2) by (simp add: fut_get_def Let_def my_node_def at_res_lt the_future_def upd_future_same)
qed

text \<open>The undo action of an operation whose future is at position \<open>f\<close>, and its row.\<close>

definition act_of :: "nat \<Rightarrow> OP \<Rightarrow> nat \<Rightarrow> action" where
  "act_of tb op f =
     (if is_local (loc_info op) then (if op_mode op = WRITE then Write tb (op_id op) f else Read tb (op_id op) f)
      else Remote (op_mode op) f (target (loc_info op)))"

definition place :: "nat \<Rightarrow> OP \<Rightarrow> nat \<times> db_key" where
  "place sf op = (if is_local (loc_info op) then sf else unat (node_u32 (target (loc_info op))), op_id op)"

text \<open>A future that holds its operation's lock, with the id to restore and (for a remote row) a tuple.\<close>

definition fut_holds :: "nat \<Rightarrow> OP \<Rightarrow> future \<Rightarrow> TxnId \<times> KV \<Rightarrow> bool" where
  "fut_holds tb op fut x \<longleftrightarrow> f_last_acq fut = fst x \<and>
     (if is_local (loc_info op) then f_tuple fut = RowPtr (op_id op)
      else f_tuple fut = PktPtr \<and> (\<exists>m. f_pkt fut = Some m \<and> m_tid m = tb \<and> rid m = op_id op \<and> m_mode m = op_mode op \<and>
        m_tuple m = Some (snd x)))"

text \<open>What a granted and what a refused lock leave behind.\<close>

definition granted :: "sys \<Rightarrow> OP \<Rightarrow> sys \<Rightarrow> bool" where
  "granted st op st' \<longleftrightarrow>
     (let s = place (self st) op; r = rows st s in
      rows st' = (rows st)(s := grant r (op_mode op)) \<and> acts st' = acts st @ [act_of (kvs (exec st)) op (length (futs st))] \<and>
      (\<exists>fut. futs st' = futs st @ [fut] \<and> fut_holds (kvs (exec st)) op fut (last_acq r, r_tuple r)))"

definition refused :: "sys \<Rightarrow> OP \<Rightarrow> sys \<Rightarrow> bool" where
  "refused st op st' \<longleftrightarrow> rows st' = rows st \<and>
     (\<exists>fut. futs st' = futs st @ [fut] \<and>
        (acts st' = acts st \<or>
         (\<exists>md tgt. acts st' = acts st @ [Remote md (length (futs st)) tgt] \<and> f_tuple fut = ExceptionPtr)))"

lemma alloc_future_ok:
  "length (futures nd w) < 300 \<Longrightarrow> alloc_future nd w =
     Inr (length (futures nd w), nd\<lparr>futures := (futures nd)(w := futures nd w @ [TupleFuture_mk])\<rparr>)"
  by (simp add: alloc_future_def StackPool_allocate_def sizeof_TupleFuture_def)

lemma exec_ok_append:
  assumes "exec_ok ts st" "frame st st'" "nodes_ok ts (kvs (exec st)) (self st) (ex_tid (exec st)) (nodes st')"
    and "futs st' = futs st @ [fut]" "log_comm (ex_log (exec st')) = log_comm (ex_log (exec st))"
    and "log_tid (ex_log (exec st')) = log_tid (ex_log (exec st))" "sp_max (log_pool (ex_log (exec st'))) = 65536"
    and "sp_size (log_pool (ex_log (exec st'))) \<le> 32 * Suc (length (futs st))"
  shows "exec_ok ts st'"
  using assms frame_sel [OF assms(2)] by (simp add: exec_ok_def)

lemma node_upd_swap: "nd\<lparr>tables := a, futures := b\<rparr> = nd\<lparr>futures := b, tables := a\<rparr>"
  by (cases nd) simp

lemma access_local_ok:
  assumes ok: "exec_ok ts st" and k: "op_id op < ts" and room: "length (futs st) < 300"
    and mb: "\<not> valid i \<or> unat (mini_batch_id i) = mb_num (exec st)" and io: "in_order (rows st (self st, op_id op)) i"
    and md: "op_mode op = md" "md \<noteq> INVALID" and loc: "is_local (loc_info op)"
  shows "\<exists>st'. access_local cfg md st op i = Inr (if grants cfg (rows st (self st, op_id op)) md i then Some (length (futs st)) else None, st') \<and>
    frame st st' \<and> exec_ok ts st' \<and>
    (if grants cfg (rows st (self st, op_id op)) md i then granted st op st' else refused st op st')"
proof -
  let ?nds = "nodes st" and ?sf = "self st" and ?w = "ex_tid (exec st)" and ?tb = "kvs (exec st)"
  let ?nd = "?nds ! ?sf" and ?k = "op_id op" and ?F = "futs st" and ?l = "ex_log (exec st)"
  let ?t = "tables ?nd ! ?tb" and ?r = "rows st (?sf, ?k)"
  let ?fut0 = "TupleFuture_mk\<lparr>f_last_acq := i\<rparr>"
  have nok: "nodes_ok ts ?tb ?sf ?w ?nds" and lg: "sp_max (log_pool ?l) = 65536" "sp_size (log_pool ?l) \<le> 32 * length ?F"
    using ok by (simp_all add: exec_ok_def)
  then have sf: "?sf < length ?nds" and open0: "open_futures ?nd = Map.empty" by (simp_all add: nodes_ok_def)
  have nd: "?tb < length (tables ?nd)" "t_size ?t = ts" "ts \<le> length (t_data ?t)"
    using nodes_ok_node [OF nok sf] by (simp_all add: node_ok_def)
  have r: "t_data ?t ! ?k = ?r" by (simp add: nrow_def)
  have rng: "in_range ts ?nds (?sf, ?k)" using sf k by (simp add: in_range_def)
  have fl: "f_last_acq ?fut0 = i" by simp
  define g where "g = grants cfg ?r md i"
  define fut where "fut = (if g then ?fut0\<lparr>f_tuple := RowPtr ?k, f_last_acq := last_acq ?r\<rparr> else ?fut0)"
  define t' where "t' = (if g then ?t\<lparr>t_data := (t_data ?t)[?k := grant ?r md]\<rparr> else ?t)"
  define nd' where "nd' = (set_table ?nd ?tb t')\<lparr>futures := (futures ?nd)(?w := ?F @ [fut])\<rparr>"
  have tg: "table_get cfg ?t ?k md ?fut0 = Inr (if g then SUCCESS else lock_failed md, t', fut)"
    using table_get_eq [of ?k ?t ?fut0 md cfg] k nd io md(2) by (simp add: r g_def fut_def t'_def)
  have uf: "upd_future (set_table (?nd\<lparr>futures := (futures ?nd)(?w := ?F @ [TupleFuture_mk])\<rparr>) ?tb t') (?w, length ?F) (\<lambda>_. fut) = Inr nd'"
    by (simp add: upd_future_def nd'_def set_table_def)
  define st1 where "st1 = set_node st nd'"
  have st1: "nodes st1 = ?nds[?sf := nd']" "self st1 = ?sf" "exec st1 = exec st"
    by (simp_all add: st1_def set_node_def)
  have n1: "nodes st1 ! ?sf = nd'" "futs st1 = ?F @ [fut]" using sf by (simp_all add: st1 nd'_def)
  have rws: "nrow ?tb (nodes st1) = (if g then (rows st)((?sf, ?k) := grant ?r md) else rows st) \<and> nodes_ok ts ?tb ?sf ?w (nodes st1)"
  proof -
    let ?nf = "?nd\<lparr>futures := (futures ?nd)(?w := ?F @ [fut])\<rparr>"
    have k1: "nrow ?tb (?nds[?sf := ?nf]) = rows st" by (rule nrow_keep) simp
    have k2: "nodes_ok ts ?tb ?sf ?w (?nds[?sf := ?nf])" by (rule nodes_ok_keep [OF nok]) (simp_all add: open0)
    have r1: "in_range ts (?nds[?sf := ?nf]) (?sf, ?k)" using rng by (simp add: in_range_def)
    have "nodes st1 = (if g then put_row ?tb (?nds[?sf := ?nf]) (?sf, ?k) (grant ?r md) else ?nds[?sf := ?nf])"
      using sf nd(1) by (simp add: st1 nd'_def t'_def put_row_def Let_def set_table_def node_upd_swap)
    then show ?thesis using k1 k2 put_row_nrow [OF k2 r1] put_row_ok [OF k2] by simp
  qed
  show ?thesis
  proof (cases g)
    case True
    obtain l where l: "log_add ?l (act_of ?tb op (length ?F)) = Inr l" "actions l = actions ?l @ [act_of ?tb op (length ?F)]"
      "log_comm l = log_comm ?l" "log_tid l = log_tid ?l" "sp_max (log_pool l) = 65536" "sp_size (log_pool l) \<le> 32 * Suc (length ?F)"
      using log_add_ok [OF lg room, of "act_of ?tb op (length ?F)"] by blast
    let ?st' = "set_log st1 l"
    have sel: "nodes ?st' = nodes st1" "self ?st' = ?sf" "ex_tid (exec ?st') = ?w" "kvs (exec ?st') = ?tb" "ex_log (exec ?st') = l"
      by (simp_all add: set_log_def st1)
    have fr: "frame st ?st'" unfolding st1_def set_node_def by (rule frameI) simp
    have "fut_get ?st' (length ?F) = Inr (RowPtr ?k, ?st')"
      using fut_get_done [of ?st' "length ?F"] sf n1 True by (simp add: sel st1 fut_def)
    then have run: "access_local cfg md st op i = Inr (Some (length ?F), ?st')"
      using sf nd(1) tg uf l(1) True mb loc md
      by (simp add: access_local_def Let_def my_node_def at_res_lt alloc_future_ok [OF room] lock_failed_err act_of_def st1 flip: st1_def)
    have "exec_ok ts ?st'"
      by (rule exec_ok_append [OF ok fr, of fut]) (use rws n1 l in \<open>simp_all add: sel st1\<close>)
    moreover have "granted st op ?st'"
      using rws n1 l(2) True md loc by (simp add: granted_def sel st1(2,3) place_def Let_def fut_holds_def fut_def)
    ultimately show ?thesis using run fr True by (auto simp: g_def)
  next
    case False
    have fr: "frame st st1" unfolding st1_def set_node_def by (rule frameI) simp
    have run: "access_local cfg md st op i = Inr (None, st1)"
      using sf nd(1) tg uf False mb md
      by (simp add: access_local_def Let_def my_node_def at_res_lt alloc_future_ok [OF room] lock_failed_err flip: st1_def)
    have "exec_ok ts st1"
      by (rule exec_ok_append [OF ok fr, of fut]) (use rws n1 lg in \<open>simp_all add: st1\<close>)
    moreover have "refused st op st1" using rws n1 False by (simp add: refused_def st1)
    ultimately show ?thesis using run fr False by (auto simp: g_def)
  qed
qed

lemma remote_get_ok:
  assumes "rid req < length (t_data t)" "in_order (t_data t ! rid req) (TxnId_unpack (pack req))" "m_mode req \<noteq> INVALID"
  obtains res where "remote_get cfg t req =
      Inr (if grants cfg (t_data t ! rid req) (m_mode req) (TxnId_unpack (pack req))
           then t\<lparr>t_data := (t_data t)[rid req := grant (t_data t ! rid req) (m_mode req)]\<rparr> else t, res)"
    "m_type res = TUPLE_GET_RES" "sender res = sender req" "msg_id res = msg_id req" "rid res = rid req" "m_tid res = m_tid req"
    "\<not> grants cfg (t_data t ! rid req) (m_mode req) (TxnId_unpack (pack req)) \<Longrightarrow> m_mode res = INVALID"
    "grants cfg (t_data t ! rid req) (m_mode req) (TxnId_unpack (pack req)) \<Longrightarrow>
       m_mode res = m_mode req \<and> TxnId_unpack (pack res) = last_acq (t_data t ! rid req) \<and> m_tuple res = Some (r_tuple (t_data t ! rid req))"
proof -
  let ?r = "t_data t ! rid req" and ?i = "TxnId_unpack (pack req)"
  let ?g = "grants cfg ?r (m_mode req) ?i"
  let ?res = "if ?g then (convert TUPLE_GET_RES req)\<lparr>plen := sizeof_msg TUPLE_GET_RES + sizeof_KV, pack := get_packed (last_acq ?r), m_tuple := Some (r_tuple ?r)\<rparr>
    else (convert TUPLE_GET_RES req)\<lparr>m_mode := INVALID\<rparr>"
  obtain b where b: "mb_allow_lock cfg ?r ?i = Inr b" using mb_allow_in_order [OF assms(2)] by blast
  have "(t_data t)[rid req := ?r] = t_data t" by simp
  then have t: "t\<lparr>t_data := (t_data t)[rid req := ?r]\<rparr> = t" by simp
  have "remote_get cfg t req = Inr (if ?g then t\<lparr>t_data := (t_data t)[rid req := grant ?r (m_mode req)]\<rparr> else t, ?res)"
    using assms b t
    by (cases b) (simp_all add: remote_get_def translate_def Let_def at_res_lt remote_lock_def grants_def grant_def convert_def)
  then show thesis by (rule that) (simp_all add: convert_def)
qed

text \<open>The exchange of a get request: the row of the other node, and the future at home.\<close>

lemma deliver_get:
  assumes node: "\<And>n. n < length nds \<Longrightarrow> node_ok (length nds) ts tb n (nds ! n)" "length nds \<le> 256"
    and sf: "sf < length nds" "unat (node_u32 tgt) < length nds" "unat (node_u32 tgt) \<noteq> sf"
    and req: "m_type req = TUPLE_GET_REQ" "m_tid req = tb" "rid req = k" "k < ts" "m_mode req = md" "md \<noteq> INVALID"
      "sender req = comm_id (nds ! sf)" "TxnId_unpack (pack req) = i"
    and io: "in_order (nrow tb nds (unat (node_u32 tgt), k)) i"
    and fut: "open_futures (nds ! sf) (word_of_nat (msg_id req)) = Some (w, f)" "f < length (futures (nds ! sf) w)"
  obtains res where "deliver cfg nds sf tgt req =
      Inr ((if grants cfg (nrow tb nds (unat (node_u32 tgt), k)) md i
            then put_row tb nds (unat (node_u32 tgt), k) (grant (nrow tb nds (unat (node_u32 tgt), k)) md) else nds)
           [sf := (nds ! sf)\<lparr>open_futures := (open_futures (nds ! sf))(word_of_nat (msg_id req) := None),
              futures := (futures (nds ! sf))(w := (futures (nds ! sf) w)[f := set_pkt res (futures (nds ! sf) w ! f)])\<rparr>])"
    "rid res = k" "m_tid res = tb"
    "\<not> grants cfg (nrow tb nds (unat (node_u32 tgt), k)) md i \<Longrightarrow> m_mode res = INVALID"
    "grants cfg (nrow tb nds (unat (node_u32 tgt), k)) md i \<Longrightarrow> m_mode res = md \<and>
       TxnId_unpack (pack res) = last_acq (nrow tb nds (unat (node_u32 tgt), k)) \<and> m_tuple res = Some (r_tuple (nrow tb nds (unat (node_u32 tgt), k)))"
proof -
  let ?n = "unat (node_u32 tgt)" and ?sfn = "nds ! sf"
  let ?t = "tables (nds ! ?n) ! tb" and ?r = "nrow tb nds (?n, k)" and ?m = "on_wire req"
  let ?g = "grants cfg ?r md i"
  have cid: "unat (node_u32 (comm_id (nds ! n))) = n" "comm_nodes (nds ! n) = length nds" if "n < length nds" for n
    using node(1) [OF that] that node(2) by (simp_all add: node_ok_def unat_of_nat)
  have so: "send_ok (nds ! n) x \<longleftrightarrow> unat (node_u32 x) < length nds \<and> unat (node_u32 x) \<noteq> n" if "n < length nds" for n x
    using cid [OF that] by (metis send_ok_def word_unat_eq_iff)
  have t: "tb < length (tables (nds ! ?n))" "k < length (t_data ?t)" using node(1) [OF sf(2)] req(4) by (auto simp: node_ok_def)
  have r: "t_data ?t ! k = ?r" by (simp add: nrow_def)
  have m: "rid ?m = k" "m_tid ?m = tb" "m_mode ?m = md" "TxnId_unpack (pack ?m) = i" "m_type ?m = TUPLE_GET_REQ"
    "sender ?m = comm_id ?sfn" "msg_id ?m = msg_id req"
    using req by (simp_all add: on_wire_def)
  obtain res where res: "remote_get cfg ?t ?m = Inr (if ?g then ?t\<lparr>t_data := (t_data ?t)[k := grant ?r md]\<rparr> else ?t, res)"
    "m_type res = TUPLE_GET_RES" "sender res = comm_id ?sfn" "msg_id res = msg_id req" "rid res = k" "m_tid res = tb"
    "\<not> ?g \<Longrightarrow> m_mode res = INVALID"
    "?g \<Longrightarrow> m_mode res = md \<and> TxnId_unpack (pack res) = last_acq ?r \<and> m_tuple res = Some (r_tuple ?r)"
    by (rule remote_get_ok [of ?m ?t cfg]) (use t io req(6) in \<open>simp_all add: m r\<close>)
  define t' where "t' = (if ?g then ?t\<lparr>t_data := (t_data ?t)[k := grant ?r md]\<rparr> else ?t)"
  define nds1 where "nds1 = nds[?n := set_table (nds ! ?n) tb t']"
  have n1: "nds1 = (if ?g then put_row tb nds (?n, k) (grant ?r md) else nds)"
    by (simp add: nds1_def t'_def put_row_def Let_def set_table_def)
  have sf1: "nds1 ! sf = ?sfn" "length nds1 = length nds" using sf(3) by (simp_all add: nds1_def)
  have nn1: "nds1 ! ?n = set_table (nds ! ?n) tb t'" using sf(2) by (simp add: nds1_def)
  have so1: "send_ok (nds1 ! ?n) (comm_id ?sfn)"
    using so [OF sf(2), of "comm_id ?sfn"] cid(1) [OF sf(1)] sf by (simp add: nn1 send_ok_def set_table_def)
  have h1: "handle cfg (nds ! ?n) ?m = Inr (set_table (nds ! ?n) tb t', Some (comm_id ?sfn, res))"
    using t(1) res(1,3) by (simp add: handle_def m handle_get_req_def at_res_lt t'_def)
  have d1: "deliver cfg nds sf tgt req = deliver cfg nds1 ?n (comm_id ?sfn) res"
    using sf so [OF sf(1), of tgt] h1 by (subst deliver.simps) (simp add: at_res_lt Let_def nds1_def)
  let ?res = "on_wire res"
  let ?sfn' = "?sfn\<lparr>open_futures := (open_futures ?sfn)(word_of_nat (msg_id req) := None),
     futures := (futures ?sfn)(w := (futures ?sfn w)[f := set_pkt ?res (futures ?sfn w ! f)])\<rparr>"
  have h2: "handle cfg ?sfn ?res = Inr (?sfn', None)"
    using fut res(2,4) by (simp add: handle_def on_wire_def handle_get_res_def Let_def upd_future_def)
  have "deliver cfg nds1 ?n (comm_id ?sfn) res = Inr (nds1[sf := ?sfn'])"
    using sf sf1 so1 h2 cid(1) [OF sf(1)] by (subst deliver.simps) (simp add: at_res_lt Let_def)
  with d1 n1 have "deliver cfg nds sf tgt req = Inr ((if ?g then put_row tb nds (?n, k) (grant ?r md) else nds)[sf := ?sfn'])"
    by simp
  then show thesis by (rule that) (use res in \<open>simp_all add: on_wire_def\<close>)
qed

lemma put_row_other:
  "n \<noteq> sf \<Longrightarrow> (put_row tb (nds[sf := a]) (n, k) r)[sf := b] = put_row tb (nds[sf := b]) (n, k) r"
  by (simp add: put_row_def Let_def list_update_swap [of n sf])

lemma access_remote_ok:
  assumes ok: "exec_ok ts st" and k: "op_id op < ts" and room: "length (futs st) < 300"
    and io: "in_order (rows st (place (self st) op)) i" and md: "op_mode op = md" "md \<noteq> INVALID"
    and loc: "\<not> is_local (loc_info op)" "unat (node_u32 (target (loc_info op))) < length (nodes st)"
      "unat (node_u32 (target (loc_info op))) \<noteq> self st"
  shows "\<exists>st'. access_remote cfg md st op i = Inr (if grants cfg (rows st (place (self st) op)) md i then Some (length (futs st)) else None, st') \<and>
    frame st st' \<and> exec_ok ts st' \<and>
    (if grants cfg (rows st (place (self st) op)) md i then granted st op st' else refused st op st')"
proof -
  let ?nds = "nodes st" and ?sf = "self st" and ?w = "ex_tid (exec st)" and ?tb = "kvs (exec st)"
  let ?nd = "?nds ! ?sf" and ?k = "op_id op" and ?F = "futs st" and ?l = "ex_log (exec st)" and ?tgt = "target (loc_info op)"
  let ?n = "unat (node_u32 ?tgt)" and ?mid = "next_id ?nd"
  have pl: "place ?sf op = (?n, ?k)" using loc(1) by (simp add: place_def)
  let ?r = "rows st (?n, ?k)"
  have nok: "nodes_ok ts ?tb ?sf ?w ?nds" and lg: "sp_max (log_pool ?l) = 65536" "sp_size (log_pool ?l) \<le> 32 * length ?F"
    using ok by (simp_all add: exec_ok_def)
  then have sf: "?sf < length ?nds" and open0: "open_futures ?nd = Map.empty" and N: "length ?nds \<le> 256" by (simp_all add: nodes_ok_def)
  have nd: "?tb < length (tables ?nd)" "t_id (tables ?nd ! ?tb) = ?tb"
    using nodes_ok_node [OF nok sf] by (simp_all add: node_ok_def)
  define g where "g = grants cfg ?r md i"
  let ?req = "(TupleGetReq_mk (ex_ts (exec st)) ?tb ?k md i)\<lparr>sender := comm_id ?nd, msg_id := unat ?mid\<rparr>"
  let ?nd1 = "?nd\<lparr>futures := (futures ?nd)(?w := ?F @ [TupleFuture_mk]), next_id := ?mid + 1, open_futures := [?mid \<mapsto> (?w, length ?F)]\<rparr>"
  let ?nds1 = "?nds[?sf := ?nd1]"
  have rw1: "nrow ?tb ?nds1 = rows st" by (rule nrow_keep) simp
  have sf1: "?nds1 ! ?sf = ?nd1" using sf by simp
  have nodes1: "node_ok (length ?nds1) ts ?tb n (?nds1 ! n)" if "n < length ?nds1" for n
    using nodes_ok_node [OF nok, of n] that by (cases "n = ?sf") (simp_all add: node_ok_def)
  have sf1': "length ?nds1 \<le> 256" "?sf < length ?nds1" "?n < length ?nds1" using N sf loc by simp_all
  have rq: "m_type ?req = TUPLE_GET_REQ" "m_tid ?req = ?tb" "rid ?req = ?k" "m_mode ?req = md" "sender ?req = comm_id (?nds1 ! ?sf)"
    "TxnId_unpack (pack ?req) = i" using sf by (simp_all add: TupleGetReq_mk_def)
  have io1: "in_order (nrow ?tb ?nds1 (?n, ?k)) i" using io by (simp only: rw1 pl)
  have ft: "open_futures (?nds1 ! ?sf) (word_of_nat (msg_id ?req)) = Some (?w, length ?F)" "length ?F < length (futures (?nds1 ! ?sf) ?w)"
    using sf by simp_all
  note dg = deliver_get [OF nodes1 sf1' loc(3) rq(1-3) k rq(4) md(2) rq(5,6) io1 ft, of cfg, unfolded rw1, folded g_def]
  obtain res where dl: "deliver cfg ?nds1 ?sf ?tgt ?req =
      Inr ((if g then put_row ?tb ?nds1 (?n, ?k) (grant ?r md) else ?nds1)
        [?sf := (?nds1 ! ?sf)\<lparr>open_futures := (open_futures (?nds1 ! ?sf))(word_of_nat (msg_id ?req) := None),
           futures := (futures (?nds1 ! ?sf))(?w := (futures (?nds1 ! ?sf) ?w)[length ?F := set_pkt res (futures (?nds1 ! ?sf) ?w ! length ?F)])\<rparr>])"
    and res: "rid res = ?k" "m_tid res = ?tb" "\<not> g \<Longrightarrow> m_mode res = INVALID"
      "g \<Longrightarrow> m_mode res = md \<and> TxnId_unpack (pack res) = last_acq ?r \<and> m_tuple res = Some (r_tuple ?r)"
    by (rule dg) blast+
  define nd2 where "nd2 = ?nd\<lparr>next_id := ?mid + 1, open_futures := Map.empty, futures := (futures ?nd)(?w := ?F @ [set_pkt res TupleFuture_mk])\<rparr>"
  have nd2: "(?nds1 ! ?sf)\<lparr>open_futures := (open_futures (?nds1 ! ?sf))(word_of_nat (msg_id ?req) := None),
      futures := (futures (?nds1 ! ?sf))(?w := (futures (?nds1 ! ?sf) ?w)[length ?F := set_pkt res (futures (?nds1 ! ?sf) ?w ! length ?F)])\<rparr> = nd2"
    unfolding sf1 nd2_def by (cases ?nd) (simp add: fun_upd_twist)
  define upd where "upd = (\<lambda>nd'. if g then put_row ?tb (?nds[?sf := nd']) (?n, ?k) (grant ?r md) else ?nds[?sf := nd'])"
  have dl2: "deliver cfg ?nds1 ?sf ?tgt ?req = Inr (upd nd2)"
    unfolding dl nd2 upd_def using put_row_other [OF loc(3)] by simp
  define fut where "fut = (if g then (set_pkt res TupleFuture_mk)\<lparr>f_tuple := PktPtr, f_last_acq := last_acq ?r\<rparr>
    else (set_pkt res TupleFuture_mk)\<lparr>f_tuple := ExceptionPtr\<rparr>)"
  have fg: "future_get (set_pkt res TupleFuture_mk) = Some (fut, if g then PktPtr else NullPtr)"
    using res(3,4) md(2) by (auto simp: future_get_def future_wait_def set_pkt_def TupleFuture_mk_def fut_def)
  define nd3 where "nd3 = nd2\<lparr>futures := (futures nd2)(?w := ?F @ [fut])\<rparr>"
  have usf: "upd x ! ?sf = x" "length (upd x) = length ?nds" for x
    using sf loc(3) by (simp_all add: upd_def put_row_def Let_def)
  have uu: "(upd nd2)[?sf := nd3] = upd nd3" using put_row_other [OF loc(3), of ?tb ?nds nd2] by (simp add: upd_def)
  obtain l where l: "log_add ?l (Remote md (length ?F) ?tgt) = Inr l" "actions l = actions ?l @ [Remote md (length ?F) ?tgt]"
    "log_comm l = log_comm ?l" "log_tid l = log_tid ?l" "sp_max (log_pool l) = 65536" "sp_size (log_pool l) \<le> 32 * Suc (length ?F)"
    using log_add_ok [OF lg room, of "Remote md (length ?F) ?tgt"] by blast
  define st2 where "st2 = set_log (st\<lparr>nodes := upd nd2\<rparr>) l"
  define st' where "st' = set_log (st\<lparr>nodes := upd nd3\<rparr>) l"
  have get: "fut_get st2 (length ?F) = Inr (if g then PktPtr else NullPtr, st')"
  proof -
    have "upd_future nd2 (?w, length ?F) (\<lambda>_. fut) = Inr nd3" by (simp add: upd_future_def nd2_def nd3_def)
    then show ?thesis
      using usf sf fg uu
      by (simp add: fut_get_def Let_def st2_def st'_def set_log_def my_node_def set_node_def at_res_lt the_future_def nd2_def)
  qed
  have run: "access_remote cfg md st op i = Inr (if g then Some (length ?F) else None, st')"
    using sf nd l(1) get dl2 open0
    by (simp add: access_remote_def Let_def my_node_def set_node_def at_res_lt alloc_future_ok [OF room] set_new_id_def add_future_def st2_def)
  have fr: "frame st st'" unfolding st'_def by (rule frameI) (simp add: usf)
  have sel: "nodes st' = upd nd3" "ex_log (exec st') = l" "kvs (exec st') = ?tb" "self st' = ?sf" "ex_tid (exec st') = ?w"
    by (simp_all add: st'_def set_log_def)
  have F: "futs st' = ?F @ [fut]" by (simp add: sel usf nd3_def)
  have rng: "in_range ts (?nds[?sf := nd3]) (?n, ?k)" using loc(2) k by (simp add: in_range_def)
  have k1: "nrow ?tb (?nds[?sf := nd3]) = rows st" by (rule nrow_keep) (simp add: nd3_def nd2_def)
  have k2: "nodes_ok ts ?tb ?sf ?w (?nds[?sf := nd3])" by (rule nodes_ok_keep [OF nok]) (simp_all add: nd3_def nd2_def)
  have rws: "nrow ?tb (upd nd3) = (if g then (rows st)((?n, ?k) := grant ?r md) else rows st)" "nodes_ok ts ?tb ?sf ?w (upd nd3)"
    using put_row_nrow [OF k2 rng] put_row_ok [OF k2] k1 k2 by (simp_all add: upd_def)
  have "exec_ok ts st'" by (rule exec_ok_append [OF ok fr _ F]) (use rws l in \<open>simp_all add: sel\<close>)
  moreover have "granted st op st'" if g
    using that rws F l(2) loc(1) md res
    by (simp add: granted_def pl Let_def sel act_of_def fut_holds_def fut_def set_pkt_def)
  moreover have "refused st op st'" if "\<not> g"
    using that rws F l(2) by (simp add: refused_def sel fut_def)
  ultimately show ?thesis using run fr by (auto simp: g_def pl)
qed

section \<open>Stacks of locks on a row\<close>

text \<open>
  A transaction's locks on one row are either any number of read locks or a single write lock;
  \<open>stack_ok r ms\<close> says that the row \<open>r\<close> can carry the locks \<open>ms\<close>.
\<close>

definition stack_ok :: "row \<Rightarrow> AccessMode list \<Rightarrow> bool" where
  "stack_ok r ms \<longleftrightarrow> row_wf r \<and> unat (owner_cnt r) + length ms < 2 ^ 32 \<and>
     (ms = [] \<or> set ms = {READ} \<and> lock_type r \<noteq> WRITE \<or> ms = [WRITE] \<and> lock_type r = INVALID)"

abbreviation stack :: "row \<Rightarrow> AccessMode list \<Rightarrow> row" where
  "stack r ms \<equiv> foldl grant r ms"

lemma stack_sel [simp]:
  "last_acq (stack r ms) = last_acq r" "r_tuple (stack r ms) = r_tuple r"
  "owner_cnt (stack r ms) = owner_cnt r + word_of_nat (length ms)"
  "lock_type (stack r ms) = (if ms = [] then lock_type r else last ms)"
  by (induction ms arbitrary: r) auto

lemma stack_extend:
  assumes "stack_ok r ms" "is_compatible (stack r ms) md" "md \<noteq> INVALID" "unat (owner_cnt r) + length ms < 2 ^ 32 - 1"
  shows "stack_ok r (ms @ [md])"
proof -
  have b: "row_wf r" "unat (owner_cnt r) + length (ms @ [md]) < 2 ^ 32" using assms(1,4) by (simp_all add: stack_ok_def)
  have "set (ms @ [md]) = {READ} \<and> lock_type r \<noteq> WRITE \<or> ms @ [md] = [WRITE] \<and> lock_type r = INVALID"
  proof (cases "ms = []")
    case True
    with assms(2,3) show ?thesis by (cases md; cases "lock_type r") (simp_all add: is_compatible_def)
  next
    case False
    then have l: "last ms \<in> set ms" "lock_type (stack r ms) = last ms" by simp_all
    from assms(1) False consider "set ms = {READ}" "lock_type r \<noteq> WRITE" | "ms = [WRITE]" unfolding stack_ok_def by blast
    then show ?thesis
    proof cases
      case 1
      then have "lock_type (stack r ms) = READ" using l by simp
      with assms(2,3) have "md = READ" by (cases md) (simp_all only: is_compatible_def AccessMode.distinct if_True if_False simp_thms)
      with 1 show ?thesis by simp
    next
      case 2
      with assms(2) show ?thesis by (simp add: is_compatible_def)
    qed
  qed
  with b show ?thesis unfolding stack_ok_def by blast
qed

lemma stack_upd: "stack (r\<lparr>last_acq := la\<rparr>) ms = (stack r ms)\<lparr>last_acq := la\<rparr>" "stack (r\<lparr>r_tuple := t\<rparr>) ms = (stack r ms)\<lparr>r_tuple := t\<rparr>"
proof (induction ms arbitrary: r)
  case (Cons m ms)
  have g: "grant (r\<lparr>last_acq := la\<rparr>) m = (grant r m)\<lparr>last_acq := la\<rparr>" "grant (r\<lparr>r_tuple := t\<rparr>) m = (grant r m)\<lparr>r_tuple := t\<rparr>"
    by (cases r; simp add: grant_def)+
  { case 1 show ?case using Cons.IH(1) [of "grant r m"] by (simp add: g) next
    case 2 show ?case using Cons.IH(2) [of "grant r m"] by (simp add: g) }
qed simp_all

lemma stack_ok_upd [simp]:
  "stack_ok (r\<lparr>last_acq := la\<rparr>) ms = stack_ok r ms" "stack_ok (r\<lparr>r_tuple := t\<rparr>) ms = stack_ok r ms"
  by (simp_all add: stack_ok_def row_wf_def)

text \<open>Releasing one lock of a stack takes it off and stores the id.\<close>

lemma stack_release:
  assumes "stack_ok r (m # ms)"
  shows "local_unlock (stack r (m # ms)) m la = (SUCCESS, stack (r\<lparr>last_acq := la\<rparr>) ms)" and "stack_ok r ms"
proof -
  let ?n = "length ms" and ?X = "stack r (m # ms)"
  let ?c = "owner_cnt r + word_of_nat ?n"
  have c: "m = READ \<and> (ms \<noteq> [] \<longrightarrow> last ms = READ) \<and> lock_type r \<noteq> WRITE \<or> m = WRITE \<and> ms = [] \<and> lock_type r = INVALID"
  proof -
    have "set ms \<subseteq> {READ} \<Longrightarrow> ms \<noteq> [] \<Longrightarrow> last ms = READ" using last_in_set [of ms] by blast
    with assms show ?thesis by (auto simp: stack_ok_def)
  qed
  have lt: "lock_type ?X = m" using c by auto
  have small: "unat (owner_cnt r) + Suc ?n < 2 ^ 32" and wf: "row_wf r" using assms by (simp_all add: stack_ok_def)
  have cnt: "owner_cnt ?X - 1 = ?c" by simp
  have "unat ?c = unat (owner_cnt r) + ?n"
    using small by (simp add: unat_word_ariths unat_of_nat)
  then have pos: "0 < ?c \<longleftrightarrow> 0 < unat (owner_cnt r) + ?n"
    using owner_pos [of ?c] by linarith
  show "stack_ok r ms" using assms by (auto simp: stack_ok_def subset_singleton_iff)
  define Y where "Y = ?X\<lparr>last_acq := la, owner_cnt := ?c\<rparr>"
  have "local_unlock ?X m la = (SUCCESS, if 0 < ?c then Y else Y\<lparr>lock_type := INVALID\<rparr>)"
    unfolding local_unlock_def Let_def Y_def using lt cnt by (simp del: foldl_Cons stack_sel)
  moreover have "(if 0 < ?c then Y else Y\<lparr>lock_type := INVALID\<rparr>) = stack (r\<lparr>last_acq := la\<rparr>) ms"
  proof (cases "0 < ?c")
    case True
    have "lock_type (stack r ms) = m"
    proof (cases "ms = []")
      case e: True
      then have "owner_cnt r \<noteq> 0" using True by auto
      then show ?thesis using c wf e by (cases "lock_type r") (auto simp: row_wf_def)
    qed (use c in auto)
    with lt have "Y = stack (r\<lparr>last_acq := la\<rparr>) ms"
      unfolding Y_def stack_upd by (intro row.equality) (simp_all del: foldl_Cons)
    with True show ?thesis by simp
  next
    case False
    then have e: "ms = []" "owner_cnt r = 0" using pos by (auto simp: unat_eq_0)
    then have "lock_type r = INVALID" using wf by (simp add: row_wf_def)
    with e have "Y\<lparr>lock_type := INVALID\<rparr> = r\<lparr>last_acq := la\<rparr>" unfolding Y_def by (intro row.equality) simp_all
    with False e show ?thesis by simp
  qed
  ultimately show "local_unlock ?X m la = (SUCCESS, stack (r\<lparr>last_acq := la\<rparr>) ms)" by simp
qed

section \<open>The lock phase\<close>

text \<open>An operation names a row of the cluster: local, or on another node.\<close>

definition op_fits :: "nat \<Rightarrow> sys \<Rightarrow> OP \<Rightarrow> bool" where
  "op_fits ts st op \<longleftrightarrow> op_id op < ts \<and>
     (is_local (loc_info op) \<or>
      unat (node_u32 (target (loc_info op))) < length (nodes st) \<and> unat (node_u32 (target (loc_info op))) \<noteq> self st)"

lemma access_ok:
  assumes "exec_ok ts st" "op_fits ts st op" "length (futs st) < 300" "\<not> valid i \<or> unat (mini_batch_id i) = mb_num (exec st)"
    and "in_order (rows st (place (self st) op)) i" "op_mode op \<noteq> INVALID"
  shows "\<exists>st'. (if op_mode op = WRITE then exec_write cfg st op i else exec_read cfg st op i) =
      Inr (if grants cfg (rows st (place (self st) op)) (op_mode op) i then Some (length (futs st)) else None, st') \<and>
    frame st st' \<and> exec_ok ts st' \<and>
    (if grants cfg (rows st (place (self st) op)) (op_mode op) i then granted st op st' else refused st op st')"
proof -
  have md: "op_mode op = WRITE \<or> op_mode op = READ" using assms(6) by (cases "op_mode op") simp_all
  show ?thesis
  proof (cases "is_local (loc_info op)")
    case True
    have "place (self st) op = (self st, op_id op)" using True by (simp add: place_def)
    then show ?thesis
      using access_local_ok [OF assms(1) _ assms(3,4) _ refl assms(6) True, of cfg] assms(2,5) md True
      by (auto simp: exec_write_def exec_read_def op_fits_def)
  next
    case False
    then show ?thesis
      using access_remote_ok [OF assms(1) _ assms(3,5) refl assms(6) False, of cfg] assms(2) md
      by (auto simp: exec_write_def exec_read_def op_fits_def)
  qed
qed

definition modes_at :: "nat \<Rightarrow> nat \<times> db_key \<Rightarrow> OP list \<Rightarrow> AccessMode list" where
  "modes_at sf s ops = map op_mode (filter (\<lambda>op. place sf op = s) ops)"

lemma modes_at_simps [simp]:
  "modes_at sf s [] = []"
  "modes_at sf s (xs @ ys) = modes_at sf s xs @ modes_at sf s ys"
  "modes_at sf s (op # ops) = (if place sf op = s then op_mode op # modes_at sf s ops else modes_at sf s ops)"
  by (simp_all add: modes_at_def)

definition acts_of :: "nat \<Rightarrow> OP list \<Rightarrow> action list" where
  "acts_of tb ops = map (\<lambda>j. act_of tb (ops ! j) j) [0..<length ops]"

lemma acts_of_snoc: "acts_of tb (ops @ [op]) = acts_of tb ops @ [act_of tb op (length ops)]"
  by (simp add: acts_of_def nth_append)

text \<open>
  After the locks of \<open>ops\<close> have been taken, starting from state \<open>st0\<close>: the rows carry them, and the
  futures remember what the rows were.
\<close>

definition locked :: "nat \<Rightarrow> sys \<Rightarrow> OP list \<Rightarrow> sys \<Rightarrow> bool" where
  "locked ts st0 ops st \<longleftrightarrow> frame st0 st \<and> exec_ok ts st \<and> length ops \<le> length (futs st) \<and>
     (\<forall>j < length ops. fut_holds (kvs (exec st0)) (ops ! j) (futs st ! j)
        (last_acq (rows st0 (place (self st0) (ops ! j))), r_tuple (rows st0 (place (self st0) (ops ! j))))) \<and>
     (\<forall>s. rows st s = stack (rows st0 s) (modes_at (self st0) s ops)) \<and>
     (\<forall>s. in_range ts (nodes st0) s \<longrightarrow> stack_ok (rows st0 s) (modes_at (self st0) s ops))"

lemma lockedD:
  assumes "locked ts st0 ops st"
  shows "frame st0 st" "exec_ok ts st" "length ops \<le> length (futs st)"
    "j < length ops \<Longrightarrow> fut_holds (kvs (exec st0)) (ops ! j) (futs st ! j)
        (last_acq (rows st0 (place (self st0) (ops ! j))), r_tuple (rows st0 (place (self st0) (ops ! j))))"
    "rows st s = stack (rows st0 s) (modes_at (self st0) s ops)"
    "in_range ts (nodes st0) s \<Longrightarrow> stack_ok (rows st0 s) (modes_at (self st0) s ops)"
  using assms unfolding locked_def by blast+

text \<open>The log after a lock phase that took the locks of \<open>ops\<close>, and perhaps asked another node in vain.\<close>

definition logged :: "OP list \<Rightarrow> sys \<Rightarrow> bool" where
  "logged ops st \<longleftrightarrow> acts st = acts_of (kvs (exec st)) ops \<or>
     (\<exists>md tgt. acts st = acts_of (kvs (exec st)) ops @ [Remote md (length ops) tgt] \<and>
        length ops < length (futs st) \<and> f_tuple (futs st ! length ops) = ExceptionPtr)"

text \<open>The rows a transaction may meet: well-formed, far from the limit of readers, not from a later mini-batch.\<close>

definition rows_ok :: "nat \<Rightarrow> TxnId \<Rightarrow> sys \<Rightarrow> bool" where
  "rows_ok ts i st \<longleftrightarrow> (\<forall>s. in_range ts (nodes st) s \<longrightarrow>
     row_wf (rows st s) \<and> unat (owner_cnt (rows st s)) < 2 ^ 31 \<and> in_order (rows st s) i)"

lemma rows_okD:
  assumes "rows_ok ts i st" "in_range ts (nodes st) s"
  shows "row_wf (rows st s)" "unat (owner_cnt (rows st s)) < 2 ^ 31" "in_order (rows st s) i"
  using assms unfolding rows_ok_def by blast+

lemma locked_granted:
  assumes "locked ts st0 ops st" "length (futs st) = length ops" "length ops < 300" "rows_ok ts i st0" "op_fits ts st op" "op_mode op \<noteq> INVALID"
    and "grants cfg (rows st (place (self st) op)) (op_mode op) i" "frame st st'" "exec_ok ts st'" "granted st op st'"
  shows "locked ts st0 (ops @ [op]) st'" "length (futs st') = length (ops @ [op])"
    "acts st = acts_of (kvs (exec st)) ops \<Longrightarrow> acts st' = acts_of (kvs (exec st')) (ops @ [op])"
proof -
  have fr: "frame st0 st" and fr': "frame st0 st'"
    using lockedD(1) [OF assms(1)] frame_trans [OF _ assms(8)] by blast+
  note sel = frame_sel [OF fr] and sel' = frame_sel [OF fr']
  let ?s = "place (self st0) op" and ?sf = "self st0"
  have R: "rows st s = stack (rows st0 s) (modes_at ?sf s ops)" for s by (rule lockedD(5) [OF assms(1)])
  obtain fut where g: "rows st' = (rows st)(?s := grant (rows st ?s) (op_mode op))" "futs st' = futs st @ [fut]"
    "fut_holds (kvs (exec st0)) op fut (last_acq (rows st ?s), r_tuple (rows st ?s))"
    "acts st' = acts st @ [act_of (kvs (exec st)) op (length (futs st))]"
    using assms(10) sel unfolding granted_def Let_def by auto
  show "length (futs st') = length (ops @ [op])" using g(2) assms(2) by simp
  show "acts st' = acts_of (kvs (exec st')) (ops @ [op])" if "acts st = acts_of (kvs (exec st)) ops"
    using g(4) that assms(2) sel sel' by (simp add: acts_of_snoc)
  have rng: "in_range ts (nodes st0) ?s"
    using assms(5) lockedD(2) [OF assms(1)] sel by (auto simp: op_fits_def in_range_def place_def exec_ok_def nodes_ok_def)
  have cmp: "is_compatible (stack (rows st0 ?s) (modes_at ?sf ?s ops)) (op_mode op)"
    using assms(7) sel R by (simp add: grants_def)
  have "stack_ok (rows st0 ?s) (modes_at ?sf ?s ops)" by (rule lockedD(6) [OF assms(1) rng])
  moreover have "length (modes_at ?sf ?s ops) \<le> length ops" by (simp add: modes_at_def)
  moreover have "unat (owner_cnt (rows st0 ?s)) < 2 ^ 31" by (rule rows_okD(2) [OF assms(4) rng])
  ultimately have "stack_ok (rows st0 ?s) (modes_at ?sf ?s ops @ [op_mode op])"
    by (intro stack_extend [OF _ cmp assms(6)]) (use assms(3) in simp_all)
  moreover have "stack_ok (rows st0 s) (modes_at ?sf s ops)" if "in_range ts (nodes st0) s" for s
    by (rule lockedD(6) [OF assms(1) that])
  moreover have "fut_holds (kvs (exec st0)) ((ops @ [op]) ! j) (futs st' ! j)
      (last_acq (rows st0 (place ?sf ((ops @ [op]) ! j))), r_tuple (rows st0 (place ?sf ((ops @ [op]) ! j))))"
    if "j < length (ops @ [op])" for j
    using lockedD(4) [OF assms(1), of j] assms(2) g(2,3) that R by (cases "j < length ops") (auto simp: nth_append less_Suc_eq)
  ultimately show "locked ts st0 (ops @ [op]) st'"
    unfolding locked_def using fr' assms(2,9) g(1,2) R by (intro conjI allI impI) auto
qed

lemma locked_refused:
  assumes "locked ts st0 ops st" "length (futs st) = length ops" "acts st = acts_of (kvs (exec st)) ops"
    and "frame st st'" "exec_ok ts st'" "refused st op st'"
  shows "locked ts st0 ops st'" "logged ops st'"
proof -
  have fr': "frame st0 st'" using lockedD(1) [OF assms(1)] frame_trans [OF _ assms(4)] by blast
  note sel = frame_sel [OF assms(4)]
  obtain fut where r: "rows st' = rows st" "futs st' = futs st @ [fut]"
    "acts st' = acts st \<or> (\<exists>md tgt. acts st' = acts st @ [Remote md (length (futs st)) tgt] \<and> f_tuple fut = ExceptionPtr)"
    using assms(6) unfolding refused_def by blast
  show "locked ts st0 ops st'"
    unfolding locked_def using fr' assms(2,5) r(1,2) lockedD(4-6) [OF assms(1)]
    by (intro conjI allI impI) (auto simp: nth_append)
  show "logged ops st'" using r(2,3) assms(2,3) sel by (auto simp: logged_def nth_append)
qed

text \<open>Whether a transaction gets all its locks, on rows that change as it takes them.\<close>

fun can_lock :: "build_cfg \<Rightarrow> TxnId \<Rightarrow> nat \<Rightarrow> (nat \<times> db_key \<Rightarrow> row) \<Rightarrow> OP list \<Rightarrow> bool" where
  "can_lock cfg i sf R [] = True"
| "can_lock cfg i sf R (op # ops) =
     (op_mode op = INVALID \<or>
      grants cfg (R (place sf op)) (op_mode op) i \<and>
      can_lock cfg i sf (R(place sf op := grant (R (place sf op)) (op_mode op))) ops)"

lemma lock_ops_ok:
  assumes "locked ts st0 pre st" "length (futs st) = length pre" "acts st = acts_of (kvs (exec st)) pre"
    and "rows_ok ts i st0" "\<forall>op \<in> set (live_ops ops). op_fits ts st0 op" "length pre + length ops < 300"
    and "\<not> valid i \<or> unat (mini_batch_id i) = mb_num (exec st0)" "may_end \<or> (\<forall>op \<in> set ops. op_mode op \<noteq> INVALID)"
  shows "if can_lock cfg i (self st0) (rows st) ops
    then \<exists>st'. lock_ops cfg may_end i st ops [0..<length pre] = Inr (Some [0..<length pre + length (live_ops ops)], st') \<and>
      locked ts st0 (pre @ live_ops ops) st' \<and> length (futs st') = length (pre @ live_ops ops) \<and>
      acts st' = acts_of (kvs (exec st')) (pre @ live_ops ops)
    else \<exists>st' pre'. lock_ops cfg may_end i st ops [0..<length pre] = Inr (None, st') \<and>
      locked ts st0 pre' st' \<and> logged pre' st' \<and> set pre' \<subseteq> set pre \<union> set (live_ops ops)"
  using assms
proof (induction ops arbitrary: pre st)
  case Nil
  then show ?case by (auto simp: live_ops_def)
next
  case (Cons op ops)
  show ?case
  proof (cases "op_mode op = INVALID")
    case True
    with Cons.prems show ?thesis by (auto simp: live_ops_def)
  next
    case False
    note lk = Cons.prems(1)
    note sel = frame_sel [OF lockedD(1) [OF lk]]
    let ?s = "place (self st0) op"
    have fits: "op_fits ts st op" using Cons.prems(5) False sel by (simp add: op_fits_def live_ops_def)
    have rng: "in_range ts (nodes st0) ?s"
      using fits lockedD(2) [OF lk] sel by (auto simp: op_fits_def in_range_def place_def exec_ok_def nodes_ok_def)
    have io: "in_order (rows st (place (self st) op)) i"
      using rows_okD(3) [OF Cons.prems(4) rng] lockedD(5) [OF lk, of ?s] sel by (simp add: in_order_def)
    have mb: "\<not> valid i \<or> unat (mini_batch_id i) = mb_num (exec st)" using Cons.prems(7) sel by simp
    have room: "length (futs st) < 300" using Cons.prems(2,6) by simp
    let ?g = "grants cfg (rows st ?s) (op_mode op) i"
    obtain st1 where st1: "(if op_mode op = WRITE then exec_write cfg st op i else exec_read cfg st op i) = Inr (if ?g then Some (length pre) else None, st1)"
      "frame st st1" "exec_ok ts st1" "if ?g then granted st op st1 else refused st op st1"
      using access_ok [OF lockedD(2) [OF lk] fits room mb io False, of cfg] Cons.prems(2) sel(1) by auto
    show ?thesis
    proof (cases ?g)
      case True
      have g1: "grants cfg (rows st (place (self st) op)) (op_mode op) i" "granted st op st1" using True st1(4) sel(1) by auto
      have lp: "length pre < 300" using Cons.prems(6) by simp
      note l1 = locked_granted [OF lk Cons.prems(2) lp Cons.prems(4) fits False g1(1) st1(2,3) g1(2)]
      have "rows st1 = (rows st)(?s := grant (rows st ?s) (op_mode op))"
        using g1(2) sel(1) by (simp add: granted_def Let_def)
      then have cl: "can_lock cfg i (self st0) (rows st) (op # ops) = can_lock cfg i (self st0) (rows st1) ops"
        using True False by simp
      have lv: "pre @ live_ops (op # ops) = (pre @ [op]) @ live_ops ops"
        "length pre + length (live_ops (op # ops)) = length (pre @ [op]) + length (live_ops ops)"
        "set pre \<union> set (live_ops (op # ops)) = set (pre @ [op]) \<union> set (live_ops ops)"
        using False by (simp_all add: live_ops_def)
      have run: "lock_ops cfg may_end i st (op # ops) [0..<length pre] = lock_ops cfg may_end i st1 ops [0..<length (pre @ [op])]"
        using False True st1(1) by simp
      have h: "\<forall>op \<in> set (live_ops ops). op_fits ts st0 op" "length (pre @ [op]) + length ops < 300"
        "may_end \<or> (\<forall>op \<in> set ops. op_mode op \<noteq> INVALID)"
        using Cons.prems(5,6,8) False by (auto simp: live_ops_def)
      show ?thesis
        unfolding cl run lv by (rule Cons.IH [OF l1(1,2) l1(3) [OF Cons.prems(3)] Cons.prems(4) h(1,2) Cons.prems(7) h(3)])
    next
      case False2: False
      have "refused st op st1" using False2 st1(4) by simp
      from locked_refused [OF lk Cons.prems(2,3) st1(2,3) this] False False2 st1(1) show ?thesis by auto
    qed
  qed
qed

section \<open>Releasing the locks\<close>

lemma local_clear_ok:
  assumes "nodes_ok ts tb sf w nds" "k < ts" "f < length (futures (nds ! sf) w)" "f_tuple (futures (nds ! sf) w ! f) \<noteq> NullPtr"
    and "local_unlock (nrow tb nds (sf, k)) md (f_last_acq (futures (nds ! sf) w ! f)) = (SUCCESS, r')"
  shows "bind_res (at_res nds sf) (\<lambda>nd. bind_res (local_clear md nd w tb k f) (\<lambda>nd. ok (nds[sf := nd]))) = Inr (put_row tb nds (sf, k) r')"
proof -
  let ?t = "tables (nds ! sf) ! tb"
  have sf: "sf < length nds" using assms(1) by (simp add: nodes_ok_def)
  have n: "tb < length (tables (nds ! sf))" "t_size ?t = ts" "ts \<le> length (t_data ?t)"
    using nodes_ok_node [OF assms(1) sf] by (simp_all add: node_ok_def)
  have "table_put ?t k md (f_last_acq (futures (nds ! sf) w ! f)) = Inr (SUCCESS, ?t\<lparr>t_data := (t_data ?t)[k := r']\<rparr>)"
    using assms(2,5) n by (simp add: table_put_def translate_def Let_def at_res_lt nrow_def)
  then show ?thesis
    using sf n(1) assms(3,4) by (simp add: at_res_lt local_clear_def the_future_def err_not_def put_row_def Let_def)
qed

lemma remote_clear_failed:
  assumes "sf < length nds" "f < length (futures (nds ! sf) w)" "f_tuple (futures (nds ! sf) w ! f) = ExceptionPtr"
  shows "remote_clear cfg md nds sf w f tgt = Inr nds"
  using assms by (simp add: remote_clear_def at_res_lt the_future_def future_get_def upd_future_same)

text \<open>The row after a put request with mode \<open>md\<close>, tuple \<open>t\<close> and id \<open>la\<close>.\<close>

definition put_result :: "AccessMode \<Rightarrow> KV \<Rightarrow> TxnId \<Rightarrow> row \<Rightarrow> row" where
  "put_result md t la r = snd (local_unlock (if md = WRITE then r\<lparr>r_tuple := t\<rparr> else r) md la)"

lemma remote_clear_ok:
  assumes nok: "nodes_ok ts tb sf w nds" and k: "k < ts" and f: "f < length (futures (nds ! sf) w)"
    and n: "unat (node_u32 tgt) < length nds" "unat (node_u32 tgt) \<noteq> sf"
    and fut: "f_tuple (futures (nds ! sf) w ! f) = PktPtr" "f_pkt (futures (nds ! sf) w ! f) = Some m" "m_tid m = tb" "rid m = k"
      "m_mode m = md" "m_tuple m = Some t" "md \<noteq> INVALID"
  shows "remote_clear cfg md nds sf w f tgt =
    Inr (put_row tb nds (unat (node_u32 tgt), k) (put_result md t (f_last_acq (futures (nds ! sf) w ! f)) (nrow tb nds (unat (node_u32 tgt), k))))"
proof -
  let ?n = "unat (node_u32 tgt)" and ?nd = "nds ! sf" and ?fut = "futures (nds ! sf) w ! f"
  let ?la = "f_last_acq ?fut" and ?t = "tables (nds ! ?n) ! tb" and ?r = "nrow tb nds (?n, k)"
  have sf: "sf < length nds" and tb: "tb \<le> 4" and w: "w < 2 ^ 24" "w < length (put_counts ?nd)" "put_counts ?nd ! w = 0" and N: "length nds \<le> 256"
    using nok by (simp_all add: nodes_ok_def)
  let ?snd = "node_t_mk (node_u32 (comm_id ?nd)) (word_of_nat w)"
  obtain req where req: "put_req ?nd w md ?fut m = Inr req" "m_type req = TUPLE_PUT_REQ" "m_tid req = tb" "rid req = k" "m_mode req = md"
    "m_tuple req = Some t" "sender req = ?snd" "TxnId_unpack (pack req) = ?la"
    using fut tb by (cases md) (simp_all add: put_req_def Let_def convert_def)
  define nd1 where "nd1 = ?nd\<lparr>put_counts := (put_counts ?nd)[w := 1]\<rparr>"
  define nds1 where "nds1 = nds[sf := nd1]"
  have pa: "putres_add ?nd w = Inr nd1" using w by (simp add: putres_add_def at_res_lt nd1_def)
  have nt: "tb < length (tables (nds ! ?n))" "k < length (t_data ?t)"
    using nodes_ok_node [OF nok n(1)] k by (auto simp: node_ok_def)
  let ?m = "on_wire req"
  define t' where "t' = ?t\<lparr>t_data := (t_data ?t)[k := put_result md t ?la ?r]\<rparr>"
  have rp: "remote_put ?t ?m = Inr t'"
    using nt req fut(7)
    by (simp add: remote_put_def translate_def Let_def on_wire_def at_res_lt remote_unlock_def put_result_def nrow_def t'_def)
  define res where "res = (convert TUPLE_PUT_RES ?m)\<lparr>plen := sizeof_msg TUPLE_PUT_RES\<rparr>"
  have h1: "handle cfg (nds ! ?n) ?m = Inr (set_table (nds ! ?n) tb t', Some (?snd, res))"
    using nt(1) rp req by (simp add: handle_def on_wire_def handle_put_req_def at_res_lt res_def convert_def)
  have n1: "nds1 ! ?n = nds ! ?n" "nds1 ! sf = nd1" "length nds1 = length nds" using n sf by (simp_all add: nds1_def)
  have so: "send_ok nd1 tgt" using send_ok_iff [OF nok sf, of tgt] n by (simp add: nd1_def send_ok_def)
  have d1: "deliver cfg nds1 sf tgt req = deliver cfg (nds1[?n := set_table (nds ! ?n) tb t']) ?n ?snd res"
    using n sf so h1 by (subst deliver.simps) (simp add: n1 at_res_lt Let_def)
  have sw: "unat (word_of_nat w :: u32) = w" using w(1) by (simp add: unat_of_nat)
  have nsnd: "unat (node_u32 ?snd) = sf"
    using sf N comm_id_ok(2) [OF nok sf] by (simp add: unsigned_take_bit_eq unat_of_nat take_bit_nat_eq_self)
  have tsnd: "unat (get_tid ?snd) = w" using get_tid_mk [of "word_of_nat w"] w(1) sw by simp
  let ?nds2 = "nds1[?n := set_table (nds ! ?n) tb t']"
  have s2: "?nds2 ! sf = nd1" "?nds2 ! ?n = set_table (nds ! ?n) tb t'" using n n1 by simp_all
  have so2: "send_ok (?nds2 ! ?n) ?snd"
    unfolding s2(2) using send_ok_iff [OF nok n(1), of ?snd] sf n(2) nsnd by (simp add: set_table_def send_ok_def)
  have rst: "nd1\<lparr>put_counts := (put_counts nd1)[w := put_counts nd1 ! w - 1]\<rparr> = ?nd"
    using w by (simp add: nd1_def list_update_same_conv)
  have h2: "handle cfg nd1 (on_wire res) = Inr (?nd, None)"
    using req w rst tsnd
    by (simp add: handle_def on_wire_def res_def convert_def handle_put_res_def putres_handle_def at_res_lt nd1_def)
  have "deliver cfg ?nds2 ?n ?snd res = Inr (?nds2[sf := ?nd])"
    using n sf so2 h2 nsnd by (subst deliver.simps) (simp add: n1 s2(1) at_res_lt Let_def)
  moreover have "?nds2[sf := ?nd] = put_row tb nds (?n, k) (put_result md t ?la ?r)"
    using n(2) by (simp add: nds1_def put_row_def Let_def t'_def list_update_swap [of ?n sf])
  ultimately show ?thesis
    using sf f fut(1,2) req(1) pa d1
    by (simp add: remote_clear_def at_res_lt the_future_def future_get_def upd_future_same get_pkt_def nds1_def)
qed

text \<open>The row of an operation once its lock has been released, under the remaining locks.\<close>

definition settle_row :: "OP \<Rightarrow> TxnId \<times> KV \<Rightarrow> row \<Rightarrow> row" where
  "settle_row op x r =
     (if \<not> is_local (loc_info op) \<and> op_mode op = WRITE then r\<lparr>r_tuple := snd x, last_acq := fst x\<rparr> else r\<lparr>last_acq := fst x\<rparr>)"

fun settle :: "nat \<Rightarrow> OP list \<Rightarrow> (TxnId \<times> KV) list \<Rightarrow> (nat \<times> db_key \<Rightarrow> row) \<Rightarrow> nat \<times> db_key \<Rightarrow> row" where
  "settle sf (op # ops) (x # xs) B = settle sf ops xs (B(place sf op := settle_row op x (B (place sf op))))"
| "settle sf _ _ B = B"

lemma settle_row_stack:
  assumes "stack_ok r (op_mode op # ms)"
  shows "is_local (loc_info op) \<Longrightarrow> local_unlock (stack r (op_mode op # ms)) (op_mode op) (fst x) = (SUCCESS, stack (settle_row op x r) ms)"
    and "\<not> is_local (loc_info op) \<Longrightarrow> put_result (op_mode op) (snd x) (fst x) (stack r (op_mode op # ms)) = stack (settle_row op x r) ms"
    and "stack_ok (settle_row op x r) ms"
proof -
  let ?r = "if op_mode op = WRITE then r\<lparr>r_tuple := snd x\<rparr> else r"
  have ok: "stack_ok ?r (op_mode op # ms)" using assms by (metis stack_ok_upd(2))
  have up: "(if op_mode op = WRITE then (stack r (op_mode op # ms))\<lparr>r_tuple := snd x\<rparr> else stack r (op_mode op # ms)) = stack ?r (op_mode op # ms)"
    using stack_upd(2) [where r = r and t = "snd x" and ms = "op_mode op # ms"] by (simp del: foldl_Cons)
  show "is_local (loc_info op) \<Longrightarrow> local_unlock (stack r (op_mode op # ms)) (op_mode op) (fst x) = (SUCCESS, stack (settle_row op x r) ms)"
    unfolding stack_release(1) [OF assms] by (simp add: settle_row_def)
  show "\<not> is_local (loc_info op) \<Longrightarrow> put_result (op_mode op) (snd x) (fst x) (stack r (op_mode op # ms)) = stack (settle_row op x r) ms"
    unfolding put_result_def up stack_release(1) [OF ok] by (simp add: settle_row_def)
  show "stack_ok (settle_row op x r) ms" using stack_release(2) [OF assms] by (simp add: settle_row_def)
qed

lemma clear_ops:
  assumes "nodes_ok ts tb sf w nds" "length xs = length ops"
    and "\<And>j. j < length ops \<Longrightarrow> off + j < length (futures (nds ! sf) w) \<and> fut_holds tb (ops ! j) (futures (nds ! sf) w ! (off + j)) (xs ! j)"
    and "\<And>s. nrow tb nds s = stack (B s) (modes_at sf s ops)"
    and "\<And>s. in_range ts nds s \<Longrightarrow> stack_ok (B s) (modes_at sf s ops)"
    and "\<And>op. op \<in> set ops \<Longrightarrow> op_mode op \<noteq> INVALID \<and> in_range ts nds (place sf op) \<and> (is_local (loc_info op) \<or> fst (place sf op) \<noteq> sf)"
  shows "\<exists>nds'. actions_clear cfg sf w nds (map (\<lambda>j. act_of tb (ops ! j) (off + j)) [0..<length ops]) = Inr nds' \<and>
    nodes_ok ts tb sf w nds' \<and> nrow tb nds' = settle sf ops xs B \<and> futures (nds' ! sf) = futures (nds ! sf) \<and> length nds' = length nds"
  using assms
proof (induction ops arbitrary: nds off xs B)
  case Nil
  then have "nrow tb nds = B" by (simp add: fun_eq_iff)
  with Nil show ?case by simp
next
  case (Cons op ops)
  obtain x xs' where xs: "xs = x # xs'" using Cons.prems(2) by (cases xs) simp_all
  let ?s = "place sf op"
  have o: "op_mode op \<noteq> INVALID" "in_range ts nds ?s" "is_local (loc_info op) \<or> fst ?s \<noteq> sf" using Cons.prems(6) [of op] by simp_all
  have f: "off < length (futures (nds ! sf) w)" "fut_holds tb op (futures (nds ! sf) w ! off) x" using Cons.prems(3) [of 0] xs by simp_all
  define ms where "ms = modes_at sf ?s ops"
  have st: "stack_ok (B ?s) (op_mode op # ms)" "nrow tb nds ?s = stack (B ?s) (op_mode op # ms)"
    using Cons.prems(5) [OF o(2)] Cons.prems(4) [of ?s] by (simp_all add: ms_def)
  let ?nds = "put_row tb nds ?s (stack (settle_row op x (B ?s)) ms)"
  have step: "action_clear cfg sf w nds (act_of tb op off) = Inr ?nds"
  proof (cases "is_local (loc_info op)")
    case True
    have p: "?s = (sf, op_id op)" "op_id op < ts" using True o(2) by (simp_all add: place_def in_range_def)
    have ft: "f_tuple (futures (nds ! sf) w ! off) \<noteq> NullPtr" "f_last_acq (futures (nds ! sf) w ! off) = fst x"
      using f(2) True by (simp_all add: fut_holds_def)
    have "local_unlock (nrow tb nds (sf, op_id op)) (op_mode op) (fst x) = (SUCCESS, stack (settle_row op x (B ?s)) ms)"
      using settle_row_stack(1) [OF st(1) True] st(2) p(1) by simp
    from local_clear_ok [OF Cons.prems(1) p(2) f(1) ft(1) this [folded ft(2)]] True p(1) o(1)
    show ?thesis by (cases "op_mode op") (simp_all add: action_clear_def act_of_def)
  next
    case False
    let ?n = "unat (node_u32 (target (loc_info op)))"
    have p: "?s = (?n, op_id op)" "op_id op < ts" "?n < length nds" "?n \<noteq> sf"
      using False o by (simp_all add: place_def in_range_def)
    obtain m where m: "f_tuple (futures (nds ! sf) w ! off) = PktPtr" "f_pkt (futures (nds ! sf) w ! off) = Some m" "m_tid m = tb"
      "rid m = op_id op" "m_mode m = op_mode op" "m_tuple m = Some (snd x)" "f_last_acq (futures (nds ! sf) w ! off) = fst x"
      using f(2) False by (auto simp: fut_holds_def)
    have "put_result (op_mode op) (snd x) (fst x) (nrow tb nds (?n, op_id op)) = stack (settle_row op x (B ?s)) ms"
      using settle_row_stack(2) [OF st(1) False] st(2) p(1) by simp
    with remote_clear_ok [OF Cons.prems(1) p(2) f(1) p(3,4) m(1-6) o(1), of cfg] False p(1) m(7)
    show ?thesis by (simp add: action_clear_def act_of_def)
  qed
  let ?B = "B(?s := settle_row op x (B ?s))"
  have rw: "nrow tb ?nds s = stack (?B s) (modes_at sf s ops)" for s
    using put_row_nrow [OF Cons.prems(1) o(2)] Cons.prems(4) [of s] by (simp add: ms_def)
  have so: "stack_ok (?B s) (modes_at sf s ops)" if "in_range ts ?nds s" for s
    using settle_row_stack(3) [OF st(1)] Cons.prems(5) [of s] that by (auto simp: ms_def in_range_def)
  have fu: "Suc off + j < length (futures (?nds ! sf) w) \<and> fut_holds tb (ops ! j) (futures (?nds ! sf) w ! (Suc off + j)) (xs' ! j)"
    if "j < length ops" for j using Cons.prems(3) [of "Suc j"] that xs by simp
  have op': "op_mode op' \<noteq> INVALID \<and> in_range ts ?nds (place sf op') \<and> (is_local (loc_info op') \<or> fst (place sf op') \<noteq> sf)"
    if "op' \<in> set ops" for op' using Cons.prems(6) [of op'] that by (simp add: in_range_def)
  have "map (\<lambda>j. act_of tb ((op # ops) ! j) (off + j)) [0..<length (op # ops)] =
      act_of tb op off # map (\<lambda>j. act_of tb (ops ! j) (Suc off + j)) [0..<length ops]"
    by (simp add: upt_conv_Cons map_Suc_upt [symmetric] del: upt_Suc)
  moreover have "length xs' = length ops" using Cons.prems(2) xs by simp
  from Cons.IH [OF put_row_ok [OF Cons.prems(1)] this fu rw so op'] obtain nds' where
    "actions_clear cfg sf w ?nds (map (\<lambda>j. act_of tb (ops ! j) (Suc off + j)) [0..<length ops]) = Inr nds'"
    "nodes_ok ts tb sf w nds'" "nrow tb nds' = settle sf ops xs' ?B" "futures (nds' ! sf) = futures (?nds ! sf)" "length nds' = length ?nds" by blast
  ultimately show ?case using step xs by auto
qed

section \<open>The write phase\<close>

text \<open>Nothing changes but the nodes.\<close>

definition node_step :: "nat \<Rightarrow> sys \<Rightarrow> sys \<Rightarrow> bool" where
  "node_step ts st st' \<longleftrightarrow> frame st st' \<and> exec_ok ts st' \<and> acts st' = acts st \<and> length (futs st') = length (futs st)"

lemma node_step_refl: "exec_ok ts st \<Longrightarrow> node_step ts st st"
  by (simp add: node_step_def)

lemma node_step_trans: "node_step ts st st1 \<Longrightarrow> node_step ts st1 st2 \<Longrightarrow> node_step ts st st2"
  unfolding node_step_def using frame_trans frame_sel(1,3) by metis

lemma set_fut_ok:
  assumes "exec_ok ts st" "f < length (futs st)"
  shows "\<exists>st'. bind_res (my_node st) (\<lambda>nd. bind_res (upd_future nd (ex_tid (exec st), f) g) (\<lambda>nd. ok (set_node st nd))) = Inr st' \<and>
    node_step ts st st' \<and> futs st' = (futs st)[f := g (futs st ! f)] \<and> rows st' = rows st"
proof -
  let ?nd = "nodes st ! self st" and ?w = "ex_tid (exec st)"
  let ?nd' = "?nd\<lparr>futures := (futures ?nd)(?w := (futs st)[f := g (futs st ! f)])\<rparr>"
  let ?st' = "st\<lparr>nodes := (nodes st)[self st := ?nd']\<rparr>"
  have nok: "nodes_ok ts (kvs (exec st)) (self st) ?w (nodes st)" using assms(1) by (simp add: exec_ok_def)
  then have sf: "self st < length (nodes st)" "open_futures ?nd = Map.empty" by (simp_all add: nodes_ok_def)
  have run: "bind_res (my_node st) (\<lambda>nd. bind_res (upd_future nd (?w, f) g) (\<lambda>nd. ok (set_node st nd))) = Inr ?st'"
    using sf(1) assms(2) by (simp add: my_node_def at_res_lt upd_future_def set_node_def)
  have fr: "frame st ?st'" by (rule frameI(2)) simp
  have F: "futs ?st' = (futs st)[f := g (futs st ! f)]" using sf(1) by simp
  have R: "rows ?st' = rows st" using nrow_keep [of ?nd' "nodes st" "self st"] by simp
  have "nodes_ok ts (kvs (exec st)) (self st) ?w (nodes ?st')"
    using nodes_ok_keep [OF nok, of ?nd' "self st"] sf(2) by simp
  then have "exec_ok ts ?st'" using assms(1) F by (simp add: exec_ok_def)
  with run fr F R show ?thesis by (auto simp: node_step_def)
qed

lemma store_row_ok:
  assumes "exec_ok ts st" "k < ts"
  shows "\<exists>st'. store_value st f (RowPtr k) v = Inr st' \<and> node_step ts st st' \<and> futs st' = futs st \<and>
    rows st' = (rows st)((self st, k) := (rows st (self st, k))\<lparr>r_tuple := (r_tuple (rows st (self st, k)))\<lparr>kv_value := v\<rparr>\<rparr>)"
proof -
  let ?tb = "kvs (exec st)" and ?sf = "self st" and ?w = "ex_tid (exec st)"
  let ?r = "rows st (?sf, k)"
  let ?r' = "?r\<lparr>r_tuple := (r_tuple ?r)\<lparr>kv_value := v\<rparr>\<rparr>"
  let ?st' = "st\<lparr>nodes := put_row ?tb (nodes st) (?sf, k) ?r'\<rparr>"
  have nok: "nodes_ok ts ?tb ?sf ?w (nodes st)" using assms(1) by (simp add: exec_ok_def)
  then have sf: "?sf < length (nodes st)" by (simp add: nodes_ok_def)
  have rng: "in_range ts (nodes st) (?sf, k)" using sf assms(2) by (simp add: in_range_def)
  have n: "?tb < length (tables (nodes st ! ?sf))" "k < length (t_data (tables (nodes st ! ?sf) ! ?tb))"
    using nodes_ok_node [OF nok sf] assms(2) by (auto simp: node_ok_def)
  have run: "store_value st f (RowPtr k) v = Inr ?st'"
    using sf n by (simp add: store_value_def my_node_def at_res_lt set_node_def put_row_def Let_def nrow_def)
  have fr: "frame st ?st'" by (rule frameI(2)) simp
  have "exec_ok ts ?st'" using assms(1) put_row_ok [OF nok] by (simp add: exec_ok_def)
  with run fr put_row_nrow [OF nok rng] show ?thesis by (auto simp: node_step_def)
qed

lemma store_pkt_ok:
  assumes "exec_ok ts st" "f < length (futs st)" "f_pkt (futs st ! f) = Some m" "m_tuple m = Some t"
  shows "\<exists>st'. store_value st f PktPtr v = Inr st' \<and> node_step ts st st' \<and> rows st' = rows st \<and>
    futs st' = (futs st)[f := (futs st ! f)\<lparr>f_pkt := Some (m\<lparr>m_tuple := Some (t\<lparr>kv_value := v\<rparr>)\<rparr>)\<rparr>]"
proof -
  have sf: "self st < length (nodes st)" using assms(1) by (simp add: exec_ok_def nodes_ok_def)
  let ?g = "\<lambda>_. (futs st ! f)\<lparr>f_pkt := Some (m\<lparr>m_tuple := Some (t\<lparr>kv_value := v\<rparr>)\<rparr>)\<rparr>"
  have "store_value st f PktPtr v = bind_res (my_node st) (\<lambda>nd. bind_res (upd_future nd (ex_tid (exec st), f) ?g) (\<lambda>nd. ok (set_node st nd)))"
    using sf assms(2-4) by (simp add: store_value_def my_node_def at_res_lt the_future_def)
  with set_fut_ok [OF assms(1,2), of ?g] show ?thesis by auto
qed

definition write_row :: "OP \<Rightarrow> row \<Rightarrow> row" where
  "write_row op r = (if op_mode op = WRITE then r\<lparr>r_tuple := (r_tuple r)\<lparr>kv_value := op_value op\<rparr>\<rparr> else r)"

text \<open>What the write phase does to the data of a future and to a local row.\<close>

definition stamped :: "TxnId option \<Rightarrow> OP \<Rightarrow> TxnId \<times> KV \<Rightarrow> TxnId \<times> KV" where
  "stamped stamp op x = (case stamp of None \<Rightarrow> fst x | Some i \<Rightarrow> i, if op_mode op = WRITE then (snd x)\<lparr>kv_value := op_value op\<rparr> else snd x)"

primrec local_writes :: "nat \<Rightarrow> OP list \<Rightarrow> (nat \<times> db_key \<Rightarrow> row) \<Rightarrow> nat \<times> db_key \<Rightarrow> row" where
  "local_writes sf [] R = R"
| "local_writes sf (op # ops) R =
     local_writes sf ops (if is_local (loc_info op) then R(place sf op := write_row op (R (place sf op))) else R)"

text \<open>One turn of the write loop.\<close>

lemma apply_store:
  assumes "exec_ok ts st" "f < length (futs st)" "fut_holds (kvs (exec st)) op (futs st ! f) x" "in_range ts (nodes st) (place (self st) op)"
  shows "\<exists>p st'. fut_get st f = Inr (p, st) \<and> p \<noteq> NullPtr \<and>
    (if op_mode op = WRITE then store_value st f p (op_value op) else ok st) = Inr st' \<and> node_step ts st st' \<and>
    (\<forall>j. j \<noteq> f \<longrightarrow> futs st' ! j = futs st ! j) \<and> fut_holds (kvs (exec st)) op (futs st' ! f) (stamped None op x) \<and>
    rows st' = (if is_local (loc_info op) then (rows st)(place (self st) op := write_row op (rows st (place (self st) op))) else rows st)"
proof -
  have sf: "self st < length (nodes st)" using assms(1) by (simp add: exec_ok_def nodes_ok_def)
  let ?fut = "futs st ! f"
  have p: "f_tuple ?fut = (if is_local (loc_info op) then RowPtr (op_id op) else PktPtr)" using assms(3) by (simp add: fut_holds_def)
  then have get: "fut_get st f = Inr (f_tuple ?fut, st)" "f_tuple ?fut \<noteq> NullPtr" using fut_get_done [OF sf assms(2)] by auto
  show ?thesis
  proof (cases "op_mode op = WRITE")
    case False
    then have "stamped None op x = x" "write_row op r = r" for r by (simp_all add: stamped_def write_row_def)
    with False get assms(3) node_step_refl [OF assms(1)] show ?thesis by auto
  next
    case True
    show ?thesis
    proof (cases "is_local (loc_info op)")
      case loc: True
      have pl: "place (self st) op = (self st, op_id op)" "op_id op < ts" using loc assms(4) by (simp_all add: place_def in_range_def)
      obtain st' where s: "store_value st f (RowPtr (op_id op)) (op_value op) = Inr st'" "node_step ts st st'" "futs st' = futs st"
        "rows st' = (rows st)((self st, op_id op) := write_row op (rows st (self st, op_id op)))"
        using store_row_ok [OF assms(1) pl(2), of f "op_value op"] True by (auto simp: write_row_def)
      have "fut_holds (kvs (exec st)) op ?fut (stamped None op x)" using assms(3) loc by (simp add: fut_holds_def stamped_def)
      then show ?thesis
        by (intro exI [of _ "RowPtr (op_id op)"] exI [of _ st']) (use s get p loc True pl(1) in simp)
    next
      case rem: False
      obtain m where m: "f_pkt ?fut = Some m" "m_tid m = kvs (exec st)" "rid m = op_id op" "m_mode m = op_mode op" "m_tuple m = Some (snd x)"
        using assms(3) rem by (auto simp: fut_holds_def)
      obtain st' where s: "store_value st f PktPtr (op_value op) = Inr st'" "node_step ts st st'" "rows st' = rows st"
        "futs st' = (futs st)[f := ?fut\<lparr>f_pkt := Some (m\<lparr>m_tuple := Some ((snd x)\<lparr>kv_value := op_value op\<rparr>)\<rparr>)\<rparr>]"
        using store_pkt_ok [OF assms(1,2) m(1,5), of "op_value op"] by blast
      have "fut_holds (kvs (exec st)) op (futs st' ! f) (stamped None op x)"
        using assms(2,3) rem True m s(4) by (simp add: fut_holds_def stamped_def)
      then show ?thesis
        by (intro exI [of _ PktPtr] exI [of _ st']) (use s get p rem True in simp)
    qed
  qed
qed

lemma apply_stamp:
  assumes "exec_ok ts st" "f < length (futs st)" "fut_holds tb op (futs st ! f) (stamped None op x)"
  shows "\<exists>st'. (case stamp of None \<Rightarrow> ok st | Some i \<Rightarrow> set_last_acq st f i) = Inr st' \<and> node_step ts st st' \<and>
    (\<forall>j. j \<noteq> f \<longrightarrow> futs st' ! j = futs st ! j) \<and> fut_holds tb op (futs st' ! f) (stamped stamp op x) \<and> rows st' = rows st"
proof (cases stamp)
  case None
  with assms node_step_refl show ?thesis by auto
next
  case (Some i)
  obtain st' where s: "set_last_acq st f i = Inr st'" "node_step ts st st'" "futs st' = (futs st)[f := (futs st ! f)\<lparr>f_last_acq := i\<rparr>]" "rows st' = rows st"
    using set_fut_ok [OF assms(1,2), of "\<lambda>fut. fut\<lparr>f_last_acq := i\<rparr>"] by (auto simp: set_last_acq_def)
  have "fut_holds tb op (futs st' ! f) (stamped stamp op x)"
    using assms(2,3) s(3) Some by (auto simp: fut_holds_def stamped_def split: if_splits)
  with s Some show ?thesis by auto
qed

lemma node_step_sel:
  assumes "node_step ts st st'"
  shows "self st' = self st" "kvs (exec st') = kvs (exec st)" "ex_tid (exec st') = ex_tid (exec st)" "length (nodes st') = length (nodes st)"
    "exec_ok ts st'" "length (futs st') = length (futs st)"
  using assms frame_sel [of st st'] by (auto simp: node_step_def)

lemma apply_ops_ok:
  assumes "exec_ok ts st" "length xs = length (live_ops all)"
    and "\<And>j. j < length (live_ops all) \<Longrightarrow> off + j < length (futs st) \<and> fut_holds (kvs (exec st)) (live_ops all ! j) (futs st ! (off + j)) (xs ! j)"
    and "\<And>op. op \<in> set (live_ops all) \<Longrightarrow> in_range ts (nodes st) (place (self st) op)"
  shows "\<exists>st'. apply_ops stamp st all [off..<off + length (live_ops all)] = Inr (True, st') \<and> node_step ts st st' \<and>
    (\<forall>j < off. futs st' ! j = futs st ! j) \<and>
    (\<forall>j < length (live_ops all). fut_holds (kvs (exec st)) (live_ops all ! j) (futs st' ! (off + j)) (stamped stamp (live_ops all ! j) (xs ! j))) \<and>
    rows st' = local_writes (self st) (live_ops all) (rows st)"
  using assms
proof (induction all arbitrary: st off xs)
  case Nil
  then show ?case by (auto simp: live_ops_def node_step_refl)
next
  case (Cons op all)
  show ?case
  proof (cases "op_mode op = INVALID")
    case True
    with Cons.prems show ?thesis by (auto simp: live_ops_def node_step_refl)
  next
    case False
    then have lv: "live_ops (op # all) = op # live_ops all" by (simp add: live_ops_def)
    obtain x xs' where xs: "xs = x # xs'" using Cons.prems(2) lv by (cases xs) simp_all
    let ?n = "length (live_ops all)" and ?tb = "kvs (exec st)"
    have f: "off < length (futs st)" "fut_holds ?tb op (futs st ! off) x" using Cons.prems(3) [of 0] lv xs by simp_all
    have rng: "in_range ts (nodes st) (place (self st) op)" using Cons.prems(4) [of op] lv by simp
    obtain p st1 where s1: "fut_get st off = Inr (p, st)" "p \<noteq> NullPtr"
      "(if op_mode op = WRITE then store_value st off p (op_value op) else ok st) = Inr st1" "node_step ts st st1"
      "\<forall>j. j \<noteq> off \<longrightarrow> futs st1 ! j = futs st ! j" "fut_holds ?tb op (futs st1 ! off) (stamped None op x)"
      "rows st1 = (if is_local (loc_info op) then (rows st)(place (self st) op := write_row op (rows st (place (self st) op))) else rows st)"
      using apply_store [OF Cons.prems(1) f rng] by blast
    have f1: "off < length (futs st1)" using f(1) node_step_sel(6) [OF s1(4)] by simp
    obtain st2 where s2: "(case stamp of None \<Rightarrow> ok st1 | Some i \<Rightarrow> set_last_acq st1 off i) = Inr st2" "node_step ts st1 st2"
      "\<forall>j. j \<noteq> off \<longrightarrow> futs st2 ! j = futs st1 ! j" "fut_holds ?tb op (futs st2 ! off) (stamped stamp op x)" "rows st2 = rows st1"
      using apply_stamp [OF node_step_sel(5) [OF s1(4)] f1 s1(6), of stamp] by blast
    note ns = node_step_trans [OF s1(4) s2(2)]
    note sel = node_step_sel [OF ns]
    have step: "apply_ops stamp st (op # all) [off..<off + length (live_ops (op # all))] = apply_ops stamp st2 all [Suc off..<Suc off + ?n]"
      using False s1(1-3) s2(1) by (simp add: lv upt_conv_Cons del: upt_Suc)
    have pre: "length xs' = ?n" "\<And>j. j < ?n \<Longrightarrow> Suc off + j < length (futs st2) \<and> fut_holds (kvs (exec st2)) (live_ops all ! j) (futs st2 ! (Suc off + j)) (xs' ! j)"
      "\<And>op. op \<in> set (live_ops all) \<Longrightarrow> in_range ts (nodes st2) (place (self st2) op)"
    proof -
      show "length xs' = ?n" using Cons.prems(2) xs lv by simp
      show "Suc off + j < length (futs st2) \<and> fut_holds (kvs (exec st2)) (live_ops all ! j) (futs st2 ! (Suc off + j)) (xs' ! j)" if "j < ?n" for j
        using Cons.prems(3) [of "Suc j"] that lv xs sel s1(5) s2(3) by simp
      show "in_range ts (nodes st2) (place (self st2) op)" if "op \<in> set (live_ops all)" for op
        using Cons.prems(4) [of op] that lv sel by (simp add: in_range_def)
    qed
    obtain st' where st': "apply_ops stamp st2 all [Suc off..<Suc off + ?n] = Inr (True, st')" "node_step ts st2 st'"
      "\<forall>j < Suc off. futs st' ! j = futs st2 ! j"
      "\<forall>j < ?n. fut_holds (kvs (exec st2)) (live_ops all ! j) (futs st' ! (Suc off + j)) (stamped stamp (live_ops all ! j) (xs' ! j))"
      "rows st' = local_writes (self st2) (live_ops all) (rows st2)"
      using Cons.IH [OF sel(5) pre] by blast
    have fh: "fut_holds ?tb (live_ops (op # all) ! j) (futs st' ! (off + j)) (stamped stamp (live_ops (op # all) ! j) (xs ! j))"
      if "j < length (live_ops (op # all))" for j
      using that st'(3,4) s2(4) lv xs sel by (cases j) auto
    have "rows st' = local_writes (self st) (live_ops (op # all)) (rows st)"
      using st'(5) s2(5) s1(7) sel lv by simp
    moreover have "\<forall>j < off. futs st' ! j = futs st ! j" using st'(3) s1(5) s2(3) by simp
    ultimately show ?thesis using step st'(1) node_step_trans [OF ns st'(2)] fh by auto
  qed
qed

section \<open>The specification\<close>

text \<open>
  A transaction applied to the rows: operation by operation, a write stores its value and, under
  the mini-batch rule, every operation leaves the transaction's id on its row.
\<close>

definition touch :: "TxnId option \<Rightarrow> OP \<Rightarrow> row \<Rightarrow> row" where
  "touch stamp op r = (case stamp of None \<Rightarrow> write_row op r | Some i \<Rightarrow> (write_row op r)\<lparr>last_acq := i\<rparr>)"

primrec apply_txn :: "TxnId option \<Rightarrow> nat \<Rightarrow> OP list \<Rightarrow> (nat \<times> db_key \<Rightarrow> row) \<Rightarrow> nat \<times> db_key \<Rightarrow> row" where
  "apply_txn stamp sf [] R = R"
| "apply_txn stamp sf (op # ops) R = apply_txn stamp sf ops (R(place sf op := touch stamp op (R (place sf op))))"

text \<open>All three folds, seen from one row.\<close>

abbreviation ops_at :: "nat \<Rightarrow> nat \<times> db_key \<Rightarrow> OP list \<Rightarrow> OP list" where
  "ops_at sf s \<equiv> filter (\<lambda>op. place sf op = s)"

lemma apply_txn_at: "apply_txn stamp sf ops R s = foldl (\<lambda>r op. touch stamp op r) (R s) (ops_at sf s ops)"
  by (induction ops arbitrary: R) auto

lemma local_writes_at:
  "local_writes sf ops R s = foldl (\<lambda>r op. if is_local (loc_info op) then write_row op r else r) (R s) (ops_at sf s ops)"
  by (induction ops arbitrary: R) auto

lemma settle_at: "settle sf ops (map g ops) R s = foldl (\<lambda>r op. settle_row op (g op) r) (R s) (ops_at sf s ops)"
  by (induction ops arbitrary: R) auto

lemma write_row_stack: "write_row op (stack r ms) = stack (write_row op r) ms"
  by (simp add: write_row_def stack_upd)

lemma local_writes_stack:
  "local_writes sf ops (\<lambda>s. stack (B s) (f s)) = (\<lambda>s. stack (local_writes sf ops B s) (f s))"
proof (induction ops arbitrary: B)
  case (Cons op ops)
  have "(\<lambda>s. stack (B s) (f s))(place sf op := write_row op (stack (B (place sf op)) (f (place sf op)))) =
      (\<lambda>s. stack ((B(place sf op := write_row op (B (place sf op)))) s) (f s))"
    by (auto simp: write_row_stack)
  with Cons.IH show ?case by (simp del: fun_upd_apply)
qed simp

lemma local_writes_ok: "stack_ok (local_writes sf ops B s) ms = stack_ok (B s) ms"
proof -
  have "stack_ok (foldl (\<lambda>r op. if is_local (loc_info op) then write_row op r else r) r xs) ms = stack_ok r ms" for r xs
    by (induction xs arbitrary: r) (auto simp: write_row_def)
  then show ?thesis by (simp add: local_writes_at)
qed

text \<open>A rolled back transaction restores what it found.\<close>

lemma settle_restore:
  "settle sf ops (map (\<lambda>op. (last_acq (B (place sf op)), r_tuple (B (place sf op)))) ops) B = B"
proof -
  have "settle sf ops (map g ops) B = B" if "\<And>op. op \<in> set ops \<Longrightarrow> g op = (last_acq (B (place sf op)), r_tuple (B (place sf op)))" for g
    using that
  proof (induction ops)
    case (Cons op ops)
    have "settle_row op (g op) (B (place sf op)) = B (place sf op)"
      using Cons.prems [of op] by (simp add: settle_row_def)
    then show ?case using Cons by simp
  qed simp
  then show ?thesis by simp
qed

text \<open>A committed one leaves what the specification says.\<close>

lemma touch_reads:
  assumes "\<forall>op \<in> set xs. op_mode op = READ" "la = (case stamp of None \<Rightarrow> last_acq r | Some i \<Rightarrow> i)"
  shows "foldl (\<lambda>r op. touch stamp op r) r xs = (if xs = [] then r else r\<lparr>last_acq := la\<rparr>)"
    and "foldl (\<lambda>r op. settle_row op (la, t op) r) r xs = (if xs = [] then r else r\<lparr>last_acq := la\<rparr>)"
    and "foldl (\<lambda>r op. if is_local (loc_info op) then write_row op r else r) r xs = r"
proof -
  have w: "write_row op r' = r'" if "op \<in> set xs" for op r' using assms(1) that by (simp add: write_row_def)
  have t: "touch stamp op r' = r'\<lparr>last_acq := la\<rparr>" if "op \<in> set xs" "stamp = None \<longrightarrow> last_acq r' = la" for op r'
    using that w assms(2) by (auto simp: touch_def split: option.splits)
  have "foldl (\<lambda>r op. touch stamp op r) r' ys = (if ys = [] then r' else r'\<lparr>last_acq := la\<rparr>)"
    if "set ys \<subseteq> set xs" "stamp = None \<longrightarrow> last_acq r' = la" for ys r'
    using that by (induction ys arbitrary: r') (simp_all add: t)
  then show "foldl (\<lambda>r op. touch stamp op r) r xs = (if xs = [] then r else r\<lparr>last_acq := la\<rparr>)" using assms(2) by simp
  have s: "settle_row op (la, t op) r' = r'\<lparr>last_acq := la\<rparr>" if "op \<in> set xs" for op r'
    using assms(1) that by (simp add: settle_row_def)
  have "foldl (\<lambda>r op. settle_row op (la, t op) r) r' ys = (if ys = [] then r' else r'\<lparr>last_acq := la\<rparr>)" if "set ys \<subseteq> set xs" for ys r'
    using that by (induction ys arbitrary: r') (simp_all add: s)
  then show "foldl (\<lambda>r op. settle_row op (la, t op) r) r xs = (if xs = [] then r else r\<lparr>last_acq := la\<rparr>)" by simp
  have "foldl (\<lambda>r op. if is_local (loc_info op) then write_row op r else r) r' ys = r'" if "set ys \<subseteq> set xs" for ys r'
    using that by (induction ys arbitrary: r') (simp_all add: w)
  then show "foldl (\<lambda>r op. if is_local (loc_info op) then write_row op r else r) r xs = r" by simp
qed

lemma settle_commit:
  assumes "\<And>s. ops_at sf s ops \<noteq> [] \<Longrightarrow> stack_ok (B s) (modes_at sf s ops)"
  shows "settle sf ops (map (\<lambda>op. stamped stamp op (last_acq (B (place sf op)), r_tuple (B (place sf op)))) ops) (local_writes sf ops B) =
    apply_txn stamp sf ops B"
proof (rule ext)
  fix s
  let ?xs = "ops_at sf s ops" and ?g = "\<lambda>op. stamped stamp op (last_acq (B (place sf op)), r_tuple (B (place sf op)))"
  let ?h = "\<lambda>op. stamped stamp op (last_acq (B s), r_tuple (B s))" and ?la = "case stamp of None \<Rightarrow> last_acq (B s) | Some i \<Rightarrow> i"
  let ?w = "foldl (\<lambda>r op. if is_local (loc_info op) then write_row op r else r)"
  have gh: "foldl (\<lambda>r op. settle_row op (?g op) r) r ?xs = foldl (\<lambda>r op. settle_row op (?h op) r) r ?xs" for r
    by (rule foldl_cong) auto
  have "foldl (\<lambda>r op. settle_row op (?h op) r) (?w (B s) ?xs) ?xs = foldl (\<lambda>r op. touch stamp op r) (B s) ?xs"
  proof (cases "?xs = []")
    case False
    then have "stack_ok (B s) (modes_at sf s ops)" by (rule assms)
    then consider "\<forall>op \<in> set ?xs. op_mode op = READ" | op where "?xs = [op]" "op_mode op = WRITE"
      using False by (auto simp: stack_ok_def modes_at_def map_eq_Cons_conv)
    then show ?thesis
    proof cases
      case 1
      then have "?h op = (?la, r_tuple (B s))" if "op \<in> set ?xs" for op
        using that by (cases stamp) (simp_all add: stamped_def)
      then have "foldl (\<lambda>r op. settle_row op (?h op) r) r ?xs = foldl (\<lambda>r op. settle_row op (?la, r_tuple (B s)) r) r ?xs" for r
        by (intro foldl_cong) auto
      with touch_reads(1) [where stamp = stamp and r = "B s", OF 1 refl]
        touch_reads(2) [where stamp = stamp and r = "B s" and t = "\<lambda>_. r_tuple (B s)", OF 1 refl] touch_reads(3) [OF 1 refl]
      show ?thesis by simp
    next
      case 2
      then show ?thesis
        by (cases stamp; cases "is_local (loc_info op)")
          (auto simp: settle_row_def stamped_def touch_def write_row_def intro!: row.equality)
    qed
  qed simp
  then show "settle sf ops (map ?g ops) (local_writes sf ops B) s = apply_txn stamp sf ops B s"
    by (simp only: settle_at local_writes_at apply_txn_at gh)
qed

section \<open>Ending a transaction\<close>

text \<open>Between transactions: no futures, an empty log.\<close>

definition idle :: "nat \<Rightarrow> sys \<Rightarrow> bool" where
  "idle ts st \<longleftrightarrow> exec_ok ts st \<and> futs st = [] \<and> acts st = []"

lemma actions_clear_append:
  "actions_clear cfg sf w nds (as @ bs) = bind_res (actions_clear cfg sf w nds as) (\<lambda>nds. actions_clear cfg sf w nds bs)"
  by (induction as arbitrary: nds) simp_all

lemma end_txn_ok:
  assumes ok: "exec_ok ts st" and len: "length xs = length ops" "length ops \<le> length (futs st)" and lg: "logged ops st"
    and F: "\<And>j. j < length ops \<Longrightarrow> fut_holds (kvs (exec st)) (ops ! j) (futs st ! j) (xs ! j)"
    and R: "\<And>s. rows st s = stack (B s) (modes_at (self st) s ops)" "\<And>s. in_range ts (nodes st) s \<Longrightarrow> stack_ok (B s) (modes_at (self st) s ops)"
    and O: "\<And>op. op \<in> set ops \<Longrightarrow> op_mode op \<noteq> INVALID \<and> op_fits ts st op"
  shows "\<exists>st'. end_txn cfg st = Inr st' \<and> frame st st' \<and> idle ts st' \<and> rows st' = settle (self st) ops xs B"
proof -
  let ?sf = "self st" and ?w = "ex_tid (exec st)" and ?tb = "kvs (exec st)" and ?l = "ex_log (exec st)"
  have nok: "nodes_ok ts ?tb ?sf ?w (nodes st)" and lc: "log_comm ?l = ?sf" "log_tid ?l = ?w" "sp_max (log_pool ?l) = 65536"
    using ok by (simp_all add: exec_ok_def)
  have sf: "?sf < length (nodes st)" using nok by (simp add: nodes_ok_def)
  have F0: "0 + j < length (futs st) \<and> fut_holds ?tb (ops ! j) (futs st ! (0 + j)) (xs ! j)" if "j < length ops" for j
    using F [OF that] that len(2) by simp
  have O0: "op_mode op \<noteq> INVALID \<and> in_range ts (nodes st) (place ?sf op) \<and> (is_local (loc_info op) \<or> fst (place ?sf op) \<noteq> ?sf)"
    if "op \<in> set ops" for op using O [OF that] sf by (auto simp: op_fits_def in_range_def place_def)
  obtain nds where n: "actions_clear cfg ?sf ?w (nodes st) (acts_of ?tb ops) = Inr nds" "nodes_ok ts ?tb ?sf ?w nds"
    "nrow ?tb nds = settle ?sf ops xs B" "futures (nds ! ?sf) = futures (nodes st ! ?sf)" "length nds = length (nodes st)"
    using clear_ops [OF nok len(1) F0 R O0, of cfg] by (auto simp: acts_of_def)
  have cl: "actions_clear cfg ?sf ?w (nodes st) (acts st) = Inr nds"
  proof -
    from lg consider "acts st = acts_of ?tb ops" | md tgt where "acts st = acts_of ?tb ops @ [Remote md (length ops) tgt]"
        "length ops < length (futs st)" "f_tuple (futs st ! length ops) = ExceptionPtr"
      unfolding logged_def by blast
    then show ?thesis
    proof cases
      case 1
      with n(1) show ?thesis by simp
    next
      case 2
      with n remote_clear_failed [of ?sf nds "length ops" ?w cfg md tgt] sf show ?thesis
        by (simp add: actions_clear_append action_clear_def)
    qed
  qed
  define l where "l = ?l\<lparr>log_pool := StackPool_clear (log_pool ?l), actions := []\<rparr>"
  define nd where "nd = mempool_clear (nds ! ?sf) ?w"
  define st' where "st' = set_log (st\<lparr>nodes := nds[?sf := nd]\<rparr>) l"
  have w: "?w < length (put_counts (nds ! ?sf))" "put_counts (nds ! ?sf) ! ?w = 0" "open_futures (nds ! ?sf) = Map.empty"
    using n(2) by (simp_all add: nodes_ok_def)
  have "undo_clear cfg ?l (nodes st) = Inr (l, nds)"
    using cl lc sf n(5) w by (simp add: undo_clear_def Let_def at_res_lt putres_wait_def l_def)
  then have run: "end_txn cfg st = Inr st'"
    using sf n(5) by (simp add: end_txn_def Let_def set_log_def my_node_def at_res_lt set_node_def st'_def nd_def)
  have fr: "frame st st'" unfolding st'_def by (rule frameI) (simp add: n(5))
  have sel: "nodes st' = nds[?sf := nd]" "self st' = ?sf" "kvs (exec st') = ?tb" "ex_tid (exec st') = ?w" "ex_log (exec st') = l"
    by (simp_all add: st'_def set_log_def)
  have "nodes_ok ts ?tb ?sf ?w (nds[?sf := nd])" by (rule nodes_ok_keep [OF n(2)]) (simp_all add: nd_def mempool_clear_def w(3))
  moreover have "nrow ?tb (nds[?sf := nd]) = nrow ?tb nds" by (rule nrow_keep) (simp add: nd_def mempool_clear_def)
  moreover have "futs st' = []" using sf n(5) by (simp add: sel nd_def mempool_clear_def)
  ultimately have "idle ts st'" "rows st' = settle ?sf ops xs B"
    using lc n(3) by (simp_all add: idle_def exec_ok_def sel l_def StackPool_clear_def)
  with run fr show ?thesis by blast
qed

text \<open>Two states that agree on nodes and log.\<close>

definition same_core :: "sys \<Rightarrow> sys \<Rightarrow> bool" where
  "same_core st st' \<longleftrightarrow> nodes st' = nodes st \<and> self st' = self st \<and> kvs (exec st') = kvs (exec st) \<and>
     ex_tid (exec st') = ex_tid (exec st) \<and> ex_log (exec st') = ex_log (exec st)"

lemma core_sel:
  assumes "same_core st st'"
  shows "nodes st' = nodes st" "self st' = self st" "kvs (exec st') = kvs (exec st)" "ex_tid (exec st') = ex_tid (exec st)"
    "exec_ok ts st' = exec_ok ts st" "idle ts st' = idle ts st" "logged ops st' = logged ops st" "op_fits ts st' op = op_fits ts st op"
    "rows_ok ts i st' = rows_ok ts i st"
proof -
  show n: "nodes st' = nodes st" "self st' = self st" "kvs (exec st') = kvs (exec st)" "ex_tid (exec st') = ex_tid (exec st)"
    using assms by (simp_all add: same_core_def)
  have l: "ex_log (exec st') = ex_log (exec st)" using assms by (simp add: same_core_def)
  show e: "exec_ok ts st' = exec_ok ts st" unfolding exec_ok_def n l ..
  show "idle ts st' = idle ts st" unfolding idle_def e n l ..
  show "logged ops st' = logged ops st" unfolding logged_def n l ..
  show "op_fits ts st' op = op_fits ts st op" unfolding op_fits_def n ..
  show "rows_ok ts i st' = rows_ok ts i st" unfolding rows_ok_def n ..
qed

text \<open>The two ends of a lock phase.\<close>

lemma rollback_ok:
  assumes "locked ts st0 ops st" "logged ops st" "\<And>op. op \<in> set ops \<Longrightarrow> op_mode op \<noteq> INVALID \<and> op_fits ts st0 op" "same_core st st2"
  shows "\<exists>st'. rollback cfg st2 = Inr (ROLLBACK, st') \<and> frame st2 st' \<and> idle ts st' \<and> rows st' = rows st0"
proof -
  note sel = frame_sel [OF lockedD(1) [OF assms(1)]] and c = core_sel [OF assms(4)]
  let ?g = "\<lambda>op. (last_acq (rows st0 (place (self st0) op)), r_tuple (rows st0 (place (self st0) op)))"
  have a: "fut_holds (kvs (exec st2)) (ops ! j) (futs st2 ! j) (map ?g ops ! j)" if "j < length ops" for j
    using lockedD(4) [OF assms(1) that] that sel c by simp
  have b: "rows st2 s = stack (rows st0 s) (modes_at (self st2) s ops)" for s using lockedD(5) [OF assms(1), of s] sel c by simp
  have d: "stack_ok (rows st0 s) (modes_at (self st2) s ops)" if "in_range ts (nodes st2) s" for s
    using lockedD(6) [OF assms(1), of s] that sel c by (simp add: in_range_def)
  have e: "op_mode op \<noteq> INVALID \<and> op_fits ts st2 op" if "op \<in> set ops" for op
    using assms(3) [OF that] sel c by (simp add: op_fits_def)
  have ok: "exec_ok ts st2" "length ops \<le> length (futs st2)" "logged ops st2"
    using lockedD(2,3) [OF assms(1)] assms(2) c by simp_all
  obtain st' where "end_txn cfg st2 = Inr st'" "frame st2 st'" "idle ts st'" "rows st' = settle (self st2) ops (map ?g ops) (rows st0)"
    using end_txn_ok [OF ok(1) _ ok(2,3) a b d e, of cfg] by auto
  then show ?thesis
    using settle_restore [of "self st0" ops "rows st0"] sel c by (auto simp: rollback_def)
qed

lemma commit_ok:
  assumes "locked ts st0 (live_ops all) st" "acts st = acts_of (kvs (exec st)) (live_ops all)" "length (futs st) = length (live_ops all)"
    and O: "\<And>op. op \<in> set (live_ops all) \<Longrightarrow> op_mode op \<noteq> INVALID \<and> op_fits ts st0 op"
  shows "\<exists>st1. apply_ops stamp st all [0..<length (live_ops all)] = Inr (True, st1) \<and> frame st0 st1 \<and>
    (\<forall>st2. same_core st1 st2 \<longrightarrow> (\<exists>st'. commit cfg st2 = Inr (COMMIT, st') \<and> frame st2 st' \<and> idle ts st' \<and>
       rows st' = apply_txn stamp (self st0) (live_ops all) (rows st0)))"
proof -
  let ?ops = "live_ops all" and ?sf = "self st0"
  let ?g = "\<lambda>op. (last_acq (rows st0 (place ?sf op)), r_tuple (rows st0 (place ?sf op)))"
  note fr = lockedD(1) [OF assms(1)] and ok = lockedD(2) [OF assms(1)]
  note sel = frame_sel [OF fr]
  have sfN: "?sf < length (nodes st0)" using ok sel by (simp add: exec_ok_def nodes_ok_def)
  have rng: "in_range ts (nodes st0) (place ?sf op)" if "op \<in> set ?ops" for op
    using O [OF that] sfN by (auto simp: op_fits_def in_range_def place_def)
  have f0: "0 + j < length (futs st) \<and> fut_holds (kvs (exec st)) (?ops ! j) (futs st ! (0 + j)) (map ?g ?ops ! j)" if "j < length ?ops" for j
    using lockedD(4) [OF assms(1) that] that assms(3) sel by simp
  have r0: "in_range ts (nodes st) (place (self st) op)" if "op \<in> set ?ops" for op
    using rng [OF that] sel by (simp add: in_range_def)
  obtain st1 where st1: "apply_ops stamp st all [0..<0 + length ?ops] = Inr (True, st1)" "node_step ts st st1"
    "\<forall>j < length ?ops. fut_holds (kvs (exec st)) (?ops ! j) (futs st1 ! (0 + j)) (stamped stamp (?ops ! j) (map ?g ?ops ! j))"
    "rows st1 = local_writes (self st) ?ops (rows st)"
    using apply_ops_ok [OF ok _ f0 r0, of stamp] by auto
  note sel1 = node_step_sel [OF st1(2)]
  have fr1: "frame st0 st1" using frame_trans [OF fr] st1(2) by (simp add: node_step_def)
  have ac1: "acts st1 = acts st" using st1(2) by (simp add: node_step_def)
  let ?B = "local_writes ?sf ?ops (rows st0)"
  have R0: "rows st = (\<lambda>s. stack (rows st0 s) (modes_at ?sf s ?ops))" using lockedD(5) [OF assms(1)] by blast
  have R1: "rows st1 s = stack (?B s) (modes_at ?sf s ?ops)" for s
    using st1(4) unfolding sel(1) R0 local_writes_stack by simp
  have so: "stack_ok (?B s) (modes_at ?sf s ?ops)" if "in_range ts (nodes st0) s" for s
    using lockedD(6) [OF assms(1) that] by (simp add: local_writes_ok)
  have settled: "settle ?sf ?ops (map (\<lambda>op. stamped stamp op (?g op)) ?ops) ?B = apply_txn stamp ?sf ?ops (rows st0)"
  proof (rule settle_commit)
    fix s
    assume "ops_at ?sf s ?ops \<noteq> []"
    then obtain op where "op \<in> set ?ops" "place ?sf op = s" by (auto simp: filter_empty_conv)
    with rng lockedD(6) [OF assms(1), of s] show "stack_ok (rows st0 s) (modes_at ?sf s ?ops)" by auto
  qed
  have "\<exists>st'. commit cfg st2 = Inr (COMMIT, st') \<and> frame st2 st' \<and> idle ts st' \<and> rows st' = apply_txn stamp ?sf ?ops (rows st0)"
    if c: "same_core st1 st2" for st2
  proof -
    have s2: "nodes st2 = nodes st1" "self st2 = ?sf" "kvs (exec st2) = kvs (exec st0)" "ex_tid (exec st2) = ex_tid (exec st1)" "ex_log (exec st2) = ex_log (exec st1)"
      using c sel sel1 by (simp_all add: same_core_def)
    have ok2: "exec_ok ts st2" using sel1(5) c by (simp add: exec_ok_def same_core_def)
    have F2: "futs st2 = futs st1" "acts st2 = acts st1" using c by (simp_all add: same_core_def)
    have l2: "logged ?ops st2" using assms(2) ac1 F2 sel sel1 s2 by (simp add: logged_def)
    have a: "fut_holds (kvs (exec st2)) (?ops ! j) (futs st2 ! j) (map (\<lambda>op. stamped stamp op (?g op)) ?ops ! j)" if "j < length ?ops" for j
      using st1(3) that F2 s2 sel by simp
    have b: "rows st2 s = stack (?B s) (modes_at (self st2) s ?ops)" for s using R1 [of s] c sel sel1 by (simp add: same_core_def)
    have d: "stack_ok (?B s) (modes_at (self st2) s ?ops)" if "in_range ts (nodes st2) s" for s
      using so [of s] that s2 sel sel1 by (simp add: in_range_def)
    have e: "op_mode op \<noteq> INVALID \<and> op_fits ts st2 op" if "op \<in> set ?ops" for op
      using O [OF that] s2 sel sel1 by (simp add: op_fits_def)
    have lf: "length ?ops \<le> length (futs st2)" using F2 sel1(6) assms(3) by simp
    from end_txn_ok [OF ok2 _ lf l2 a b d e, of cfg] settled s2 show ?thesis by (auto simp: commit_def)
  qed
  with st1(1) fr1 show ?thesis by auto
qed

section \<open>Transactions are atomic\<close>

text \<open>A worker about to run a transaction with id \<open>i\<close>.\<close>

definition ready :: "nat \<Rightarrow> sys \<Rightarrow> Txn \<Rightarrow> TxnId \<Rightarrow> bool" where
  "ready ts st txn i \<longleftrightarrow> idle ts st \<and> rows_ok ts i st \<and> length (cold_ops txn) \<le> N_OPS \<and>
     (\<forall>op \<in> set (live_ops (cold_ops txn)). op_fits ts st op)"

lemma ready_core: "same_core st st' \<Longrightarrow> ready ts st txn i \<Longrightarrow> ready ts st' txn i"
  using core_sel [of st st'] by (simp add: ready_def)

lemma ready_locked:
  assumes "ready ts st txn i"
  shows "locked ts st [] st" "length (futs st) = length []" "acts st = acts_of (kvs (exec st)) []"
proof -
  show "length (futs st) = length []" "acts st = acts_of (kvs (exec st)) []" using assms by (simp_all add: ready_def idle_def acts_of_def)
  have "rows_ok ts i st" using assms by (simp add: ready_def)
  then have "stack_ok (rows st s) []" if "in_range ts (nodes st) s" for s
    using rows_okD [OF _ that] by (fastforce simp: stack_ok_def)
  then show "locked ts st [] st" using assms unfolding locked_def by (simp add: ready_def idle_def)
qed

lemma live_ops_set: "op \<in> set (live_ops ops) \<Longrightarrow> op \<in> set ops \<and> op_mode op \<noteq> INVALID"
  unfolding live_ops_def using set_takeWhileD [of op "\<lambda>op. op_mode op \<noteq> INVALID" ops] by simp

lemma ready_lock_ops:
  assumes rd: "ready ts st txn i" and mb: "\<not> valid i \<or> unat (mini_batch_id i) = mb_num (exec st)"
    and me: "may_end \<or> (\<forall>op \<in> set (cold_ops txn). op_mode op \<noteq> INVALID)"
  shows "if can_lock cfg i (self st) (rows st) (cold_ops txn)
    then \<exists>st1 st2. lock_ops cfg may_end i st (cold_ops txn) [] = Inr (Some [0..<length (live_ops (cold_ops txn))], st1) \<and>
      apply_ops stamp st1 (cold_ops txn) [0..<length (live_ops (cold_ops txn))] = Inr (True, st2) \<and> frame st st2 \<and>
      (\<forall>st3. same_core st2 st3 \<longrightarrow> (\<exists>st'. commit cfg st3 = Inr (COMMIT, st') \<and> frame st3 st' \<and> idle ts st' \<and>
         rows st' = apply_txn stamp (self st) (live_ops (cold_ops txn)) (rows st)))
    else \<exists>st1. lock_ops cfg may_end i st (cold_ops txn) [] = Inr (None, st1) \<and> frame st st1 \<and>
      (\<forall>st3. same_core st1 st3 \<longrightarrow> (\<exists>st'. rollback cfg st3 = Inr (ROLLBACK, st') \<and> frame st3 st' \<and> idle ts st' \<and> rows st' = rows st))"
proof -
  let ?ops = "cold_ops txn"
  have fits: "\<forall>op \<in> set (live_ops ?ops). op_fits ts st op" and n: "length ?ops \<le> N_OPS" and ro: "rows_ok ts i st"
    using rd by (simp_all add: ready_def)
  have len: "length [] + length ?ops < 300" using n by (simp add: N_OPS_def)
  note lk = lock_ops_ok [OF ready_locked [OF rd] ro fits len mb me, of cfg]
  show ?thesis
  proof (cases "can_lock cfg i (self st) (rows st) ?ops")
    case True
    with lk obtain st1 where st1: "lock_ops cfg may_end i st ?ops [] = Inr (Some [0..<length (live_ops ?ops)], st1)"
      "locked ts st (live_ops ?ops) st1" "length (futs st1) = length (live_ops ?ops)" "acts st1 = acts_of (kvs (exec st1)) (live_ops ?ops)"
      by auto
    have "op_mode op \<noteq> INVALID \<and> op_fits ts st op" if "op \<in> set (live_ops ?ops)" for op
      using live_ops_set [OF that] fits that by blast
    from commit_ok [OF st1(2,4,3) this, of stamp cfg] st1(1) True show ?thesis by auto
  next
    case False
    with lk obtain st1 pre where st1: "lock_ops cfg may_end i st ?ops [] = Inr (None, st1)" "locked ts st pre st1" "logged pre st1"
      "set pre \<subseteq> set (live_ops ?ops)" by auto
    have "op_mode op \<noteq> INVALID \<and> op_fits ts st op" if "op \<in> set pre" for op
      using live_ops_set [of op ?ops] st1(4) that fits by blast
    from rollback_ok [OF st1(2,3) this, of _ cfg] st1(1) lockedD(1) [OF st1(2)] False show ?thesis by auto
  qed
qed

lemma set_txn_core: "same_core st (set_txn st e t)"
  by (simp add: same_core_def set_txn_def)

lemma same_core_refl [simp]: "same_core st st"
  by (simp add: same_core_def)

lemma frame_queue: "frame st st' \<Longrightarrow> frame (st\<lparr>send_queue := q\<rparr>) (st'\<lparr>send_queue := q\<rparr>)"
proof -
  assume "frame st st'"
  then have e: "st' = set_log (st\<lparr>nodes := nodes st'\<rparr>) (ex_log (exec st'))" "length (nodes st') = length (nodes st)"
    by (simp_all add: frame_def)
  have "st'\<lparr>send_queue := q\<rparr> = set_log (st\<lparr>send_queue := q, nodes := nodes st'\<rparr>) (ex_log (exec st'))"
    by (subst e(1)) (simp add: set_log_def)
  then show ?thesis using e(2) by (simp add: frame_def set_log_def)
qed

text \<open>A run of \<open>my_execute\<close>, with everything it changes.\<close>

lemma my_execute_run:
  assumes "e < length (my_txns st)" "txn = my_txns st ! e" "i = (txn_id txn)\<lparr>valid := True\<rparr>" "ready ts st txn i"
    and "unat (mini_batch_id i) = mb_num (exec st)"
    and "send_q_holds (send_queue st) rs" "Suc (length rs) < send_q_capacity (send_queue st)"
  shows "\<exists>rc buf q st'. my_execute cfg st e = Inr (rc, buf, st') \<and> idle ts st' \<and>
    frame ((set_txn st e (txn\<lparr>txn_id := i\<rparr>))\<lparr>send_queue := q\<rparr>) st' \<and>
    (rc = COMMIT \<longleftrightarrow> can_lock cfg i (self st) (rows st) (cold_ops txn)) \<and>
    (if rc = COMMIT
     then rows st' = apply_txn (Some i) (self st) (live_ops (cold_ops txn)) (rows st) \<and>
       buf = Some (length rs * HOT_TXN_PKT_BYTES) \<and> send_q_capacity q = send_q_capacity (send_queue st) \<and>
       send_q_holds q (rs @ [(mb_num (exec st), ex_tid (exec st), e)])
     else rows st' = rows st \<and> q = send_queue st)"
proof -
  let ?arg = "txn\<lparr>txn_id := i\<rparr>"
  define st0 where "st0 = set_txn st e ?arg"
  have core: "same_core st st0" by (simp add: st0_def set_txn_core)
  note c = core_sel [OF core]
  have rd: "ready ts st0 txn i" by (rule ready_core [OF core assms(4)])
  have ex0: "exec st0 = exec st" "send_queue st0 = send_queue st" by (simp_all add: st0_def set_txn_def)
  have mb: "\<not> valid i \<or> unat (mini_batch_id i) = mb_num (exec st0)" using assms(5) by (simp add: ex0)
  note L = ready_lock_ops [OF rd mb, of True cfg "Some i", simplified]
  have unf: "my_execute cfg st e = bind_res (lock_ops cfg True i st0 (cold_ops txn) []) (\<lambda>(fs, st).
       case fs of
         None \<Rightarrow> bind_res (rollback cfg st) (\<lambda>(rc, st). ok (rc, None, st))
       | Some fs \<Rightarrow>
           bind_res (apply_ops (Some i) st (cold_ops txn) fs) (\<lambda>(done, st).
             if \<not> done then bind_res (rollback cfg st) (\<lambda>(rc, st). ok (rc, None, st))
             else bind_res (alloc_slot (send_queue st) (mb_num (exec st)) (ex_tid (exec st), e)) (\<lambda>(buf, q).
                  bind_res (commit cfg (st\<lparr>send_queue := q\<rparr>)) (\<lambda>(rc, st). ok (rc, Some buf, st)))))"
  proof -
    have at: "at_res (my_txns st) e = Inr txn" using assms(1,2) by simp
    have cold: "cold_ops ?arg = cold_ops txn" by simp
    show ?thesis
      by (simp only: my_execute_def at bind_res_simps Let_def assms(3) [symmetric] st0_def [symmetric] cold ex0 assms(5) assert_res_simps simp_thms)
  qed
  show ?thesis
  proof (cases "can_lock cfg i (self st0) (rows st0) (cold_ops txn)")
    case True
    with L obtain st1 st2 where s: "lock_ops cfg True i st0 (cold_ops txn) [] = Inr (Some [0..<length (live_ops (cold_ops txn))], st1)"
      "apply_ops (Some i) st1 (cold_ops txn) [0..<length (live_ops (cold_ops txn))] = Inr (True, st2)" "frame st0 st2"
      "\<And>st3. same_core st2 st3 \<Longrightarrow> \<exists>st'. commit cfg st3 = Inr (COMMIT, st') \<and> frame st3 st' \<and> idle ts st' \<and>
         rows st' = apply_txn (Some i) (self st0) (live_ops (cold_ops txn)) (rows st0)" by auto
    note f2 = frame_sel [OF s(3)]
    obtain buf q where q: "alloc_slot (send_queue st2) (mb_num (exec st2)) (ex_tid (exec st2), e) = Inr (buf, q)"
      using alloc_slot_holds(2) [OF assms(6,7)] f2(6) ex0(2) by (metis surj_pair)
    have sq: "send_q_holds q (rs @ [(mb_num (exec st), ex_tid (exec st), e)])" "buf = length rs * HOT_TXN_PKT_BYTES"
      "send_q_capacity q = send_q_capacity (send_queue st)"
      using alloc_slot_holds(1) [OF assms(6)] q f2 ex0 by auto
    obtain st' where st': "commit cfg (st2\<lparr>send_queue := q\<rparr>) = Inr (COMMIT, st')" "frame (st2\<lparr>send_queue := q\<rparr>) st'" "idle ts st'"
      "rows st' = apply_txn (Some i) (self st0) (live_ops (cold_ops txn)) (rows st0)"
      using s(4) [of "st2\<lparr>send_queue := q\<rparr>"] by (auto simp: same_core_def)
    have "my_execute cfg st e = Inr (COMMIT, Some buf, st')" using s(1,2) q st'(1) by (simp add: unf)
    moreover have "frame (st0\<lparr>send_queue := q\<rparr>) st'" by (rule frame_trans [OF frame_queue [OF s(3)] st'(2)])
    ultimately show ?thesis using True st'(3,4) sq c unfolding st0_def by (intro exI [of _ COMMIT] exI [of _ "Some buf"] exI [of _ q] exI [of _ st']) simp
  next
    case False
    with L obtain st1 where s: "lock_ops cfg True i st0 (cold_ops txn) [] = Inr (None, st1)" "frame st0 st1"
      "\<And>st3. same_core st1 st3 \<Longrightarrow> \<exists>st'. rollback cfg st3 = Inr (ROLLBACK, st') \<and> frame st3 st' \<and> idle ts st' \<and> rows st' = rows st0" by auto
    obtain st' where st': "rollback cfg st1 = Inr (ROLLBACK, st')" "frame st1 st'" "idle ts st'" "rows st' = rows st0"
      using s(3) [of st1] by auto
    have "my_execute cfg st e = Inr (ROLLBACK, None, st')" using s(1) st'(1) by (simp add: unf)
    moreover have "frame (st0\<lparr>send_queue := send_queue st\<rparr>) st'" 
      using frame_trans [OF s(2) st'(2)] unfolding ex0(2) [symmetric] by simp
    ultimately show ?thesis using False st'(3,4) c unfolding st0_def
      by (intro exI [of _ ROLLBACK] exI [of _ None] exI [of _ "send_queue st"] exI [of _ st']) simp
  qed
qed

text \<open>
  C1. Accelerated transactions are atomic. On a cluster of set-up nodes with arbitrary locks held by
  others, a worker between transactions whose queue of switch packets has room runs \<open>my_execute\<close>
  to an end without error. It commits exactly when every lock of its operations can be granted in
  turn. A commit has, on all rows of all nodes together, the effect of the operations applied one
  after the other, each row touched stamped with the transaction's id, and its packet is queued. A rollback leaves every
  row as it was: value, lock state and stamp. In both cases the worker holds no lock and
  waits for no response afterwards.
\<close>

theorem my_execute_atomic:
  assumes "e < length (my_txns st)" "txn = my_txns st ! e" "i = (txn_id txn)\<lparr>valid := True\<rparr>" "ready ts st txn i"
    and "unat (mini_batch_id i) = mb_num (exec st)"
    and "send_q_holds (send_queue st) rs" "Suc (length rs) < send_q_capacity (send_queue st)"
  shows "\<exists>rc buf st'. my_execute cfg st e = Inr (rc, buf, st') \<and> idle ts st' \<and>
    (rc = COMMIT \<longleftrightarrow> can_lock cfg i (self st) (rows st) (cold_ops txn)) \<and>
    (if rc = COMMIT
     then rows st' = apply_txn (Some i) (self st) (live_ops (cold_ops txn)) (rows st) \<and>
       send_q_holds (send_queue st') (rs @ [(mb_num (exec st), ex_tid (exec st), e)])
     else rows st' = rows st \<and> send_queue st' = send_queue st)"
proof -
  obtain rc buf q st' where h: "my_execute cfg st e = Inr (rc, buf, st')" "idle ts st'"
    "frame ((set_txn st e (txn\<lparr>txn_id := i\<rparr>))\<lparr>send_queue := q\<rparr>) st'"
    "rc = COMMIT \<longleftrightarrow> can_lock cfg i (self st) (rows st) (cold_ops txn)"
    "if rc = COMMIT
     then rows st' = apply_txn (Some i) (self st) (live_ops (cold_ops txn)) (rows st) \<and>
       buf = Some (length rs * HOT_TXN_PKT_BYTES) \<and> send_q_capacity q = send_q_capacity (send_queue st) \<and>
       send_q_holds q (rs @ [(mb_num (exec st), ex_tid (exec st), e)])
     else rows st' = rows st \<and> q = send_queue st"
    using my_execute_run [OF assms, of cfg] by (elim exE conjE)
  have "send_queue st' = q" using frame_sel(6) [OF h(3)] by simp
  with h show ?thesis by (intro exI [of _ rc] exI [of _ buf] exI [of _ st']) simp
qed

lemma frame_more:
  assumes "frame st st'"
  shows "exec st' = (exec st)\<lparr>ex_log := ex_log (exec st')\<rparr>" "sys_net st' = sys_net st" "sys_layout st' = sys_layout st"
proof -
  have e: "st' = set_log (st\<lparr>nodes := nodes st'\<rparr>) (ex_log (exec st'))" using assms by (simp add: frame_def)
  show "exec st' = (exec st)\<lparr>ex_log := ex_log (exec st')\<rparr>" "sys_net st' = sys_net st" "sys_layout st' = sys_layout st"
    by (subst e, simp add: set_log_def)+
qed

lemma frame_counts:
  assumes "frame st st'"
  shows "n_commits (exec st') = n_commits (exec st)" "n_aborts (exec st') = n_aborts (exec st)"
    "leftover_txns (exec st') = leftover_txns (exec st)" "n_cold_fallbacks (exec st') = n_cold_fallbacks (exec st)"
  by (subst frame_more(1) [OF assms], simp)+

text \<open>The counters a call of \<open>execute\<close> moves.\<close>

definition counted :: "RC \<Rightarrow> sys \<Rightarrow> sys \<Rightarrow> bool" where
  "counted rc st st' \<longleftrightarrow> n_commits (exec st') = n_commits (exec st) + (if rc = COMMIT then 1 else 0) \<and>
     n_aborts (exec st') = n_aborts (exec st) + (if rc = COMMIT then 0 else 1) \<and> leftover_txns (exec st') = leftover_txns (exec st) \<and>
     send_queue st' = send_queue st"

lemma execute_ok:
  assumes "e < length (my_txns st)" "txn = my_txns st ! e" "i = (txn_id txn)\<lparr>valid := False\<rparr>" "ready ts st txn i"
    and "ORIG_MODE cfg \<or> (\<forall>op \<in> set (cold_ops txn). op_mode op \<noteq> INVALID)"
    and "do_accel txn \<Longrightarrow> \<exists>pkt. make_txn cfg (sys_net st) (sys_layout st) (txn\<lparr>txn_id := i\<rparr>) (raw_buf en) = Inr pkt"
  shows "\<exists>rc st'. execute cfg en st e = Inr (rc, st') \<and> idle ts st' \<and> counted rc st st' \<and>
    (rc = COMMIT \<longleftrightarrow> can_lock cfg i (self st) (rows st) (cold_ops txn)) \<and>
    rows st' = (if rc = COMMIT then apply_txn None (self st) (live_ops (cold_ops txn)) (rows st) else rows st) \<and>
    my_txns st' = (my_txns st)[e := txn\<lparr>txn_id := i\<rparr>] \<and> self st' = self st \<and> kvs (exec st') = kvs (exec st) \<and>
    length (nodes st') = length (nodes st)"
proof -
  let ?arg = "txn\<lparr>txn_id := i\<rparr>" and ?nd = "nodes st ! self st"
  have sf: "my_node st = Inr ?nd" using assms(4) by (simp add: ready_def idle_def exec_ok_def nodes_ok_def my_node_def at_res_lt)
  define st0 where "st0 = upd_exec (\<lambda>x. x\<lparr>ex_ts := ts_get (ts_mask (comm_id ?nd) (word_of_nat (ex_tid x))) (now_ns en)\<rparr>) (set_txn st e ?arg)"
  have core: "same_core st st0" by (simp add: st0_def set_txn_def upd_exec_def same_core_def)
  note c = core_sel [OF core]
  have rd: "ready ts st0 txn i" by (rule ready_core [OF core assms(4)])
  have st0: "n_commits (exec st0) = n_commits (exec st)" "n_aborts (exec st0) = n_aborts (exec st)"
    "leftover_txns (exec st0) = leftover_txns (exec st)" "my_txns st0 = (my_txns st)[e := ?arg]" "sys_net st0 = sys_net st" "sys_layout st0 = sys_layout st"
    "send_queue st0 = send_queue st"
    by (simp_all add: st0_def set_txn_def upd_exec_def)
  have vi: "\<not> valid i" using assms(3) by simp
  then have mb: "\<not> valid i \<or> unat (mini_batch_id i) = mb_num (exec st0)" by simp
  note L = ready_lock_ops [OF rd mb assms(5), of cfg None]
  have unf: "execute cfg en st e = bind_res (lock_ops cfg (ORIG_MODE cfg) i st0 (cold_ops txn) []) (\<lambda>(fs, st).
       case fs of
         None \<Rightarrow> abort_txn cfg st
       | Some fs \<Rightarrow>
           bind_res (apply_ops None st (cold_ops txn) fs) (\<lambda>(done, st).
             if \<not> done then abort_txn cfg st
             else bind_res (if do_accel txn then atomic cfg en st ?arg else ok st) (\<lambda>st.
                  commit cfg (upd_exec (\<lambda>x. x\<lparr>n_commits := n_commits x + 1\<rparr>) st))))"
  proof -
    have at: "at_res (my_txns st) e = Inr txn" using assms(1,2) by simp
    have cold: "cold_ops ?arg = cold_ops txn" "do_accel ?arg = do_accel txn" by simp_all
    show ?thesis
      by (simp only: execute_def at sf bind_res_simps Let_def assms(3) [symmetric] st0_def [symmetric] cold)
  qed
  show ?thesis
  proof (cases "can_lock cfg i (self st0) (rows st0) (cold_ops txn)")
    case True
    with L obtain st1 st2 where s: "lock_ops cfg (ORIG_MODE cfg) i st0 (cold_ops txn) [] = Inr (Some [0..<length (live_ops (cold_ops txn))], st1)"
      "apply_ops None st1 (cold_ops txn) [0..<length (live_ops (cold_ops txn))] = Inr (True, st2)" "frame st0 st2"
      "\<And>st3. same_core st2 st3 \<Longrightarrow> \<exists>st'. commit cfg st3 = Inr (COMMIT, st') \<and> frame st3 st' \<and> idle ts st' \<and>
         rows st' = apply_txn None (self st0) (live_ops (cold_ops txn)) (rows st0)" by auto
    obtain st3 where st3: "(if do_accel txn then atomic cfg en st2 ?arg else ok st2) = Inr st3" "same_core st2 st3" "my_txns st3 = my_txns st2"
      "n_commits (exec st3) = n_commits (exec st2)" "n_aborts (exec st3) = n_aborts (exec st2)" "leftover_txns (exec st3) = leftover_txns (exec st2)"
      "send_queue st3 = send_queue st2"
      using assms(6) frame_more [OF s(3)] st0(5,6) by (cases "do_accel txn") (auto simp: atomic_def upd_exec_def same_core_def)
    let ?st4 = "upd_exec (\<lambda>x. x\<lparr>n_commits := n_commits x + 1\<rparr>) st3"
    have "same_core st2 ?st4" using st3(2) by (simp add: same_core_def upd_exec_def)
    then obtain st' where st': "commit cfg ?st4 = Inr (COMMIT, st')" "frame ?st4 st'" "idle ts st'"
      "rows st' = apply_txn None (self st0) (live_ops (cold_ops txn)) (rows st0)" using s(4) by blast
    have "execute cfg en st e = Inr (COMMIT, st')" using s(1,2) st3(1) st'(1) by (simp add: unf)
    moreover have "counted COMMIT st st'"
      using frame_counts [OF st'(2)] frame_counts [OF s(3)] frame_sel(6) [OF st'(2)] frame_sel(6) [OF s(3)] st3 st0
      by (simp add: counted_def upd_exec_def)
    moreover have "self st' = self st" "kvs (exec st') = kvs (exec st)" "my_txns st' = (my_txns st)[e := ?arg]" "length (nodes st') = length (nodes st)"
      using frame_sel [OF st'(2)] frame_sel [OF s(3)] st3(2,3) st0(4) c by (simp_all add: upd_exec_def same_core_def)
    ultimately show ?thesis using True st'(3,4) c by auto
  next
    case False
    with L obtain st1 where s: "lock_ops cfg (ORIG_MODE cfg) i st0 (cold_ops txn) [] = Inr (None, st1)" "frame st0 st1"
      "\<And>st3. same_core st1 st3 \<Longrightarrow> \<exists>st'. rollback cfg st3 = Inr (ROLLBACK, st') \<and> frame st3 st' \<and> idle ts st' \<and> rows st' = rows st0" by auto
    let ?st3 = "upd_exec (\<lambda>x. x\<lparr>n_aborts := n_aborts x + 1\<rparr>) st1"
    have "same_core st1 ?st3" by (simp add: same_core_def upd_exec_def)
    then obtain st' where st': "rollback cfg ?st3 = Inr (ROLLBACK, st')" "frame ?st3 st'" "idle ts st'" "rows st' = rows st0" using s(3) by blast
    have "execute cfg en st e = Inr (ROLLBACK, st')" using s(1) st'(1) by (simp add: unf abort_txn_def)
    moreover have "counted ROLLBACK st st'"
      using frame_counts [OF st'(2)] frame_counts [OF s(2)] frame_sel(6) [OF st'(2)] frame_sel(6) [OF s(2)] st0
      by (simp add: counted_def upd_exec_def)
    moreover have "self st' = self st" "kvs (exec st') = kvs (exec st)" "my_txns st' = (my_txns st)[e := ?arg]" "length (nodes st') = length (nodes st)"
      using frame_sel [OF st'(2)] frame_sel [OF s(2)] st0(4) c by (simp_all add: upd_exec_def)
    ultimately show ?thesis using False st'(3,4) c by auto
  qed
qed

text \<open>
  C6. Host transactions are atomic. On such a cluster \<open>execute\<close> returns, commits exactly
  when every lock of its cold operations can be granted in turn, and then has the effect of the
  operations applied one after the other (the stamps of the rows stay); otherwise every row is
  as it was. The worker holds no lock afterwards, and one of the two counters has gone up by
  one. The packet of a transaction with hot operations can be built when \<open>make_txn\<close>
  accepts it.
\<close>

theorem execute_atomic:
  assumes "e < length (my_txns st)" "txn = my_txns st ! e" "i = (txn_id txn)\<lparr>valid := False\<rparr>" "ready ts st txn i"
    and "ORIG_MODE cfg \<or> (\<forall>op \<in> set (cold_ops txn). op_mode op \<noteq> INVALID)"
    and "do_accel txn \<Longrightarrow> \<exists>pkt. make_txn cfg (sys_net st) (sys_layout st) (txn\<lparr>txn_id := i\<rparr>) (raw_buf en) = Inr pkt"
  shows "\<exists>rc st'. execute cfg en st e = Inr (rc, st') \<and> idle ts st' \<and>
    (rc = COMMIT \<longleftrightarrow> can_lock cfg i (self st) (rows st) (cold_ops txn)) \<and>
    rows st' = (if rc = COMMIT then apply_txn None (self st) (live_ops (cold_ops txn)) (rows st) else rows st) \<and>
    n_commits (exec st') = n_commits (exec st) + (if rc = COMMIT then 1 else 0) \<and>
    n_aborts (exec st') = n_aborts (exec st) + (if rc = COMMIT then 0 else 1)"
proof -
  obtain rc st' where "execute cfg en st e = Inr (rc, st')" "idle ts st'" "counted rc st st'"
    "rc = COMMIT \<longleftrightarrow> can_lock cfg i (self st) (rows st) (cold_ops txn)"
    "rows st' = (if rc = COMMIT then apply_txn None (self st) (live_ops (cold_ops txn)) (rows st) else rows st)"
    using execute_ok [OF assms(1-5), of en] assms(6) by blast
  then show ?thesis unfolding counted_def by blast
qed

section \<open>A cluster of two nodes\<close>

definition demo_node :: "nat \<Rightarrow> node" where
  "demo_node n = \<lparr>comm_id = word_of_nat n, comm_nodes = 2, tables = [txn_demo_table], table_names = Map.empty, next_id = 0,
     open_futures = Map.empty, futures = (\<lambda>_. []), put_counts = [0], inited = [False, False], received = 0\<rparr>"

definition demo_sys :: "DeclusteredLayout \<Rightarrow> Txn list \<Rightarrow> sys" where
  "demo_sys d txns = \<lparr>nodes = [demo_node 0, demo_node 1], self = 0, send_queue = hot_send_q_mk 3, pkt_bufs = (\<lambda>_. switch_demo_pkt),
     exec = TxnExecutor_mk 0 0 0, my_txns = txns, sys_layout = d,
     sys_net = \<lparr>switch_mac = [], node_mac = [], p4db_ether_type = 1\<rparr>\<rparr>"

lemma demo_rows: "in_range 80 (nodes (demo_sys d txns)) s \<Longrightarrow> rows (demo_sys d txns) s = Row_mk \<lparr>kv_id = 0, kv_value = 0\<rparr>"
  by (cases s; cases "fst s") (auto simp: in_range_def nrow_def demo_sys_def demo_node_def TxnExecutor_mk_def txn_demo_table_def)

lemma demo_idle: "idle 80 (demo_sys d txns)"
  by (simp add: idle_def exec_ok_def nodes_ok_def node_ok_def demo_sys_def demo_node_def TxnExecutor_mk_def Undolog_mk_def
      txn_demo_table_def All_less_Suc numeral_2_eq_2)

lemma demo_rows_ok: "rows_ok 80 i (demo_sys d txns)"
proof -
  have "row_wf (Row_mk t)" "unat (owner_cnt (Row_mk t)) < 2 ^ 31" "in_order (Row_mk t) i" for t
    by (simp_all add: Row_mk_def row_wf_def in_order_def TxnId_mk_def)
  then show ?thesis unfolding rows_ok_def using demo_rows by metis
qed

text \<open>A transaction that writes a row of its own node and one of the other.\<close>

definition demo_op1 :: OP where
  "demo_op1 = \<lparr>op_id = 1, loc_info = \<lparr>is_local = True, target = 0\<rparr>, op_mode = WRITE, op_value = 7\<rparr>"

definition demo_op2 :: OP where
  "demo_op2 = \<lparr>op_id = 2, loc_info = \<lparr>is_local = False, target = 1\<rparr>, op_mode = WRITE, op_value = 9\<rparr>"

definition demo_ops :: "OP list" where
  "demo_ops = demo_op1 # demo_op2 # replicate 6 OP_zero"

lemma demo_op_sel:
  "op_mode demo_op1 = WRITE" "op_mode demo_op2 = WRITE" "op_mode OP_zero = INVALID" "op_value demo_op1 = 7" "op_value demo_op2 = 9"
  "place 0 demo_op1 = (0, 1)" "place 0 demo_op2 = (1, 2)" "live_ops demo_ops = [demo_op1, demo_op2]"
  by (simp_all add: demo_ops_def demo_op1_def demo_op2_def OP_zero_def live_ops_def place_def node_u32_def)

lemma demo_ready:
  assumes "cold_ops txn = demo_ops"
  shows "ready 80 (demo_sys d txns) txn i"
proof -
  have "op_fits 80 (demo_sys d txns) op" if "op \<in> set demo_ops" "op_mode op \<noteq> INVALID" for op
    using that by (auto simp: demo_ops_def demo_op1_def demo_op2_def OP_zero_def op_fits_def demo_sys_def node_u32_def)
  moreover have "length demo_ops \<le> N_OPS" by (simp add: demo_ops_def N_OPS_def)
  ultimately show ?thesis unfolding ready_def assms using demo_idle demo_rows_ok live_ops_set by blast
qed

lemma demo_self: "self (demo_sys d txns) = 0" "my_txns (demo_sys d txns) = txns" "send_queue (demo_sys d txns) = hot_send_q_mk 3"
  "mb_num (exec (demo_sys d txns)) = 1" "ex_tid (exec (demo_sys d txns)) = 0" "kvs (exec (demo_sys d txns)) = 0"
  by (simp_all add: demo_sys_def TxnExecutor_mk_def)

lemma demo_can_lock:
  assumes "\<not> valid i \<or> mini_batch_id i = 1"
  shows "can_lock cfg i 0 (rows (demo_sys d txns)) demo_ops"
proof -
  have r: "rows (demo_sys d txns) (0, 1) = Row_mk \<lparr>kv_id = 0, kv_value = 0\<rparr>" "rows (demo_sys d txns) (1, 2) = Row_mk \<lparr>kv_id = 0, kv_value = 0\<rparr>"
    by (rule demo_rows, simp add: in_range_def demo_sys_def)+
  have g: "grants cfg (Row_mk t) WRITE i" for t
    using assms by (auto simp: grants_def is_compatible_def Row_mk_def mb_allow_lock_def TxnId_mk_def)
  have "can_lock cfg i 0 R (replicate (Suc n) OP_zero)" for R n by (simp add: demo_op_sel)
  then have "can_lock cfg i 0 R (replicate 6 OP_zero)" for R by (metis numeral_eq_Suc)
  then show ?thesis unfolding demo_ops_def using g r by (simp add: demo_op_sel del: One_nat_def)
qed

definition demo_txn :: Txn where
  "demo_txn = (Txn_mk 1 demo_ops)\<lparr>txn_id := TxnId_mk True 0 1\<rparr>"

theorem my_execute_atomic_witness:
  "\<exists>d buf st'. DeclusteredLayout_mk layout_demo_cfg layout_demo_freq = Inr d \<and>
     my_execute layout_demo_cfg (demo_sys d [demo_txn]) 0 = Inr (COMMIT, buf, st') \<and> idle 80 st' \<and>
     kv_value (r_tuple (rows st' (0, 1))) = 7 \<and> kv_value (r_tuple (rows st' (1, 2))) = 9 \<and>
     send_q_holds (send_queue st') [(1, 0, 0)]"
proof -
  obtain d where d: "DeclusteredLayout_mk layout_demo_cfg layout_demo_freq = Inr d" by (rule layout_demo_mk)
  let ?st = "demo_sys d [demo_txn]" and ?i = "(txn_id demo_txn)\<lparr>valid := True\<rparr>"
  have c: "cold_ops demo_txn = demo_ops" by (simp add: demo_txn_def Txn_mk_def)
  have h: "0 < length (my_txns ?st)" "demo_txn = my_txns ?st ! 0" "unat (mini_batch_id ?i) = mb_num (exec ?st)"
    "send_q_holds (send_queue ?st) []" "Suc (length []) < send_q_capacity (send_queue ?st)" "\<not> valid ?i \<or> mini_batch_id ?i = 1"
    using send_q_holds_mk [of 3] by (simp_all add: demo_self demo_txn_def TxnId_mk_def hot_send_q_mk_def)
  from my_execute_atomic [OF h(1,2) refl demo_ready [OF c] h(3-5), of layout_demo_cfg] obtain rc buf st' where
    x: "my_execute layout_demo_cfg ?st 0 = Inr (rc, buf, st')" "idle 80 st'"
    "rc = COMMIT" "rows st' = apply_txn (Some ?i) 0 (live_ops demo_ops) (rows ?st)" "send_q_holds (send_queue st') [(1, 0, 0)]"
    using demo_can_lock [OF h(6)] unfolding c demo_self by auto
  have "kv_value (r_tuple (rows st' (0, 1))) = 7" "kv_value (r_tuple (rows st' (1, 2))) = 9"
    unfolding x(4) by (simp_all add: demo_op_sel touch_def write_row_def)
  with d x show ?thesis by auto
qed


text \<open>The same writes in a transaction that has no hot operation.\<close>

definition demo_cold_ops :: "OP list" where
  "demo_cold_ops = demo_op1 # demo_op2 # replicate 6 (demo_op1\<lparr>op_id := 3, op_mode := READ\<rparr>)"

lemma demo_cold_fits:
  "\<forall>op \<in> set demo_cold_ops. op_mode op \<noteq> INVALID" "\<forall>op \<in> set demo_cold_ops. op_fits 80 (demo_sys d txns) op"
  "length demo_cold_ops = N_OPS" "live_ops demo_cold_ops = demo_cold_ops"
  by (simp_all add: demo_cold_ops_def demo_op1_def demo_op2_def op_fits_def demo_sys_def node_u32_def N_OPS_def live_ops_def takeWhile_all)

definition demo_en :: surroundings where
  "demo_en = \<lparr>now_ns = 5, reply_lost = False, raw_buf = switch_demo_pkt\<rparr>"

theorem execute_atomic_witness:
  "\<exists>d rc st'. DeclusteredLayout_mk layout_demo_cfg layout_demo_freq = Inr d \<and>
     execute layout_demo_cfg demo_en (demo_sys d [Txn_mk 1 demo_cold_ops]) 0 = Inr (rc, st') \<and> idle 80 st' \<and>
     n_commits (exec st') + n_aborts (exec st') = 1"
proof -
  obtain d where d: "DeclusteredLayout_mk layout_demo_cfg layout_demo_freq = Inr d" by (rule layout_demo_mk)
  let ?txn = "Txn_mk 1 demo_cold_ops"
  let ?st = "demo_sys d [?txn]" and ?i = "(txn_id ?txn)\<lparr>valid := False\<rparr>"
  have c: "cold_ops ?txn = demo_cold_ops" "\<not> do_accel ?txn" by (simp_all add: Txn_mk_def)
  have r: "ready 80 ?st ?txn ?i"
    unfolding ready_def c using demo_cold_fits demo_idle demo_rows_ok by (simp add: le_refl)
  have n: "n_commits (exec ?st) = 0" "n_aborts (exec ?st) = 0" by (simp_all add: demo_sys_def TxnExecutor_mk_def)
  have "0 < length (my_txns ?st)" "?txn = my_txns ?st ! 0" by (simp_all add: demo_self)
  from execute_atomic [OF this refl r, of layout_demo_cfg demo_en] c demo_cold_fits(1) obtain rc st' where
    "execute layout_demo_cfg demo_en ?st 0 = Inr (rc, st')" "idle 80 st'"
    "n_commits (exec st') = n_commits (exec ?st) + (if rc = COMMIT then 1 else 0)"
    "n_aborts (exec st') = n_aborts (exec ?st) + (if rc = COMMIT then 0 else 1)" by auto
  with d n show ?thesis by (intro exI [of _ d] exI [of _ rc] exI [of _ st']) simp
qed

end
