(* ===== verification/P4_Leftover.thy ===== *)
theory P4_Leftover
  imports P4_Commit
begin

text \<open>
  The queue of a worker's leftover transactions: what the fallback of \<open>run_txn\<close> makes of an
  accelerated transaction (\<open>to_cold\<close>), which transactions \<open>execute\<close> commits on a quiet cluster, and
  when the loop of \<open>run_leftover_txns\<close> ends (\<open>src/src/ee/executor.cpp\<close>).
\<close>

section \<open>The fallback\<close>

lemma restore_cold_ok:
  assumes "m < length cold" "length cold \<le> 2 ^ 32" "length hs \<le> m"
  shows "restore_cold cold (word_of_nat m) hs =
    Inr (take (Suc m - length hs) cold @ rev (map fst hs) @ drop (Suc m) cold, word_of_nat (m - length hs))"
  using assms
proof (induction hs arbitrary: cold m)
  case (Cons h hs)
  have u: "unat (word_of_nat m :: u64) = m" using Cons.prems(1,2) by (simp add: unat_of_nat)
  have m: "0 < m" using Cons.prems(3) by simp
  then have p: "(word_of_nat m :: u64) - 1 = word_of_nat (m - 1)" by (simp add: of_nat_diff)
  have IH: "restore_cold (cold[m := fst h]) (word_of_nat (m - 1)) hs =
    Inr (take (Suc (m - 1) - length hs) (cold[m := fst h]) @ rev (map fst hs) @ drop (Suc (m - 1)) (cold[m := fst h]),
      word_of_nat (m - 1 - length hs))"
    by (rule Cons.IH) (use Cons.prems in auto)
  have "drop (Suc (m - 1)) (cold[m := fst h]) = fst h # drop (Suc m) cold"
    using m Cons.prems(1) by (simp add: drop_update_swap Cons_nth_drop_Suc [symmetric])
  moreover have "take (Suc (m - 1) - length hs) (cold[m := fst h]) = take (Suc m - length (h # hs)) cold"
    using m by simp
  ultimately show ?case using IH Cons.prems u p by (simp add: at_res_lt)
qed simp

text \<open>
  What \<open>to_cold\<close> does in general: the operations of the first pass come back, but the first ones of
  them a second time in place of those of the second pass.
\<close>

lemma to_cold_ok:
  assumes "length (cold_ops t) = N_OPS" "length (live_hot (hot_ops_pass2 t)) \<le> length (hot_ops_pass1 t)" "live_ops (cold_ops t) \<noteq> []"
    and "length (live_ops (cold_ops t)) + length (live_hot (hot_ops_pass1 t)) + length (live_hot (hot_ops_pass2 t)) = N_OPS"
  shows "to_cold t = Inr (t\<lparr>cold_ops := live_ops (cold_ops t) @
      rev (map fst (live_hot (hot_ops_pass1 t) @ take (length (live_hot (hot_ops_pass2 t))) (hot_ops_pass1 t))),
      do_accel := False\<rparr>)"
proof -
  let ?c = "cold_ops t" and ?h1 = "live_hot (hot_ops_pass1 t)" and ?n2 = "length (live_hot (hot_ops_pass2 t))"
  let ?nc = "length (live_ops (cold_ops t))" and ?h2 = "take (length (live_hot (hot_ops_pass2 t))) (hot_ops_pass1 t)"
  have nc: "0 < ?nc" using assms(3) by simp
  have h1: "length ?h1 < N_OPS" using nc assms(4) by linarith
  have N: "N_OPS = 8" by (simp add: N_OPS_def)
  have l2: "length ?h2 = ?n2" using assms(2) by simp
  have take: "take ?nc ?c = live_ops ?c" by (simp add: live_ops_def takeWhile_eq_take [symmetric])
  let ?c1 = "take (N_OPS - length ?h1) ?c @ rev (map fst ?h1)"
  have r1: "restore_cold ?c (word_of_nat (N_OPS - 1)) ?h1 = Inr (?c1, word_of_nat (N_OPS - 1 - length ?h1))"
    by (subst restore_cold_ok) (use assms(1) h1 in \<open>simp_all add: N\<close>)
  let ?m = "N_OPS - 1 - length ?h1"
  have lc1: "length ?c1 = N_OPS" using assms(1,4) by simp
  have S: "Suc ?m = N_OPS - length ?h1" using h1 by simp
  have r2: "restore_cold ?c1 (word_of_nat ?m) ?h2 = Inr (live_ops ?c @ rev (map fst (?h1 @ ?h2)), word_of_nat (?nc - 1))"
  proof (subst restore_cold_ok)
    show "?m < length ?c1" "length ?c1 \<le> 2 ^ 32" using lc1 by (simp_all add: N)
    show "length ?h2 \<le> ?m" using assms(4) nc l2 by linarith
    have "Suc ?m - length ?h2 = ?nc" using assms(4) l2 S by linarith
    moreover have "?nc \<le> N_OPS - length ?h1" using assms(4) by linarith
    then have "take ?nc ?c1 = take ?nc ?c" using assms(1) by simp
    ultimately have "take (Suc ?m - length ?h2) ?c1 = live_ops ?c" using take by (simp only:)
    moreover have "drop (Suc ?m) ?c1 = rev (map fst ?h1)" unfolding S using assms(1) by simp
    moreover have "?m - length ?h2 = ?nc - 1" using assms(4) l2 nc by linarith
    ultimately show "Inr (take (Suc ?m - length ?h2) ?c1 @ rev (map fst ?h2) @ drop (Suc ?m) ?c1, word_of_nat (?m - length ?h2)) =
      Inr (live_ops ?c @ rev (map fst (?h1 @ ?h2)), word_of_nat (?nc - 1))" by simp
  qed
  have u: "unat (word_of_nat (?nc - 1) :: u64) = ?nc - 1"
    using assms(4) by (simp add: unat_of_nat N)
  have "op_mode (live_ops ?c ! (?nc - 1)) \<noteq> INVALID"
    using nc nth_mem [of "?nc - 1" "live_ops ?c"] set_takeWhileD [of _ _ ?c] unfolding live_ops_def by fastforce
  then have "op_mode ((live_ops ?c @ rev (map fst (?h1 @ ?h2))) ! (?nc - 1)) \<noteq> INVALID" using nc by (simp add: nth_append)
  moreover have "?nc - 1 < length (live_ops ?c @ rev (map fst (?h1 @ ?h2)))" using nc unfolding length_append by linarith
  ultimately show ?thesis
    using r1 r2 u by (simp only: to_cold_def bind_res_simps prod.case at_res_lt assert_res_simps not_False_eq_True simp_thms)
qed

text \<open>
  C11. The fallback is the inverse of the split. A transaction that was split for the switch in
  a single pass and keeps a cold operation is turned back by \<open>to_cold\<close> into a host transaction
  with exactly the operations it was loaded with, and is no longer accelerated.
\<close>

theorem fallback_inverts_split:
  assumes "length ops = N_OPS" "\<forall>op \<in> set ops. op_mode op \<noteq> INVALID" "layout_wf d"
    "partition_size (part_info tbl) \<noteq> 0" "\<not> ORIG_MODE cfg"
    and "extract_hot_cold cfg tbl (Txn_mk lid ops) d = Inr (t, d')"
    and "live_hot (hot_ops_pass2 t) = []" "live_ops (cold_ops t) \<noteq> []"
  shows "\<exists>t'. to_cold t = Inr t' \<and> \<not> do_accel t' \<and> live_ops (cold_ops t') = cold_ops t' \<and>
    mset (cold_ops t') = mset (map (op_fill (part_info tbl)) ops)"
proof -
  let ?all = "map (op_fill (part_info tbl)) ops" and ?h1 = "live_hot (hot_ops_pass1 t)"
  have sp: "split_spec cfg d ?all t" "length (cold_ops t) = N_OPS"
    using extract_ok [OF assms(1,2) layout_wf_regs [OF assms(3)] assms(4,5), of lid] assms(6) by auto
  then have ms: "mset (live_ops (cold_ops t) @ map fst ?h1) = mset ?all" using assms(7) by (simp add: split_spec_def Let_def)
  from arg_cong [OF this, of size] assms(1) have len: "length (live_ops (cold_ops t)) + length ?h1 = N_OPS" by simp
  let ?c = "live_ops (cold_ops t) @ rev (map fst ?h1)"
  have eq: "to_cold t = Inr (t\<lparr>cold_ops := ?c, do_accel := False\<rparr>)"
    using to_cold_ok [OF sp(2) _ assms(8)] len assms(7) by simp
  have m: "mset ?c = mset ?all" using ms by simp
  then have "set ?c = set ?all" by (rule mset_eq_setD)
  then have "\<forall>op \<in> set ?c. op_mode op \<noteq> INVALID" using assms(2) by auto
  then have "live_ops ?c = ?c" unfolding live_ops_def by (rule takeWhile_all)
  with eq m show ?thesis by auto
qed

theorem fallback_inverts_split_witness:
  "\<exists>d t d' t'. DeclusteredLayout_mk layout_demo_cfg sched_demo_freq = Inr d \<and>
     extract_hot_cold layout_demo_cfg txn_demo_table (Txn_mk 1 switch_demo_ops) d = Inr (t, d') \<and> do_accel t \<and>
     to_cold t = Inr t' \<and> mset (cold_ops t') = mset (map (op_fill (part_info txn_demo_table)) switch_demo_ops)"
proof -
  let ?c = layout_demo_cfg
  obtain d where d: "DeclusteredLayout_mk ?c sched_demo_freq = Inr d" "layout_wf d" "\<not> is_hot ?c d 0"
    by (rule sched_demo_layout)
  have o: "length switch_demo_ops = N_OPS" "\<forall>op \<in> set switch_demo_ops. op_mode op \<noteq> INVALID"
    "partition_size (part_info txn_demo_table) \<noteq> 0" "\<not> ORIG_MODE ?c" "MAX_PASSES_ACCEL ?c \<noteq> 2"
    by (simp_all add: switch_demo_ops_def txn_demo_table_def layout_demo_cfg_def default_build_def N_OPS_def)
  let ?all = "map (op_fill (part_info txn_demo_table)) switch_demo_ops"
  obtain t d' where t: "extract_hot_cold ?c txn_demo_table (Txn_mk 1 switch_demo_ops) d = Inr (t, d')" "split_spec ?c d ?all t"
    "live_hot (hot_ops_pass2 t) = []"
    using extract_ok [OF o(1,2) layout_wf_regs [OF d(2)] o(3,4), of 1] o(5) by metis
  have z: "op_id (op_fill p (OP_zero\<lparr>op_mode := READ\<rparr>)) = 0" for p by (simp add: op_fill_def OP_zero_def)
  then have "filter (\<lambda>op. is_hot ?c d (op_id op)) (map (op_fill p) (replicate 7 (OP_zero\<lparr>op_mode := READ\<rparr>))) = []" for p
    using d(3) by (simp only: map_replicate filter_replicate) simp
  then have "distinct (op_regs ?c d ?all)" by (simp add: op_regs_def switch_demo_ops_def)
  then have acc: "do_accel t" "live_ops (cold_ops t) = filter (\<lambda>op. \<not> is_hot ?c d (op_id op)) ?all"
    using t(2) by (simp_all add: split_spec_def Let_def)
  have "op_fill (part_info txn_demo_table) (OP_zero\<lparr>op_mode := READ\<rparr>) \<in> set (live_ops (cold_ops t))"
    unfolding acc(2) using z d(3) by (simp add: switch_demo_ops_def)
  then have "live_ops (cold_ops t) \<noteq> []" by auto
  from fallback_inverts_split [OF o(1,2) d(2) o(3,4) t(1,3) this] t(1) acc(1) d(1) show ?thesis by blast
qed

section \<open>Transactions a quiet cluster commits\<close>

text \<open>No two operations of a transaction need one row for writing.\<close>

primrec conflict_free :: "nat \<Rightarrow> OP list \<Rightarrow> bool" where
  "conflict_free sf [] = True"
| "conflict_free sf (op # ops) =
     (list_all (\<lambda>op'. place sf op' = place sf op \<longrightarrow> op_mode op = READ \<and> op_mode op' = READ) ops \<and> conflict_free sf ops)"

lemma can_lock_quiet:
  assumes "\<not> valid i" "\<forall>op \<in> set (live_ops ops). lock_type (R (place sf op)) \<noteq> WRITE"
  shows "can_lock cfg i sf R ops \<longleftrightarrow> conflict_free sf (live_ops ops) \<and>
    (\<forall>op \<in> set (live_ops ops). lock_type (R (place sf op)) = READ \<longrightarrow> op_mode op = READ)"
  using assms(2)
proof (induction ops arbitrary: R)
  case (Cons op ops)
  show ?case
  proof (cases "op_mode op = INVALID")
    case False
    let ?R = "R(place sf op := grant (R (place sf op)) (op_mode op))"
    have live: "live_ops (op # ops) = op # live_ops ops" using False by (simp add: live_ops_def)
    have g: "grants cfg (R (place sf op)) (op_mode op) i \<longleftrightarrow> (lock_type (R (place sf op)) = READ \<longrightarrow> op_mode op = READ)"
      using assms(1) Cons.prems False unfolding live
      by (cases "op_mode op"; cases "lock_type (R (place sf op))") (simp_all add: grants_def is_compatible_def mb_allow_lock_def)
    consider (r) "op_mode op = READ" | (w) "op_mode op = WRITE" using False by (cases "op_mode op") simp_all
    then show ?thesis
    proof cases
      case r
      have "\<forall>op' \<in> set (live_ops ops). lock_type (?R (place sf op')) \<noteq> WRITE" using Cons.prems r by (simp add: live)
      note IH = Cons.IH [OF this]
      have "can_lock cfg i sf R (op # ops) \<longleftrightarrow> (lock_type (R (place sf op)) = READ \<longrightarrow> op_mode op = READ) \<and> can_lock cfg i sf ?R ops"
        using False g by (simp del: fun_upd_apply)
      then show ?thesis unfolding live IH using r by (auto simp: list_all_iff)
    next
      case w
      have wr: "can_lock cfg i sf ?R ops \<longleftrightarrow> (\<forall>op' \<in> set (live_ops ops). place sf op' \<noteq> place sf op) \<and> can_lock cfg i sf R ops"
      proof -
        have *: "can_lock cfg i sf (R'(s := r)) ops' \<longleftrightarrow> (\<forall>op' \<in> set (live_ops ops'). place sf op' \<noteq> s) \<and> can_lock cfg i sf R' ops'"
          if "lock_type r = WRITE" for R' s r ops'
          using that
        proof (induction ops' arbitrary: R')
          case (Cons o' ops')
          show ?case
          proof (cases "op_mode o' = INVALID")
            case False
            show ?thesis
            proof (cases "place sf o' = s")
              case True
              with False Cons.prems show ?thesis by (simp add: grants_def is_compatible_def live_ops_def)
            next
              case ne: False
              then have "(R'(s := r))(place sf o' := x) = (R'(place sf o' := x))(s := r)" for x by (simp add: fun_upd_twist)
              then show ?thesis using Cons ne False by (auto simp: live_ops_def simp del: fun_upd_apply simp add: fun_upd_other)
            qed
          qed (simp add: live_ops_def)
        qed (simp add: live_ops_def)
        show ?thesis by (rule *) (simp add: w)
      qed
      have "\<forall>op' \<in> set (live_ops ops). lock_type (R (place sf op')) \<noteq> WRITE" using Cons.prems by (simp add: live)
      note IH = Cons.IH [OF this]
      have "can_lock cfg i sf R (op # ops) \<longleftrightarrow> (lock_type (R (place sf op)) = READ \<longrightarrow> op_mode op = READ) \<and> can_lock cfg i sf ?R ops"
        using False g by (simp del: fun_upd_apply)
      then show ?thesis unfolding live wr IH using w by (auto simp: list_all_iff)
    qed
  qed (simp add: live_ops_def)
qed (simp add: live_ops_def)

text \<open>A cluster no transaction holds a lock of, and the operations a leftover transaction runs.\<close>

definition quiet :: "nat \<Rightarrow> sys \<Rightarrow> bool" where
  "quiet ts st \<longleftrightarrow> (\<forall>s. in_range ts (nodes st) s \<longrightarrow> lock_type (rows st s) = INVALID \<and> owner_cnt (rows st s) = 0)"

abbreviation ops_of :: "sys \<Rightarrow> nat \<Rightarrow> OP list" where
  "ops_of st e \<equiv> live_ops (cold_ops (my_txns st ! e))"

definition runnable :: "build_cfg \<Rightarrow> nat \<Rightarrow> sys \<Rightarrow> nat \<Rightarrow> bool" where
  "runnable cfg ts st e \<longleftrightarrow> e < length (my_txns st) \<and> \<not> do_accel (my_txns st ! e) \<and> length (cold_ops (my_txns st ! e)) \<le> N_OPS \<and>
     (\<forall>op \<in> set (cold_ops (my_txns st ! e)). op_mode op \<noteq> INVALID \<longrightarrow> op_fits ts st op) \<and>
     (ORIG_MODE cfg \<or> (\<forall>op \<in> set (cold_ops (my_txns st ! e)). op_mode op \<noteq> INVALID))"

lemma place_in_range:
  "idle ts st \<Longrightarrow> op_fits ts st op \<Longrightarrow> in_range ts (nodes st) (place (self st) op)"
  by (auto simp: idle_def exec_ok_def nodes_ok_def op_fits_def in_range_def place_def)

lemma quiet_execute:
  assumes "idle ts st" "quiet ts st" "runnable cfg ts st e"
  shows "\<exists>rc st'. execute cfg en st e = Inr (rc, st') \<and> idle ts st' \<and> counted rc st st' \<and>
    (rc = COMMIT \<longleftrightarrow> conflict_free (self st) (ops_of st e)) \<and>
    rows st' = (if rc = COMMIT then apply_txn None (self st) (ops_of st e) (rows st) else rows st) \<and>
    my_txns st' = (my_txns st)[e := (my_txns st ! e)\<lparr>txn_id := (txn_id (my_txns st ! e))\<lparr>valid := False\<rparr>\<rparr>] \<and>
    self st' = self st \<and> length (nodes st') = length (nodes st)"
proof -
  let ?txn = "my_txns st ! e" and ?i = "(txn_id (my_txns st ! e))\<lparr>valid := False\<rparr>"
  have r: "e < length (my_txns st)" "\<not> do_accel ?txn" "length (cold_ops ?txn) \<le> N_OPS"
    "\<forall>op \<in> set (cold_ops ?txn). op_mode op \<noteq> INVALID \<longrightarrow> op_fits ts st op"
    "ORIG_MODE cfg \<or> (\<forall>op \<in> set (cold_ops ?txn). op_mode op \<noteq> INVALID)"
    using assms(3) by (simp_all add: runnable_def)
  have ro: "rows_ok ts ?i st"
    using assms(2) unfolding rows_ok_def quiet_def by (auto simp: row_wf_def in_order_def)
  have rd: "ready ts st ?txn ?i" unfolding ready_def using assms(1) ro r(3,4) live_ops_set by blast
  have "lock_type (rows st (place (self st) op)) = INVALID" if "op \<in> set (live_ops (cold_ops ?txn))" for op
  proof -
    have "op \<in> set (cold_ops ?txn)" "op_mode op \<noteq> INVALID" using that set_takeWhileD unfolding live_ops_def by fastforce+
    with r(4) have "in_range ts (nodes st) (place (self st) op)" using place_in_range [OF assms(1)] by blast
    with assms(2) show ?thesis unfolding quiet_def by blast
  qed
  then have "can_lock cfg ?i (self st) (rows st) (cold_ops ?txn) \<longleftrightarrow> conflict_free (self st) (ops_of st e)"
    by (subst can_lock_quiet) auto
  with execute_ok [OF r(1) refl refl rd r(5), of en] r(2) show ?thesis by auto
qed

section \<open>The loop over the leftover transactions\<close>

definition loop_inv :: "build_cfg \<Rightarrow> nat \<Rightarrow> sys \<Rightarrow> bool" where
  "loop_inv cfg ts st \<longleftrightarrow> idle ts st \<and> quiet ts st \<and> (\<forall>e \<in> set (leftover_txns (exec st)). runnable cfg ts st e)"

text \<open>What the loop never changes.\<close>

definition same_txns :: "sys \<Rightarrow> sys \<Rightarrow> bool" where
  "same_txns st st' \<longleftrightarrow> send_queue st' = send_queue st \<and> self st' = self st \<and> length (nodes st') = length (nodes st) \<and> length (my_txns st') = length (my_txns st) \<and>
     (\<forall>e < length (my_txns st). cold_ops (my_txns st' ! e) = cold_ops (my_txns st ! e) \<and> do_accel (my_txns st' ! e) = do_accel (my_txns st ! e))"

lemma runnable_same: "same_txns st st' \<Longrightarrow> runnable cfg ts st e \<Longrightarrow> runnable cfg ts st' e"
  by (auto simp: same_txns_def runnable_def op_fits_def)

lemma touch_locks [simp]:
  "lock_type (touch None op r) = lock_type r" "owner_cnt (touch None op r) = owner_cnt r"
  by (simp_all add: touch_def write_row_def)

lemma apply_txn_locks [simp]:
  "lock_type (apply_txn None sf ops R s) = lock_type (R s)" "owner_cnt (apply_txn None sf ops R s) = owner_cnt (R s)"
  by (induction ops arbitrary: R) simp_all

text \<open>One turn: the queue after it, the rows after it, and that the invariant is kept.\<close>

definition next_sys :: "RC \<Rightarrow> sys \<Rightarrow> sys" where
  "next_sys rc st = upd_exec (\<lambda>x. x\<lparr>leftover_txns :=
     drop 1 (leftover_txns (exec st)) @ (if rc = ROLLBACK then [hd (leftover_txns (exec st))] else [])\<rparr>) st"

lemma leftover_turn:
  assumes "loop_inv cfg ts st" "leftover_txns (exec st) = e # es"
  shows "\<exists>rc st1. execute cfg en st e = Inr (rc, st1) \<and> loop_inv cfg ts (next_sys rc st1) \<and> same_txns st (next_sys rc st1) \<and>
    (if conflict_free (self st) (ops_of st e)
     then leftover_txns (exec (next_sys rc st1)) = es \<and> rows (next_sys rc st1) = apply_txn None (self st) (ops_of st e) (rows st)
     else leftover_txns (exec (next_sys rc st1)) = es @ [e] \<and> rows (next_sys rc st1) = rows st)"
proof -
  have i: "idle ts st" "quiet ts st" and r: "\<forall>x \<in> set (e # es). runnable cfg ts st x" using assms by (simp_all add: loop_inv_def)
  from quiet_execute [OF i, of cfg e en] r obtain rc st1 where x: "execute cfg en st e = Inr (rc, st1)" "idle ts st1" "counted rc st st1"
    "rc = COMMIT \<longleftrightarrow> conflict_free (self st) (ops_of st e)"
    "rows st1 = (if rc = COMMIT then apply_txn None (self st) (ops_of st e) (rows st) else rows st)"
    "my_txns st1 = (my_txns st)[e := (my_txns st ! e)\<lparr>txn_id := (txn_id (my_txns st ! e))\<lparr>valid := False\<rparr>\<rparr>]"
    "self st1 = self st" "length (nodes st1) = length (nodes st)" by auto
  let ?st = "next_sys rc st1"
  have core: "same_core st1 ?st" by (simp add: same_core_def next_sys_def upd_exec_def)
  note c = core_sel [OF core]
  have lo: "leftover_txns (exec st1) = e # es" using x(3) assms(2) by (simp add: counted_def)
  have my: "my_txns ?st = my_txns st1" by (simp add: next_sys_def upd_exec_def)
  have nl: "leftover_txns (exec ?st) = es @ (if rc = ROLLBACK then [e] else [])" by (simp add: next_sys_def upd_exec_def lo)
  have "send_queue ?st = send_queue st" using x(3) by (simp add: next_sys_def upd_exec_def counted_def)
  then have same: "same_txns st ?st"
    using x(6-8) c(1,2) r by (simp add: same_txns_def my nth_list_update runnable_def)
  have "quiet ts ?st"
    unfolding quiet_def c(1-3)
  proof (intro allI impI)
    fix s assume "in_range ts (nodes st1) s"
    then have "in_range ts (nodes st) s" using x(8) by (simp add: in_range_def)
    with i(2) have "lock_type (rows st s) = INVALID" "owner_cnt (rows st s) = 0" unfolding quiet_def by blast+
    then show "lock_type (rows st1 s) = INVALID \<and> owner_cnt (rows st1 s) = 0" unfolding x(5) by simp
  qed
  moreover have "runnable cfg ts ?st y" if "y \<in> set (e # es)" for y using runnable_same [OF same] r that by blast
  ultimately have "loop_inv cfg ts ?st"
    using x(2) c(6) by (auto simp: loop_inv_def nl)
  moreover have "rc = ROLLBACK \<longleftrightarrow> rc \<noteq> COMMIT" by (cases rc) simp_all
  moreover have "rows ?st = rows st1" unfolding c(1-3) ..
  ultimately show ?thesis
    using x(1,4,5) same nl by (intro exI [of _ rc] exI [of _ st1] conjI) (simp_all split del: if_split, simp)
qed

lemma same_txns_ops:
  assumes "same_txns st st'" "runnable cfg ts st e"
  shows "ops_of st' e = ops_of st e" "self st' = self st"
  using assms by (auto simp: same_txns_def runnable_def)

lemma same_txns_trans: "same_txns a b \<Longrightarrow> same_txns b c \<Longrightarrow> same_txns a c"
  by (auto simp: same_txns_def)

abbreviation can_commit :: "sys \<Rightarrow> nat \<Rightarrow> bool" where
  "can_commit st e \<equiv> conflict_free (self st) (ops_of st e)"

lemma filter_same:
  assumes "same_txns st st'" "\<forall>e \<in> set es. runnable cfg ts st e"
  shows "filter (can_commit st') es = filter (can_commit st) es" "filter (\<lambda>e. \<not> can_commit st' e) es = filter (\<lambda>e. \<not> can_commit st e) es"
    "takeWhile (\<lambda>e. \<not> can_commit st' e) es = takeWhile (\<lambda>e. \<not> can_commit st e) es"
proof -
  have "can_commit st' e = can_commit st e" if "e \<in> set es" for e
    using same_txns_ops [OF assms(1), of cfg ts e] assms(2) that by simp
  then show "filter (can_commit st') es = filter (can_commit st) es" "filter (\<lambda>e. \<not> can_commit st' e) es = filter (\<lambda>e. \<not> can_commit st e) es"
    "takeWhile (\<lambda>e. \<not> can_commit st' e) es = takeWhile (\<lambda>e. \<not> can_commit st e) es"
    by (simp_all cong: filter_cong takeWhile_cong)
qed

text \<open>Too many transactions that conflict with themselves: the loop does not end.\<close>

lemma leftover_loop_diverges:
  assumes "leftover_loop cfg en bound n st = Some r" "loop_inv cfg ts st"
    and "bound < length (filter (\<lambda>e. \<not> can_commit st e) (leftover_txns (exec st)))"
  shows False
proof -
  have "loop_inv cfg ts st \<longrightarrow> \<not> bound < length (filter (\<lambda>e. \<not> can_commit st e) (leftover_txns (exec st)))"
  proof (rule leftover_loop.raw_induct [where P = "\<lambda>cfg en bound n st r. loop_inv cfg ts st \<longrightarrow>
      \<not> bound < length (filter (\<lambda>e. \<not> can_commit st e) (leftover_txns (exec st)))", OF _ assms(1)], intro impI notI)
    fix f :: "build_cfg \<Rightarrow> (nat \<Rightarrow> surroundings) \<Rightarrow> nat \<Rightarrow> nat \<Rightarrow> sys \<Rightarrow> sys result option" and cfg en bound n st r
    assume IH: "\<And>cfg en bound n st r. f cfg en bound n st = Some r \<Longrightarrow>
        loop_inv cfg ts st \<longrightarrow> \<not> bound < length (filter (\<lambda>e. \<not> can_commit st e) (leftover_txns (exec st)))"
      and body: "(if length (leftover_txns (exec st)) > bound then
        (case bind_res (entry_to_txn (my_txns st) (hd (leftover_txns (exec st)))) (\<lambda>_. execute cfg (en n) st (hd (leftover_txns (exec st)))) of
           Inl er \<Rightarrow> Some (Inl er)
         | Inr (rc, st) \<Rightarrow>
             (let e = hd (leftover_txns (exec st)); rest = drop 1 (leftover_txns (exec st)) in
              f cfg en bound (Suc n) (upd_exec (\<lambda>x. x\<lparr>leftover_txns := rest @ (if rc = ROLLBACK then [e] else [])\<rparr>) st)))
        else Some (Inr st)) = Some r"
      and inv: "loop_inv cfg ts st" and many: "bound < length (filter (\<lambda>e. \<not> can_commit st e) (leftover_txns (exec st)))"
    have lt: "bound < length (leftover_txns (exec st))" by (rule less_le_trans [OF many length_filter_le])
    then obtain e es where lo: "leftover_txns (exec st) = e # es" by (cases "leftover_txns (exec st)") simp_all
    from leftover_turn [OF inv lo, of "en n"] obtain rc st1 where x: "execute cfg (en n) st e = Inr (rc, st1)"
      "loop_inv cfg ts (next_sys rc st1)" "same_txns st (next_sys rc st1)"
      "leftover_txns (exec (next_sys rc st1)) = (if can_commit st e then es else es @ [e])" by (metis (no_types, lifting))
    have e: "e < length (my_txns st)" and r: "\<forall>y \<in> set (e # es). runnable cfg ts st y"
      using inv lo by (auto simp: loop_inv_def runnable_def)
    have "f cfg en bound (Suc n) (next_sys rc st1) = Some r"
    proof -
      have "entry_to_txn (my_txns st) e = Inr (my_txns st ! e)" using e by (simp add: entry_to_txn_def)
      then have "bind_res (entry_to_txn (my_txns st) (hd (leftover_txns (exec st)))) (\<lambda>_. execute cfg (en n) st (hd (leftover_txns (exec st)))) = Inr (rc, st1)"
        using lo x(1) by simp
      with body lt show ?thesis by (simp only: if_True sum.case prod.case Let_def next_sys_def)
    qed
    moreover have "bound < length (filter (\<lambda>e. \<not> can_commit (next_sys rc st1) e) (leftover_txns (exec (next_sys rc st1))))"
    proof -
      have "\<forall>y \<in> set (leftover_txns (exec (next_sys rc st1))). runnable cfg ts st y" using r x(4) by (auto split: if_splits)
      from filter_same(2) [OF x(3) this] have "filter (\<lambda>e. \<not> can_commit (next_sys rc st1) e) (leftover_txns (exec (next_sys rc st1))) =
        filter (\<lambda>e. \<not> can_commit st e) (if can_commit st e then es else es @ [e])" using x(4) by simp
      with many lo show ?thesis by (simp split: if_splits)
    qed
    ultimately show False using IH x(2) by blast
  qed
  with assms(2,3) show False by blast
qed

text \<open>Otherwise each pass through the queue commits a transaction, until the bound is reached.\<close>

definition commit_all :: "sys \<Rightarrow> nat list \<Rightarrow> (nat \<times> db_key \<Rightarrow> row) \<Rightarrow> nat \<times> db_key \<Rightarrow> row" where
  "commit_all st cs = fold (\<lambda>e. apply_txn None (self st) (ops_of st e)) cs"

definition queue_rank :: "sys \<Rightarrow> nat" where
  "queue_rank st = (let q = leftover_txns (exec st) in
     length (filter (can_commit st) q) * Suc (length q) + length (takeWhile (\<lambda>e. \<not> can_commit st e) q))"

lemma queue_rank_turn:
  assumes inv: "\<forall>y \<in> set (e # es). runnable cfg ts st y" and same: "same_txns st st'" and q: "leftover_txns (exec st) = e # es"
    and q': "leftover_txns (exec st') = (if can_commit st e then es else es @ [e])" and some: "filter (can_commit st) (e # es) \<noteq> []"
  shows "queue_rank st' < queue_rank st"
proof -
  have "\<forall>y \<in> set (leftover_txns (exec st')). runnable cfg ts st y" using inv q' by (simp split: if_splits)
  note f = filter_same [OF same this]
  show ?thesis
  proof (cases "can_commit st e")
    case True
    have "length (takeWhile (\<lambda>e. \<not> can_commit st e) es) < Suc (Suc (length es))" using length_takeWhile_le [of _ es] by (simp add: less_Suc_eq_le le_Suc_eq)
    then show ?thesis using f q q' True by (simp add: queue_rank_def Let_def)
  next
    case False
    then obtain y where "y \<in> set es" "can_commit st y" using some by (auto simp: filter_empty_conv)
    then have "takeWhile (\<lambda>e. \<not> can_commit st e) (es @ [e]) = takeWhile (\<lambda>e. \<not> can_commit st e) es" by (intro takeWhile_append1) auto
    then show ?thesis using f q q' False by (simp add: queue_rank_def Let_def)
  qed
qed

lemma leftover_loop_ends:
  assumes "loop_inv cfg ts st" "bound \<le> length (leftover_txns (exec st))"
    and "length (filter (\<lambda>e. \<not> can_commit st e) (leftover_txns (exec st))) \<le> bound"
  shows "\<exists>st' cs. leftover_loop cfg en bound n st = Some (Inr st') \<and> loop_inv cfg ts st' \<and> same_txns st st' \<and>
    mset cs \<subseteq># mset (filter (can_commit st) (leftover_txns (exec st))) \<and>
    length cs = length (leftover_txns (exec st)) - bound \<and> rows st' = commit_all st cs (rows st)"
  using assms
proof (induction "queue_rank st" arbitrary: st n rule: less_induct)
  case less
  show ?case
  proof (cases "bound < length (leftover_txns (exec st))")
    case False
    then show ?thesis
      using less.prems by (intro exI [of _ st] exI [of _ "[]"]) (simp add: leftover_loop.simps commit_all_def same_txns_def)
  next
    case True
    then obtain e es where lo: "leftover_txns (exec st) = e # es" by (cases "leftover_txns (exec st)") simp_all
    from leftover_turn [OF less.prems(1) lo, of "en n"] obtain rc st1 where x: "execute cfg (en n) st e = Inr (rc, st1)"
      "loop_inv cfg ts (next_sys rc st1)" "same_txns st (next_sys rc st1)"
      "leftover_txns (exec (next_sys rc st1)) = (if can_commit st e then es else es @ [e])"
      "rows (next_sys rc st1) = (if can_commit st e then apply_txn None (self st) (ops_of st e) (rows st) else rows st)"
      by (metis (no_types, lifting))
    let ?st = "next_sys rc st1"
    have r: "\<forall>y \<in> set (e # es). runnable cfg ts st y" using less.prems(1) lo by (simp add: loop_inv_def)
    then have e: "e < length (my_txns st)" by (simp add: runnable_def)
    have step: "leftover_loop cfg en bound n st = leftover_loop cfg en bound (Suc n) ?st"
      using True lo x(1) e by (subst leftover_loop.simps) (simp add: entry_to_txn_def next_sys_def Let_def)
    have parts: "length (filter (can_commit st) q) + length (filter (\<lambda>e. \<not> can_commit st e) q) = length q" for q
      by (rule sum_length_filter_compl)
    have some: "filter (can_commit st) (e # es) \<noteq> []" using parts [of "e # es"] less.prems(3) True lo by (metis add_0 length_0_conv not_le)
    have r': "\<forall>y \<in> set (leftover_txns (exec ?st)). runnable cfg ts st y" using r x(4) by (simp split: if_splits)
    note f = filter_same [OF x(3) r'] and ops = same_txns_ops [OF x(3)]
    have "\<exists>st' cs. leftover_loop cfg en bound (Suc n) ?st = Some (Inr st') \<and> loop_inv cfg ts st' \<and> same_txns ?st st' \<and>
      mset cs \<subseteq># mset (filter (can_commit ?st) (leftover_txns (exec ?st))) \<and>
      length cs = length (leftover_txns (exec ?st)) - bound \<and> rows st' = commit_all ?st cs (rows ?st)"
    proof (rule less.hyps [OF queue_rank_turn [OF r x(3) lo x(4) some] x(2)])
      show "bound \<le> length (leftover_txns (exec ?st))" using True lo x(4) by simp
      show "length (filter (\<lambda>e. \<not> can_commit ?st e) (leftover_txns (exec ?st))) \<le> bound" using f(2) x(4) less.prems(3) lo by (simp split: if_splits)
    qed
    then obtain st' cs where h: "leftover_loop cfg en bound (Suc n) ?st = Some (Inr st')" "loop_inv cfg ts st'" "same_txns ?st st'"
      "mset cs \<subseteq># mset (filter (can_commit st) (leftover_txns (exec ?st)))"
      "length cs = length (leftover_txns (exec ?st)) - bound" "rows st' = commit_all ?st cs (rows ?st)" using f(1) by auto
    have "set cs \<subseteq> set (leftover_txns (exec ?st))" using set_mset_mono [OF h(4)] by auto
    then have same: "commit_all ?st cs R = commit_all st cs R" for R
      using r' ops [of cfg ts] unfolding commit_all_def by (intro fold_cong refl) (metis subsetD)
    let ?cs = "if can_commit st e then e # cs else cs"
    have "rows st' = commit_all st ?cs (rows st)" using h(6) same x(5) by (simp add: commit_all_def)
    moreover have "mset ?cs \<subseteq># mset (filter (can_commit st) (leftover_txns (exec st)))" using h(4) x(4) lo by (cases "can_commit st e") simp_all
    moreover have "length ?cs = length (leftover_txns (exec st)) - bound" using h(5) x(4) lo True by (cases "can_commit st e") (simp_all add: Suc_diff_le)
    ultimately show ?thesis using step h(1,2) same_txns_trans [OF x(3) h(3)] by (intro exI [of _ st'] exI [of _ ?cs]) simp
  qed
qed

lemma if_weaken: "if c then P else Q \<Longrightarrow> (P \<Longrightarrow> P') \<Longrightarrow> if c then P' else Q"
  by (simp split: if_splits)

lemma run_leftover_cases:
  assumes "idle ts st" "quiet ts st" "\<forall>e \<in> set (leftover_txns (exec st)). runnable cfg ts st e"
  shows "(if length (filter (\<lambda>e. \<not> conflict_free (self st) (live_ops (cold_ops (my_txns st ! e)))) (leftover_txns (exec st)))
            \<le> length (leftover_txns (exec st)) div 100
     then \<exists>st' cs. run_leftover_txns cfg en st = Some (Inr st') \<and> leftover_txns (exec st') = [] \<and> idle ts st' \<and> quiet ts st' \<and>
       mset cs \<subseteq># mset (filter (\<lambda>e. conflict_free (self st) (live_ops (cold_ops (my_txns st ! e)))) (leftover_txns (exec st))) \<and>
       length cs = length (leftover_txns (exec st)) - length (leftover_txns (exec st)) div 100 \<and>
       rows st' = fold (\<lambda>e. apply_txn None (self st) (live_ops (cold_ops (my_txns st ! e)))) cs (rows st) \<and>
       send_queue st' = send_queue st
     else run_leftover_txns cfg en st = None)"
proof -
  let ?q = "leftover_txns (exec st)"
  have inv: "loop_inv cfg ts st" using assms by (simp add: loop_inv_def)
  show ?thesis
  proof (cases "length (filter (\<lambda>e. \<not> can_commit st e) ?q) \<le> length ?q div 100")
    case True
    obtain st1 cs where h: "leftover_loop cfg en (length ?q div 100) 0 st = Some (Inr st1)" "loop_inv cfg ts st1"
      "mset cs \<subseteq># mset (filter (can_commit st) ?q)" "length cs = length ?q - length ?q div 100" "rows st1 = commit_all st cs (rows st)"
      "send_queue st1 = send_queue st"
      using leftover_loop_ends [OF inv _ True, of en 0] by (auto simp: same_txns_def)
    let ?st = "upd_exec (\<lambda>x. x\<lparr>leftover_txns := []\<rparr>) st1"
    have core: "same_core st1 ?st" by (simp add: same_core_def upd_exec_def)
    have "run_leftover_txns cfg en st = Some (Inr ?st)" using h(1) by (simp add: run_leftover_txns_def)
    moreover have "quiet ts ?st" "idle ts ?st" "rows ?st = rows st1"
      using h(2) core_sel [OF core] by (simp_all add: loop_inv_def quiet_def)
    moreover have "leftover_txns (exec ?st) = []" "send_queue ?st = send_queue st" using h(6) by (simp_all add: upd_exec_def)
    ultimately have "\<exists>st' cs. run_leftover_txns cfg en st = Some (Inr st') \<and> leftover_txns (exec st') = [] \<and> idle ts st' \<and> quiet ts st' \<and>
      mset cs \<subseteq># mset (filter (can_commit st) ?q) \<and> length cs = length ?q - length ?q div 100 \<and> rows st' = commit_all st cs (rows st) \<and>
      send_queue st' = send_queue st"
      using h(3-5) by metis
    then show ?thesis unfolding commit_all_def using True by (simp only: if_True)
  next
    case False
    have "leftover_loop cfg en (length ?q div 100) 0 st = None"
      using leftover_loop_diverges [OF _ inv] False by (metis not_le option.exhaust)
    then have "run_leftover_txns cfg en st = None" by (simp add: run_leftover_txns_def)
    then show ?thesis using False by (simp only: if_False)
  qed
qed

text \<open>
  C3. When the leftover transactions get done. On a quiet cluster, with leftover transactions whose
  operations name rows of the cluster, \<open>run_leftover_txns\<close> returns exactly when at most
  one in a hundred of them needs a row for writing and once more: such a transaction conflicts
  with its own lock, is rolled back and queued again each time, and with more of them the loop runs
  forever. When it returns, the queue is empty and all but \<open>n div 100\<close> of the
  transactions, none of the self-conflicting ones, have been applied to the cluster one after the
  other; the others are dropped without having run to a commit. No lock is left behind.
\<close>

theorem run_leftover_ends_iff:
  assumes "idle ts st" "quiet ts st" "\<forall>e \<in> set (leftover_txns (exec st)). runnable cfg ts st e"
  shows "(if length (filter (\<lambda>e. \<not> conflict_free (self st) (live_ops (cold_ops (my_txns st ! e)))) (leftover_txns (exec st)))
            \<le> length (leftover_txns (exec st)) div 100
     then \<exists>st' cs. run_leftover_txns cfg en st = Some (Inr st') \<and> leftover_txns (exec st') = [] \<and> idle ts st' \<and> quiet ts st' \<and>
       mset cs \<subseteq># mset (filter (\<lambda>e. conflict_free (self st) (live_ops (cold_ops (my_txns st ! e)))) (leftover_txns (exec st))) \<and>
       length cs = length (leftover_txns (exec st)) - length (leftover_txns (exec st)) div 100 \<and>
       rows st' = fold (\<lambda>e. apply_txn None (self st) (live_ops (cold_ops (my_txns st ! e)))) cs (rows st)
     else run_leftover_txns cfg en st = None)"
  by (rule if_weaken [OF run_leftover_cases [OF assms, of en]]) blast

definition demo_leftover :: "DeclusteredLayout \<Rightarrow> OP list \<Rightarrow> sys" where
  "demo_leftover d ops = upd_exec (\<lambda>x. x\<lparr>leftover_txns := [0]\<rparr>) (demo_sys d [Txn_mk 1 ops])"

lemma demo_leftover_sel:
  "leftover_txns (exec (demo_leftover d ops)) = [0]" "my_txns (demo_leftover d ops) = [Txn_mk 1 ops]" "self (demo_leftover d ops) = 0"
  by (simp_all add: demo_leftover_def upd_exec_def demo_self)

lemma demo_leftover_ok:
  assumes "length ops = N_OPS" "\<forall>op \<in> set ops. op_mode op \<noteq> INVALID \<and> op_fits 80 (demo_sys d [Txn_mk 1 ops]) op"
  shows "idle 80 (demo_leftover d ops)" "quiet 80 (demo_leftover d ops)" "runnable layout_demo_cfg 80 (demo_leftover d ops) 0"
proof -
  have core: "same_core (demo_sys d [Txn_mk 1 ops]) (demo_leftover d ops)" by (simp add: same_core_def demo_leftover_def upd_exec_def)
  note c = core_sel [OF core]
  show "idle 80 (demo_leftover d ops)" using demo_idle c(6) by blast
  have "lock_type (Row_mk t) = INVALID \<and> owner_cnt (Row_mk t) = 0" for t by (simp add: Row_mk_def)
  then show "quiet 80 (demo_leftover d ops)" unfolding quiet_def c(1,3) using demo_rows by metis
  show "runnable layout_demo_cfg 80 (demo_leftover d ops) 0"
    using assms c(8) [of 80] by (simp add: runnable_def demo_leftover_sel Txn_mk_def)
qed

text \<open>The transaction of the example, and one that writes its first row twice.\<close>

theorem run_leftover_ends_iff_witness:
  "\<exists>d st'. DeclusteredLayout_mk layout_demo_cfg layout_demo_freq = Inr d \<and>
     run_leftover_txns layout_demo_cfg (\<lambda>_. demo_en) (demo_leftover d demo_cold_ops) = Some (Inr st') \<and>
     leftover_txns (exec st') = [] \<and> kv_value (r_tuple (rows st' (1, 2))) = 9 \<and>
     run_leftover_txns layout_demo_cfg (\<lambda>_. demo_en) (demo_leftover d (demo_op1 # replicate 7 demo_op1)) = None"
proof -
  obtain d where d: "DeclusteredLayout_mk layout_demo_cfg layout_demo_freq = Inr d" by (rule layout_demo_mk)
  let ?a = "demo_leftover d demo_cold_ops" and ?ops = "demo_op1 # replicate 7 demo_op1"
  let ?b = "demo_leftover d ?ops"
  have live: "live_ops ?ops = ?ops" by (simp add: live_ops_def demo_op1_def takeWhile_all)
  have cf: "conflict_free 0 demo_cold_ops" "\<not> conflict_free 0 ?ops"
    by (simp_all add: demo_cold_ops_def demo_op1_def demo_op2_def place_def node_u32_def list_all_iff numeral_eq_Suc)
  have a: "idle 80 ?a" "quiet 80 ?a" "\<forall>e \<in> set (leftover_txns (exec ?a)). runnable layout_demo_cfg 80 ?a e"
    using demo_leftover_ok [of demo_cold_ops d] demo_cold_fits by (simp_all add: demo_leftover_sel)
  have "\<forall>op \<in> set ?ops. op_mode op \<noteq> INVALID \<and> op_fits 80 (demo_sys d [Txn_mk 1 ?ops]) op"
    using demo_cold_fits(2) [of d "[Txn_mk 1 ?ops]"] by (auto simp: demo_op_sel demo_cold_ops_def)
  then have b: "idle 80 ?b" "quiet 80 ?b" "\<forall>e \<in> set (leftover_txns (exec ?b)). runnable layout_demo_cfg 80 ?b e"
    using demo_leftover_ok [of ?ops d] by (simp_all add: demo_leftover_sel N_OPS_def)
  have "run_leftover_txns layout_demo_cfg (\<lambda>_. demo_en) ?b = None"
    using run_leftover_ends_iff [OF b, of "\<lambda>_. demo_en"] cf(2) live by (simp add: demo_leftover_sel Txn_mk_def)
  moreover from run_leftover_ends_iff [OF a, of "\<lambda>_. demo_en"] cf(1) obtain st' cs where
    st: "run_leftover_txns layout_demo_cfg (\<lambda>_. demo_en) ?a = Some (Inr st')" "leftover_txns (exec st') = []"
    "mset cs \<subseteq># {#0#}" "length cs = 1" "rows st' = fold (\<lambda>e. apply_txn None 0 (live_ops (cold_ops ([Txn_mk 1 demo_cold_ops] ! e)))) cs (rows ?a)"
    by (auto simp: demo_leftover_sel Txn_mk_def demo_cold_fits)
  have "cs = [0]" using st(3,4) by (cases cs) auto
  then have "rows st' = apply_txn None 0 demo_cold_ops (rows ?a)" using st(5) by (simp add: Txn_mk_def demo_cold_fits)
  then have "kv_value (r_tuple (rows st' (1, 2))) = 9"
    by (simp add: apply_txn_at demo_cold_ops_def demo_op_sel place_def demo_op1_def touch_def write_row_def)
      (simp add: place_def demo_op2_def node_u32_def)
  ultimately show ?thesis using d st(1,2) by blast
qed

end
