(* ===== verification/P4_HotPeriod.thy ===== *)
theory P4_HotPeriod
  imports P4_Switch P4_Pools
begin

text \<open>
  The hot period (\<open>ee/hot_period.cpp\<close>): the leader of each node loads the accelerated rows it owns
  into the switch, sends the packets of the batch mini-batch by mini-batch in step with the other
  nodes, and reads the rows back.

  A run is the trace of what it does: the packets it sends and the barriers of all nodes
  (\<open>wait_nodes\<close>) it passes, in order. The socket takes every packet whole (a short send trips an
  assertion of the source).
\<close>

section \<open>The packets that load and unload the switch\<close>

text \<open>What \<open>fill_op\<close> writes; \<open>loc_info\<close> keeps the value of the fresh transaction.\<close>

definition fill_op ::
  "build_cfg \<Rightarrow> StructTable \<Rightarrow> DeclusteredLayout \<Rightarrow> bool \<Rightarrow> db_key \<Rightarrow> hot_op \<Rightarrow> (hot_op \<times> DeclusteredLayout) result" where
  "fill_op cfg kvs d is_init k op =
     bind_res (lockless_access kvs k) (\<lambda>i.
     let ((_, loc), d) = get_location cfg d k in
     ok (((fst op)\<lparr>op_id := k, op_mode := (if is_init then WRITE else READ),
           op_value := kv_value (r_tuple (t_data kvs ! i))\<rparr>, loc), d))"

definition init_and_get_arr :: "Txn \<Rightarrow> Txn" where
  "init_and_get_arr txn = txn\<lparr>init_done := True, do_accel := True\<rparr>"

definition MAX_STACKPOOL_SIZE :: "build_cfg \<Rightarrow> nat" where
  "MAX_STACKPOOL_SIZE cfg = 2 * HOT_TXN_PKT_BYTES * ((N_ACCEL_KEYS cfg + N_OPS - 1) div N_OPS)"

text \<open>
  The variables of \<open>gen_start_end_packets\<close>. \<open>pkt_mem\<close> is what the buffers of the pool hold, by
  their offset: zero at first, packets of the last batch later.
\<close>

record gen_state =
  txn_start :: Txn
  txn_end :: Txn
  ops_added :: nat
  gen_pool :: StackPool
  gen_layout :: DeclusteredLayout
  start_fill :: "(Txn \<times> pass1_pkt) list"
  end_fill :: "(Txn \<times> pass1_pkt) list"

text \<open>\<open>Txn()\<close>: the default constructor, all operations of mode \<open>INVALID\<close>.\<close>

definition Txn_default :: Txn where
  "Txn_default = Txn_mk 0 (replicate N_OPS OP_zero)"

definition gen_fresh :: "gen_state \<Rightarrow> gen_state" where
  "gen_fresh g = g\<lparr>ops_added := 0, txn_start := init_and_get_arr Txn_default, txn_end := init_and_get_arr Txn_default\<rparr>"

text \<open>The lambda \<open>make_txn\<close>, called with \<open>first\<close> false.\<close>

definition gen_make_txn ::
  "build_cfg \<Rightarrow> net_conf \<Rightarrow> (nat \<Rightarrow> pass1_pkt) \<Rightarrow> gen_state \<Rightarrow> gen_state result" where
  "gen_make_txn cfg nc pkt_mem g =
     bind_res (StackPool_allocate (gen_pool g) HOT_TXN_PKT_BYTES) (\<lambda>(a, pool).
     bind_res (make_txn cfg nc (gen_layout g) (txn_start g) (pkt_mem a)) (\<lambda>pkt_start.
     bind_res (StackPool_allocate pool HOT_TXN_PKT_BYTES) (\<lambda>(b, pool).
     bind_res (make_txn cfg nc (gen_layout g) (txn_end g) (pkt_mem b)) (\<lambda>pkt_end.
     ok (gen_fresh (g\<lparr>gen_pool := pool, start_fill := start_fill g @ [(txn_start g, pkt_start)],
                      end_fill := end_fill g @ [(txn_end g, pkt_end)]\<rparr>))))))"

definition gen_fill ::
  "build_cfg \<Rightarrow> StructTable \<Rightarrow> db_key \<Rightarrow> gen_state \<Rightarrow> gen_state result" where
  "gen_fill cfg kvs k g =
     bind_res (at_res (hot_ops_pass1 (txn_start g)) (ops_added g)) (\<lambda>os.
     bind_res (fill_op cfg kvs (gen_layout g) True k os) (\<lambda>(os, d).
     bind_res (at_res (hot_ops_pass1 (txn_end g)) (ops_added g)) (\<lambda>oe.
     bind_res (fill_op cfg kvs d False k oe) (\<lambda>(oe, d).
     ok (g\<lparr>gen_layout := d, ops_added := ops_added g + 1,
           txn_start := (txn_start g)\<lparr>hot_ops_pass1 := (hot_ops_pass1 (txn_start g))[ops_added g := os]\<rparr>,
           txn_end := (txn_end g)\<lparr>hot_ops_pass1 := (hot_ops_pass1 (txn_end g))[ops_added g := oe]\<rparr>\<rparr>)))))"

text \<open>One round of the inner loop: register \<open>r\<close> in slot \<open>s\<close> of the block.\<close>

definition gen_reg ::
  "build_cfg \<Rightarrow> net_conf \<Rightarrow> (nat \<Rightarrow> pass1_pkt) \<Rightarrow> StructTable \<Rightarrow> nat \<Rightarrow> nat \<Rightarrow> gen_state \<Rightarrow> gen_state result" where
  "gen_reg cfg nc pkt_mem kvs s r g =
     bind_res (rev_lookup cfg (gen_layout g) r (s + SLOTS_PER_SCHED_BLOCK cfg * block_num (gen_layout g))) (\<lambda>k.
     case k of None \<Rightarrow> ok g
     | Some k \<Rightarrow>
         bind_res (location (part_info kvs) k) (\<lambda>l.
         if is_local l then
           bind_res (gen_fill cfg kvs k g) (\<lambda>g.
           if ops_added g = N_OPS then gen_make_txn cfg nc pkt_mem g else ok g)
         else ok g))"

primrec gen_regs ::
  "build_cfg \<Rightarrow> net_conf \<Rightarrow> (nat \<Rightarrow> pass1_pkt) \<Rightarrow> StructTable \<Rightarrow> nat \<Rightarrow> nat list \<Rightarrow> gen_state \<Rightarrow> gen_state result" where
  "gen_regs cfg nc pkt_mem kvs s [] g = ok g"
| "gen_regs cfg nc pkt_mem kvs s (r # rs) g =
     bind_res (gen_reg cfg nc pkt_mem kvs s r g) (gen_regs cfg nc pkt_mem kvs s rs)"

definition gen_stop :: "nat \<Rightarrow> Txn \<Rightarrow> Txn result" where
  "gen_stop n txn =
     bind_res (at_res (hot_ops_pass1 txn) n) (\<lambda>op.
     ok (txn\<lparr>hot_ops_pass1 := (hot_ops_pass1 txn)[n := ((fst op)\<lparr>op_mode := INVALID\<rparr>, snd op)]\<rparr>))"

definition gen_slot ::
  "build_cfg \<Rightarrow> net_conf \<Rightarrow> (nat \<Rightarrow> pass1_pkt) \<Rightarrow> StructTable \<Rightarrow> nat \<Rightarrow> gen_state \<Rightarrow> gen_state result" where
  "gen_slot cfg nc pkt_mem kvs s g =
     bind_res (gen_regs cfg nc pkt_mem kvs s [0..<N_REGS] g) (\<lambda>g.
     bind_res (assert_res (ops_added g < N_OPS)) (\<lambda>_.
     if ops_added g > 0 then
       bind_res (gen_stop (ops_added g) (txn_start g)) (\<lambda>ts.
       bind_res (gen_stop (ops_added g) (txn_end g)) (\<lambda>te.
       gen_make_txn cfg nc pkt_mem (g\<lparr>txn_start := ts, txn_end := te\<rparr>)))
     else ok g))"

primrec gen_slots ::
  "build_cfg \<Rightarrow> net_conf \<Rightarrow> (nat \<Rightarrow> pass1_pkt) \<Rightarrow> StructTable \<Rightarrow> nat list \<Rightarrow> gen_state \<Rightarrow> gen_state result" where
  "gen_slots cfg nc pkt_mem kvs [] g = ok g"
| "gen_slots cfg nc pkt_mem kvs (s # ss) g =
     bind_res (gen_slot cfg nc pkt_mem kvs s g) (gen_slots cfg nc pkt_mem kvs ss)"

definition gen_init :: "StackPool \<Rightarrow> DeclusteredLayout \<Rightarrow> gen_state" where
  "gen_init pool d = gen_fresh \<lparr>txn_start = Txn_default, txn_end = Txn_default, ops_added = 0,
     gen_pool = pool, gen_layout = d, start_fill = [], end_fill = []\<rparr>"

definition gen_start_end_packets ::
  "build_cfg \<Rightarrow> net_conf \<Rightarrow> (nat \<Rightarrow> pass1_pkt) \<Rightarrow> StructTable \<Rightarrow> StackPool \<Rightarrow> DeclusteredLayout \<Rightarrow> gen_state result" where
  "gen_start_end_packets cfg nc pkt_mem kvs pool d =
     gen_slots cfg nc pkt_mem kvs [0..<SLOTS_PER_SCHED_BLOCK cfg] (gen_init pool d)"

section \<open>The send loop\<close>

datatype hot_event =
    EvStart pass1_pkt
  | EvBarrier
  | EvHot nat
  | EvEnd pass1_pkt

definition MAX_IN_FLIGHT :: nat where "MAX_IN_FLIGHT = 200"

text \<open>
  The mini-batch number in entry \<open>i\<close> of the queue. An entry never written holds whatever the
  memory held, \<open>junk i\<close>.
\<close>

definition mb_at :: "hot_txn_entry option list \<Rightarrow> (nat \<Rightarrow> nat) \<Rightarrow> nat \<Rightarrow> nat result" where
  "mb_at q junk i =
     bind_res (at_res q i) (\<lambda>e. ok (case e of Some e \<Rightarrow> mini_batch_num e | None \<Rightarrow> junk i))"

text \<open>The inner loop: the end of the window that starts at \<open>w\<close>.\<close>

function window_end ::
  "hot_txn_entry option list \<Rightarrow> (nat \<Rightarrow> nat) \<Rightarrow> nat \<Rightarrow> nat \<Rightarrow> nat \<Rightarrow> nat result" where
  "window_end q junk q_size w q_p =
     (if q_p < q_size then
        bind_res (mb_at q junk w) (\<lambda>a.
        bind_res (mb_at q junk q_p) (\<lambda>b.
        if a = b \<and> q_p - w < MAX_IN_FLIGHT then window_end q junk q_size w (q_p + 1) else ok q_p))
      else ok q_p)"
  by auto
termination
  by (relation "measure (\<lambda>(_, _, q_size, _, q_p). q_size - q_p)") auto

declare window_end.simps [simp del]

lemma window_end_ge: "window_end q junk q_size w q_p = Inr e \<Longrightarrow> q_p \<le> e"
proof (induction q junk q_size w q_p rule: window_end.induct)
  case (1 q junk q_size w q_p)
  from "1.prems" show ?case
    using "1.IH" by (subst (asm) window_end.simps) (force simp: res_elims split: if_splits)
qed

lemma window_end_gt: "window_end q junk q_size w w = Inr e \<Longrightarrow> w < q_size \<Longrightarrow> w < e"
  by (subst (asm) window_end.simps)
    (auto simp: res_elims MAX_IN_FLIGHT_def split: if_splits dest: window_end_ge)

function send_windows ::
  "hot_txn_entry option list \<Rightarrow> (nat \<Rightarrow> nat) \<Rightarrow> nat \<Rightarrow> nat \<Rightarrow> nat \<Rightarrow> hot_event list result" where
  "send_windows q junk q_size exec_mb q_p =
     (if q_p < q_size then
        bind_res (window_end q junk q_size q_p q_p) (\<lambda>e.
        bind_res (mb_at q junk q_p) (\<lambda>mb.
        bind_res (if e = q_size then ok () else bind_res (mb_at q junk e) (\<lambda>n. assert_res (mb \<le> n))) (\<lambda>_.
        bind_res (mb_at q junk e) (\<lambda>next.
        let end_mb = (if e = q_size then exec_mb else next);
            bars = (if mb < next \<or> e = q_size then replicate (end_mb - mb) EvBarrier else [])
        in
        bind_res (send_windows q junk q_size exec_mb e) (\<lambda>evs.
        ok (map EvHot [q_p..<e] @ bars @ evs))))))
      else ok [])"
  by auto
termination
  by (relation "measure (\<lambda>(_, _, q_size, _, q_p). q_size - q_p)") (auto dest: window_end_gt)

declare send_windows.simps [simp del]

definition pre_barriers :: "hot_txn_entry option list \<Rightarrow> (nat \<Rightarrow> nat) \<Rightarrow> nat \<Rightarrow> nat \<Rightarrow> hot_event list result" where
  "pre_barriers q junk q_size past_mb_num =
     (if q_size > 0 then bind_res (mb_at q junk 0) (\<lambda>mb. ok (replicate (mb - past_mb_num) EvBarrier))
      else bind_res (mb_at q junk 0) (\<lambda>mb.
        ok (if mb > past_mb_num then replicate (mb - past_mb_num) EvBarrier else [])))"

text \<open>The hot period: its trace, the new \<open>past_mb_num\<close>, the emptied pool and the layout.\<close>

definition run_hot_period ::
  "build_cfg \<Rightarrow> net_conf \<Rightarrow> (nat \<Rightarrow> pass1_pkt) \<Rightarrow> StructTable \<Rightarrow> StackPool \<Rightarrow> DeclusteredLayout \<Rightarrow>
   hot_send_q \<Rightarrow> (nat \<Rightarrow> nat) \<Rightarrow> nat \<Rightarrow> nat \<Rightarrow> (hot_event list \<times> nat \<times> StackPool \<times> DeclusteredLayout) result" where
  "run_hot_period cfg nc pkt_mem kvs pool d hsq junk past_mb_num exec_mb =
     bind_res (gen_start_end_packets cfg nc pkt_mem kvs pool d) (\<lambda>g.
     bind_res (pre_barriers (send_q hsq) junk (send_q_tail hsq) past_mb_num) (\<lambda>pre.
     bind_res (send_windows (send_q hsq) junk (send_q_tail hsq) exec_mb 0) (\<lambda>evs.
     ok (map (\<lambda>(t, p). EvStart p) (start_fill g) @ [EvBarrier] @ pre @ evs @
         map (\<lambda>(t, p). EvEnd p) (end_fill g) @ [EvBarrier],
         exec_mb, StackPool_clear (gen_pool g), gen_layout g))))"

section \<open>Barriers and packets in step\<close>

text \<open>The barriers a node passes, and those it passes before it sends entry \<open>i\<close> of the queue.\<close>

definition n_barriers :: "hot_event list \<Rightarrow> nat" where
  "n_barriers evs = count_list evs EvBarrier"

definition barriers_before :: "nat \<Rightarrow> hot_event list \<Rightarrow> nat" where
  "barriers_before i evs = n_barriers (takeWhile (\<lambda>x. x \<noteq> EvHot i) evs)"

definition hot_sent :: "hot_event list \<Rightarrow> nat list" where
  "hot_sent evs = concat (map (\<lambda>e. case e of EvHot i \<Rightarrow> [i] | _ \<Rightarrow> []) evs)"

lemma n_barriers_simps [simp]:
  "n_barriers (xs @ ys) = n_barriers xs + n_barriers ys"
  "n_barriers [] = 0" "n_barriers (EvBarrier # xs) = Suc (n_barriers xs)"
  "n_barriers (replicate n EvBarrier) = n"
  "n_barriers (map EvHot is) = 0" "n_barriers (map (\<lambda>(t, p). EvStart p) ps) = 0"
  "n_barriers (map (\<lambda>(t, p). EvEnd p) ps) = 0"
proof -
  show "n_barriers (replicate n EvBarrier) = n" by (induction n) (simp_all add: n_barriers_def)
  show "n_barriers (map EvHot is) = 0" by (induction "is") (simp_all add: n_barriers_def)
  show "n_barriers (map (\<lambda>(t, p). EvStart p) ps) = 0" by (induction ps) (auto simp: n_barriers_def)
  show "n_barriers (map (\<lambda>(t, p). EvEnd p) ps) = 0" by (induction ps) (auto simp: n_barriers_def)
qed (simp_all add: n_barriers_def)

lemma hot_sent_simps [simp]:
  "hot_sent (xs @ ys) = hot_sent xs @ hot_sent ys" "hot_sent [] = []" "hot_sent (EvBarrier # xs) = hot_sent xs"
  "hot_sent (replicate n EvBarrier) = []" "hot_sent (map EvHot is) = is"
  "hot_sent (map (\<lambda>(t, p). EvStart p) ps) = []" "hot_sent (map (\<lambda>(t, p). EvEnd p) ps) = []"
proof -
  show "hot_sent (replicate n EvBarrier) = []" by (induction n) (simp_all add: hot_sent_def)
  show "hot_sent (map EvHot is) = is" by (induction "is") (simp_all add: hot_sent_def)
  show "hot_sent (map (\<lambda>(t, p). EvStart p) ps) = []" by (induction ps) (auto simp: hot_sent_def)
  show "hot_sent (map (\<lambda>(t, p). EvEnd p) ps) = []" by (induction ps) (auto simp: hot_sent_def)
qed (simp_all add: hot_sent_def)

lemma before_skip:
  assumes "EvHot i \<notin> set xs"
  shows "barriers_before i (xs @ ys) = n_barriers xs + barriers_before i ys"
proof -
  have "takeWhile (\<lambda>x. x \<noteq> EvHot i) (xs @ ys) = xs @ takeWhile (\<lambda>x. x \<noteq> EvHot i) ys"
    using assms by (intro takeWhile_append2) auto
  then show ?thesis by (simp add: barriers_before_def)
qed

lemma before_here:
  assumes "EvHot i \<in> set xs" "n_barriers xs = 0"
  shows "barriers_before i (xs @ ys) = 0"
proof -
  have "takeWhile (\<lambda>x. x \<noteq> EvHot i) (xs @ ys) = takeWhile (\<lambda>x. x \<noteq> EvHot i) xs"
    using assms(1) by (intro takeWhile_append1 [where x = "EvHot i"]) auto
  moreover have "set (takeWhile (\<lambda>x. x \<noteq> EvHot i) xs) \<subseteq> set xs" by (auto dest: set_takeWhileD)
  ultimately show ?thesis using assms(2) by (auto simp: barriers_before_def n_barriers_def count_list_0_iff)
qed

text \<open>A queue with the mini-batch numbers \<open>f 0, ..., f (n - 1)\<close> and room for one more entry.\<close>

definition mbs_ok :: "hot_txn_entry option list \<Rightarrow> (nat \<Rightarrow> nat) \<Rightarrow> nat \<Rightarrow> (nat \<Rightarrow> nat) \<Rightarrow> bool" where
  "mbs_ok q junk n f \<longleftrightarrow> (\<forall>i < n. mb_at q junk i = Inr (f i)) \<and> n < length q \<and>
     (\<forall>i j. i \<le> j \<longrightarrow> j < n \<longrightarrow> f i \<le> f j)"

lemma mb_at_ex: "i < length q \<Longrightarrow> \<exists>m. mb_at q junk i = Inr m"
  by (simp add: mb_at_def at_res_lt)

lemma mbs_ok_last: "mbs_ok q junk n f \<Longrightarrow> \<exists>m. mb_at q junk n = Inr m"
  unfolding mbs_ok_def using mb_at_ex by blast

lemma window_end_ok:
  assumes "mbs_ok q junk n f" "w < n" "p \<le> n" "\<forall>i. w \<le> i \<longrightarrow> i < p \<longrightarrow> f i = f w"
  shows "\<exists>e. window_end q junk n w p = Inr e \<and> p \<le> e \<and> e \<le> n \<and> (\<forall>i. w \<le> i \<longrightarrow> i < e \<longrightarrow> f i = f w)"
  using assms(3,4)
proof (induction "n - p" arbitrary: p)
  case 0
  then have "window_end q junk n w p = Inr p" by (simp add: window_end.simps)
  then show ?case using 0 by blast
next
  case (Suc x)
  have mb: "mb_at q junk w = Inr (f w)" "mb_at q junk p = Inr (f p)" "p < n"
    using assms(1,2) Suc.hyps(2) by (simp_all add: mbs_ok_def)
  show ?case
  proof (cases "f w = f p \<and> p - w < MAX_IN_FLIGHT")
    case True
    have "\<forall>i. w \<le> i \<longrightarrow> i < Suc p \<longrightarrow> f i = f w" using Suc.prems(2) True by (metis less_Suc_eq)
    moreover have "x = n - Suc p" "Suc p \<le> n" using Suc.hyps(2) by simp_all
    ultimately obtain e where e: "window_end q junk n w (Suc p) = Inr e" "Suc p \<le> e" "e \<le> n"
        "\<forall>i. w \<le> i \<longrightarrow> i < e \<longrightarrow> f i = f w"
      using Suc.hyps(1) by blast
    have "window_end q junk n w p = window_end q junk n w (Suc p)"
      by (subst window_end.simps) (simp add: mb True)
    then show ?thesis using e Suc_leD by metis
  next
    case False
    have "window_end q junk n w p = Inr p" by (subst window_end.simps) (use mb False in auto)
    then show ?thesis using Suc.prems by blast
  qed
qed

lemma send_windows_ok:
  assumes "mbs_ok q junk n f" "\<forall>i < n. f i < exec_mb" "p < n"
  shows "\<exists>evs. send_windows q junk n exec_mb p = Inr evs \<and> hot_sent evs = [p..<n] \<and>
    n_barriers evs = exec_mb - f p \<and> (\<forall>i. p \<le> i \<longrightarrow> i < n \<longrightarrow> barriers_before i evs = f i - f p)"
  using assms(3)
proof (induction "n - p" arbitrary: p rule: less_induct)
  case less
  have "\<forall>i. p \<le> i \<longrightarrow> i < p \<longrightarrow> f i = f p" by simp
  then obtain e where e: "window_end q junk n p p = Inr e" "e \<le> n" "\<forall>i. p \<le> i \<longrightarrow> i < e \<longrightarrow> f i = f p"
    using window_end_ok [OF assms(1) less.prems less_imp_le [OF less.prems]] by blast
  have pe: "p < e" using window_end_gt [OF e(1) less.prems] .
  have mb: "mb_at q junk p = Inr (f p)" using assms(1) less.prems by (simp add: mbs_ok_def)
  have in_win: "barriers_before i (map EvHot [p..<e] @ ys) = f i - f p" if "p \<le> i" "i < e" for i ys
  proof -
    have "f i = f p" using e(3) that by blast
    then show ?thesis using before_here [of i "map EvHot [p..<e]" ys] that by simp
  qed
  show ?case
  proof (cases "e = n")
    case True
    obtain m where m: "mb_at q junk n = Inr m" using mbs_ok_last [OF assms(1)] by blast
    have "send_windows q junk n exec_mb n = Inr []" by (simp add: send_windows.simps)
    then have s: "send_windows q junk n exec_mb p =
        Inr (map EvHot [p..<n] @ replicate (exec_mb - f p) EvBarrier @ [])"
      using e(1) mb m True less.prems by (subst send_windows.simps) (simp add: Let_def)
    have "\<forall>i. p \<le> i \<longrightarrow> i < n \<longrightarrow>
        barriers_before i (map EvHot [p..<n] @ replicate (exec_mb - f p) EvBarrier @ []) = f i - f p"
      using in_win True by blast
    then show ?thesis unfolding s by (intro exI conjI) (rule refl, simp_all)
  next
    case False
    then have en: "e < n" using e(2) by simp
    have "n - e < n - p" using en pe by simp
    then obtain evs where evs: "send_windows q junk n exec_mb e = Inr evs" "hot_sent evs = [e..<n]"
        "n_barriers evs = exec_mb - f e" "\<forall>i. e \<le> i \<longrightarrow> i < n \<longrightarrow> barriers_before i evs = f i - f e"
      using less.hyps [OF _ en] by blast
    have mbe: "mb_at q junk e = Inr (f e)" and le: "f p \<le> f e" "f e < exec_mb"
      and le': "\<And>i. e \<le> i \<Longrightarrow> i < n \<Longrightarrow> f e \<le> f i"
      using assms(1,2) en pe by (simp_all add: mbs_ok_def)
    let ?b = "if f p < f e then replicate (f e - f p) EvBarrier else []"
    have s: "send_windows q junk n exec_mb p = Inr (map EvHot [p..<e] @ ?b @ evs)"
      using e(1) mb mbe evs(1) False le less.prems by (subst send_windows.simps) (simp add: Let_def)
    have b: "n_barriers ?b = f e - f p" "hot_sent ?b = []" by simp_all
    have "barriers_before i (map EvHot [p..<e] @ ?b @ evs) = f i - f p" if i: "p \<le> i" "i < n" for i
    proof (cases "i < e")
      case True
      then show ?thesis using in_win i by blast
    next
      case F: False
      then have "EvHot i \<notin> set (map EvHot [p..<e])" "EvHot i \<notin> set ?b" by auto
      then have "barriers_before i (map EvHot [p..<e] @ ?b @ evs) = n_barriers ?b + barriers_before i evs"
        using before_skip by (metis add_0 n_barriers_simps(5))
      then show ?thesis using b evs(4) F i le le' [of i] by (auto split: if_splits)
    qed
    moreover have "[p..<e] @ [e..<n] = [p..<n]" using pe en upt_add_eq_append [of p e "n - e"] by simp
    moreover have "n_barriers (map EvHot [p..<e] @ ?b @ evs) = exec_mb - f p"
      using b(1) evs(3) le by (simp only: n_barriers_simps)
    ultimately show ?thesis
      unfolding s using evs(2) b(2) by (intro exI [of _ "map EvHot [p..<e] @ ?b @ evs"] conjI allI impI)
        (simp_all only: hot_sent_simps append_Nil)
  qed
qed

section \<open>What the start and end packets carry\<close>

text \<open>The accelerated keys of the tenant's block that this node owns, slot by slot and register
  by register.\<close>

definition owns :: "StructTable \<Rightarrow> db_key \<Rightarrow> bool" where
  "owns kvs k \<longleftrightarrow> (case location (part_info kvs) k of Inl _ \<Rightarrow> False | Inr l \<Rightarrow> is_local l)"

definition cell_keys :: "StructTable \<Rightarrow> DeclusteredLayout \<Rightarrow> nat \<Rightarrow> nat \<Rightarrow> db_key list" where
  "cell_keys kvs d s r = (case rev_by_reg d r s of None \<Rightarrow> [] | Some k \<Rightarrow> if owns kvs k then [k] else [])"

definition row_keys :: "StructTable \<Rightarrow> DeclusteredLayout \<Rightarrow> nat \<Rightarrow> nat list \<Rightarrow> db_key list" where
  "row_keys kvs d s rs = concat (map (cell_keys kvs d s) rs)"

definition block_keys :: "StructTable \<Rightarrow> DeclusteredLayout \<Rightarrow> nat list \<Rightarrow> db_key list" where
  "block_keys kvs d ss = concat (map (\<lambda>s. row_keys kvs d s [0..<N_REGS]) ss)"

text \<open>The operation on a key: write its value into the switch, or read it back.\<close>

definition load_op :: "build_cfg \<Rightarrow> StructTable \<Rightarrow> DeclusteredLayout \<Rightarrow> bool \<Rightarrow> db_key \<Rightarrow> hot_op" where
  "load_op cfg kvs d wr k = (OP_zero\<lparr>op_id := k, op_mode := (if wr then WRITE else READ),
     op_value := kv_value (r_tuple (t_data kvs ! k))\<rparr>, loc_of cfg d k)"

text \<open>When the leader gets to the hot period: a layout built by the constructor, a block below
  the last 16-bit slot, a table with a row for every accelerated key.\<close>

definition load_ready :: "build_cfg \<Rightarrow> StructTable \<Rightarrow> DeclusteredLayout \<Rightarrow> bool" where
  "load_ready cfg kvs d \<longleftrightarrow> layout_wf d \<and> SLOTS_PER_SCHED_BLOCK cfg dvd 128 \<and>
     (block_num d + 1) * SLOTS_PER_SCHED_BLOCK cfg < 65535 \<and> partition_size (part_info kvs) \<noteq> 0 \<and>
     table_wf kvs \<and> (\<forall>r s k. rev_by_reg d r s = Some k \<longrightarrow> k < t_size kvs)"

lemma cell_location:
  assumes "load_ready cfg kvs d" "rev_by_reg d r s = Some k" "s < SLOTS_PER_SCHED_BLOCK cfg" "r < N_REGS"
  shows "is_hot cfg d k" "unat (reg_array_id (loc_of cfg d k)) = r" "snd (get_location cfg d k) = d"
    "unat (reg_array_idx (loc_of cfg d k)) = SLOTS_PER_SCHED_BLOCK cfg * block_num d + s"
proof -
  have wf: "layout_wf d" and small: "(block_num d + 1) * SLOTS_PER_SCHED_BLOCK cfg < 65535"
    using assms(1) by (simp_all add: load_ready_def)
  have "layout_fwd d k = Some (r, s)" using layout.inverse [OF wf] assms(2) by (simp add: layout_bwd_def)
  then obtain loc where loc: "virt_map d k = Some loc" "unat (reg_array_id loc) = r" "unat (reg_array_idx loc) = s"
    by (auto simp: layout_fwd_def)
  note g = get_location_known [OF loc(1), of cfg]
  show "is_hot cfg d k" "unat (reg_array_id (loc_of cfg d k)) = r" "snd (get_location cfg d k) = d"
    using g loc assms(3) by (simp_all add: is_hot_def loc_of_def)
  have "SLOTS_PER_SCHED_BLOCK cfg * block_num d + s < 2 ^ 16" using small assms(3) by (simp add: algebra_simps)
  then have u: "unat (word_of_nat (SLOTS_PER_SCHED_BLOCK cfg * block_num d + s) :: u16) =
      SLOTS_PER_SCHED_BLOCK cfg * block_num d + s"
    by (subst unat_of_nat) simp
  have "reg_array_idx (loc_of cfg d k) = word_of_nat (SLOTS_PER_SCHED_BLOCK cfg * block_num d + s)"
    by (simp add: loc_of_def g loc(3))
  then show "unat (reg_array_idx (loc_of cfg d k)) = SLOTS_PER_SCHED_BLOCK cfg * block_num d + s"
    using u by (simp only:)
qed

lemma fill_op_ok:
  assumes "load_ready cfg kvs d" "rev_by_reg d r s = Some k" "s < SLOTS_PER_SCHED_BLOCK cfg" "r < N_REGS"
  shows "fill_op cfg kvs d wr k (OP_zero, l) = Inr (load_op cfg kvs d wr k, d)"
proof -
  have k: "k < t_size kvs" and "table_wf kvs" using assms(1,2) unfolding load_ready_def by blast+
  then have "k < length (t_data kvs)" by (simp add: table_wf_def)
  with k have "lockless_access kvs k = Inr k" by (simp add: lockless_access_def translate_def Let_def at_res_lt)
  then show ?thesis
    using cell_location(3) [OF assms]
    by (cases "get_location cfg d k") (auto simp: fill_op_def load_op_def loc_of_def split: prod.splits)
qed

text \<open>The transaction under construction, with the keys \<open>cur\<close> in it.\<close>

definition seg_txn :: "build_cfg \<Rightarrow> StructTable \<Rightarrow> DeclusteredLayout \<Rightarrow> bool \<Rightarrow> db_key list \<Rightarrow> Txn" where
  "seg_txn cfg kvs d wr cur = (init_and_get_arr Txn_default)\<lparr>hot_ops_pass1 :=
     map (load_op cfg kvs d wr) cur @ replicate (N_OPS - length cur) (OP_zero, TupleLocation_zero)\<rparr>"

lemma seg_txn_sel [simp]:
  "hot_ops_pass1 (seg_txn cfg kvs d wr cur) =
     map (load_op cfg kvs d wr) cur @ replicate (N_OPS - length cur) (OP_zero, TupleLocation_zero)"
  "do_accel (seg_txn cfg kvs d wr cur)"
  by (simp_all add: seg_txn_def init_and_get_arr_def)

lemma seg_txn_fresh: "init_and_get_arr Txn_default = seg_txn cfg kvs d wr []"
  by (simp add: seg_txn_def init_and_get_arr_def Txn_default_def Txn_mk_def)

lemma seg_txn_live: "live_hot (hot_ops_pass1 (seg_txn cfg kvs d wr cur)) = map (load_op cfg kvs d wr) cur"
proof -
  have "\<forall>h \<in> set (map (load_op cfg kvs d wr) cur). op_mode (fst h) \<noteq> INVALID" by (auto simp: load_op_def)
  moreover have "takeWhile (\<lambda>h. op_mode (fst h) \<noteq> INVALID) (replicate n (OP_zero, TupleLocation_zero)) = []" for n
    by (cases n) (simp_all add: OP_zero_def)
  ultimately show ?thesis
    unfolding live_hot_def seg_txn_sel by (subst takeWhile_append2) auto
qed

lemma seg_txn_stop:
  assumes "length cur < N_OPS"
  shows "gen_stop (length cur) (seg_txn cfg kvs d wr cur) = Inr (seg_txn cfg kvs d wr cur)"
proof -
  obtain m where m: "N_OPS - length cur = Suc m" using assms by (metis Suc_diff_Suc)
  have "hot_ops_pass1 (seg_txn cfg kvs d wr cur) =
      map (load_op cfg kvs d wr) cur @ (OP_zero, TupleLocation_zero) # replicate m (OP_zero, TupleLocation_zero)"
    by (simp add: m)
  then show ?thesis
    by (simp add: gen_stop_def at_res_def nth_append list_update_append OP_zero_def seg_txn_def m)
qed

lemma seg_txn_push:
  assumes "length cur < N_OPS"
  shows "(seg_txn cfg kvs d wr cur)\<lparr>hot_ops_pass1 :=
      (hot_ops_pass1 (seg_txn cfg kvs d wr cur))[length cur := load_op cfg kvs d wr k]\<rparr> = seg_txn cfg kvs d wr (cur @ [k])"
    and "hot_ops_pass1 (seg_txn cfg kvs d wr cur) ! length cur = (OP_zero, TupleLocation_zero)"
proof -
  obtain m where m: "N_OPS - length cur = Suc m" "N_OPS - Suc (length cur) = m" using assms by (metis Suc_diff_Suc)
  show "(seg_txn cfg kvs d wr cur)\<lparr>hot_ops_pass1 :=
      (hot_ops_pass1 (seg_txn cfg kvs d wr cur))[length cur := load_op cfg kvs d wr k]\<rparr> = seg_txn cfg kvs d wr (cur @ [k])"
    by (simp add: m list_update_append) (simp add: seg_txn_def m)
  show "hot_ops_pass1 (seg_txn cfg kvs d wr cur) ! length cur = (OP_zero, TupleLocation_zero)"
    by (simp add: m nth_append)
qed

text \<open>A packet that asks the switch for exactly the operations of its transaction.\<close>

definition pkt_carries :: "Txn \<times> pass1_pkt \<Rightarrow> bool" where
  "pkt_carries tp \<longleftrightarrow>
     (\<forall>h \<in> set (live_hot (hot_ops_pass1 (fst tp))). reg_access (snd tp) (hot_reg h) =
        Inr (unat (reg_array_idx (snd h)), op_mode (fst h) = WRITE, op_value (fst h))) \<and>
     (\<forall>r < N_REGS. r \<notin> hot_reg ` set (live_hot (hot_ops_pass1 (fst tp))) \<longrightarrow>
        (\<exists>v. get_instr (snd tp) r = Inr \<lparr>idx_perm_mask = 0, data_be = v\<rparr>))"

definition carried :: "(Txn \<times> pass1_pkt) list \<Rightarrow> hot_op list" where
  "carried ps = concat (map (\<lambda>tp. live_hot (hot_ops_pass1 (fst tp))) ps)"

lemma carried_simps [simp]: "carried [] = []" "carried (ps @ qs) = carried ps @ carried qs"
  "carried [tp] = live_hot (hot_ops_pass1 (fst tp))"
  by (simp_all add: carried_def)

text \<open>
  The state of the loops: \<open>ks\<close> are the keys in finished packets, \<open>cur\<close> those in the packet
  under construction, all in slot \<open>s\<close> and in registers below \<open>r\<close>.
\<close>

definition gen_inv ::
  "build_cfg \<Rightarrow> StructTable \<Rightarrow> DeclusteredLayout \<Rightarrow> nat \<Rightarrow> nat \<Rightarrow> db_key list \<Rightarrow> db_key list \<Rightarrow> gen_state \<Rightarrow> bool" where
  "gen_inv cfg kvs d s r ks cur g \<longleftrightarrow>
     gen_layout g = d \<and> ops_added g = length cur \<and> length cur \<le> N_OPS \<and>
     txn_start g = seg_txn cfg kvs d True cur \<and> txn_end g = seg_txn cfg kvs d False cur \<and>
     carried (start_fill g) = map (load_op cfg kvs d True) ks \<and>
     carried (end_fill g) = map (load_op cfg kvs d False) ks \<and>
     (\<forall>tp \<in> set (start_fill g) \<union> set (end_fill g). pkt_carries tp) \<and>
     sp_max (gen_pool g) = MAX_STACKPOOL_SIZE cfg \<and>
     sp_size (gen_pool g) = 2 * HOT_TXN_PKT_BYTES * length (start_fill g) \<and>
     (\<forall>k \<in> set cur. \<exists>r' < r. r' < N_REGS \<and> rev_by_reg d r' s = Some k) \<and>
     distinct (map (\<lambda>k. unat (reg_array_id (loc_of cfg d k))) cur)"

lemma pool_size: "MAX_STACKPOOL_SIZE cfg = 2 * HOT_TXN_PKT_BYTES * (9 * SLOTS_PER_SCHED_BLOCK cfg)"
proof -
  have "(72 * n + 8 - 1) div 8 = 9 * n" for n :: nat by presburger
  then show ?thesis by (simp only: MAX_STACKPOOL_SIZE_def N_ACCEL_KEYS_def N_OPS_def N_REGS_def)
qed

lemma make_seg_txn:
  assumes "load_ready cfg kvs d" "s < SLOTS_PER_SCHED_BLOCK cfg" "pkt_shape pkt"
    "\<forall>k \<in> set cur. \<exists>r' < r. r' < N_REGS \<and> rev_by_reg d r' s = Some k"
    "distinct (map (\<lambda>k. unat (reg_array_id (loc_of cfg d k))) cur)"
  obtains pkt' where "make_txn cfg nc d (seg_txn cfg kvs d wr cur) pkt = Inr pkt'"
    "pkt_carries (seg_txn cfg kvs d wr cur, pkt')"
proof -
  let ?t = "seg_txn cfg kvs d wr cur"
  have reg: "hot_reg (load_op cfg kvs d wr k) = unat (reg_array_id (loc_of cfg d k))" for k by (simp add: load_op_def)
  have hs: "is_hot cfg d (op_id (fst h)) \<and> snd h = loc_of cfg d (op_id (fst h)) \<and> hot_reg h < N_REGS"
    if "h \<in> set (live_hot (hot_ops_pass1 ?t))" for h
  proof -
    obtain k r' where k: "h = load_op cfg kvs d wr k" "r' < N_REGS" "rev_by_reg d r' s = Some k"
      using \<open>h \<in> _\<close> assms(4) by (auto simp: seg_txn_live simp del: seg_txn_sel)
    note l = cell_location [OF assms(1) k(3) assms(2) k(2)]
    show ?thesis using l(1,2) k(1,2) by (simp add: load_op_def)
  qed
  have ds: "distinct (map hot_reg (live_hot (hot_ops_pass1 ?t)))"
    unfolding seg_txn_live using assms(5) by (simp add: reg comp_def)
  have sz: "SLOTS_PER_SCHED_BLOCK cfg dvd 128" "(block_num d + 1) * SLOTS_PER_SCHED_BLOCK cfg < 65535"
    using assms(1) by (simp_all add: load_ready_def)
  obtain pkt' where p: "make_txn_pass1 cfg nc d ?t pkt = Inr pkt'"
    "\<And>h. h \<in> set (live_hot (hot_ops_pass1 ?t)) \<Longrightarrow> reg_access pkt' (hot_reg h) =
       Inr (unat (reg_array_idx (snd h)), op_mode (fst h) = WRITE, op_value (fst h))"
    "\<And>r. r < N_REGS \<Longrightarrow> r \<notin> hot_reg ` set (live_hot (hot_ops_pass1 ?t)) \<Longrightarrow>
       \<exists>v. get_instr pkt' r = Inr \<lparr>idx_perm_mask = 0, data_be = v\<rparr>"
    by (rule make_txn_pass1_ok [OF assms(3) sz ds hs, of nc]) blast+
  show thesis
    by (rule that [of pkt']) (use p in \<open>auto simp: make_txn_def pkt_carries_def simp del: seg_txn_sel(1)\<close>)
qed

lemma gen_make_txn_ok:
  assumes "load_ready cfg kvs d" "s < SLOTS_PER_SCHED_BLOCK cfg" "\<forall>a. pkt_shape (pkt_mem a)"
    "gen_inv cfg kvs d s r ks cur g" "length (start_fill g) < 9 * SLOTS_PER_SCHED_BLOCK cfg"
  obtains g' where "gen_make_txn cfg nc pkt_mem g = Inr g'"
    "\<And>s' r'. gen_inv cfg kvs d s' r' (ks @ cur) [] g'" "length (start_fill g') = Suc (length (start_fill g))"
proof -
  note i = assms(4) [unfolded gen_inv_def]
  let ?B = "HOT_TXN_PKT_BYTES" and ?n = "length (start_fill g)"
  have cur: "\<forall>k \<in> set cur. \<exists>r' < r. r' < N_REGS \<and> rev_by_reg d r' s = Some k"
    "distinct (map (\<lambda>k. unat (reg_array_id (loc_of cfg d k))) cur)" using i by blast+
  have room: "2 * ?B * ?n + 2 * ?B \<le> MAX_STACKPOOL_SIZE cfg"
  proof -
    have "2 * ?B * Suc ?n \<le> 2 * ?B * (9 * SLOTS_PER_SCHED_BLOCK cfg)"
      using assms(5) by (intro mult_le_mono2) simp
    then show ?thesis by (simp add: pool_size)
  qed
  define a where "a = sp_size (gen_pool g)"
  define pool where "pool = (gen_pool g)\<lparr>sp_size := a + ?B\<rparr>"
  define pool' where "pool' = (gen_pool g)\<lparr>sp_size := a + ?B + ?B\<rparr>"
  have al: "StackPool_allocate (gen_pool g) ?B = Inr (a, pool)" "StackPool_allocate pool ?B = Inr (a + ?B, pool')"
    using room i by (simp_all add: StackPool_allocate_def a_def pool_def pool'_def)
  obtain ps where ps: "make_txn cfg nc d (seg_txn cfg kvs d True cur) (pkt_mem a) = Inr ps"
      "pkt_carries (seg_txn cfg kvs d True cur, ps)"
    using make_seg_txn [OF assms(1,2) spec [OF assms(3)] cur] by blast
  obtain pe where pe: "make_txn cfg nc d (seg_txn cfg kvs d False cur) (pkt_mem (a + ?B)) = Inr pe"
      "pkt_carries (seg_txn cfg kvs d False cur, pe)"
    using make_seg_txn [OF assms(1,2) spec [OF assms(3)] cur] by blast
  let ?g = "gen_fresh (g\<lparr>gen_pool := pool', start_fill := start_fill g @ [(txn_start g, ps)],
                      end_fill := end_fill g @ [(txn_end g, pe)]\<rparr>)"
  have m: "gen_make_txn cfg nc pkt_mem g = Inr ?g"
    using al ps(1) pe(1) i by (simp add: gen_make_txn_def)
  have inv: "gen_inv cfg kvs d s' r' (ks @ cur) [] ?g" for s' r'
    unfolding gen_inv_def gen_fresh_def
    using i ps(2) pe(2)
    by (simp add: seg_txn_fresh [of cfg kvs d] seg_txn_live pool'_def a_def del: seg_txn_sel(1))
  show thesis by (rule that [OF m inv]) (simp add: gen_fresh_def)
qed

lemma gen_fill_ok:
  assumes "load_ready cfg kvs d" "s < SLOTS_PER_SCHED_BLOCK cfg" "r < N_REGS" "rev_by_reg d r s = Some k"
    "gen_inv cfg kvs d s r ks cur g" "length cur < N_OPS"
  obtains g' where "gen_fill cfg kvs k g = Inr g'" "gen_inv cfg kvs d s (Suc r) ks (cur @ [k]) g'"
    "start_fill g' = start_fill g"
proof -
  note i = assms(5) [unfolded gen_inv_def]
  have at: "at_res (hot_ops_pass1 (seg_txn cfg kvs d wr cur)) (length cur) = Inr (OP_zero, TupleLocation_zero)" for wr
    using seg_txn_push(2) [OF assms(6)] assms(6) by (simp add: at_res_def)
  note fo = fill_op_ok [OF assms(1,4,2,3)]
  let ?g = "g\<lparr>gen_layout := d, ops_added := ops_added g + 1, txn_start := seg_txn cfg kvs d True (cur @ [k]),
      txn_end := seg_txn cfg kvs d False (cur @ [k])\<rparr>"
  have f: "gen_fill cfg kvs k g = Inr ?g"
    using i by (simp add: gen_fill_def at fo seg_txn_push(1) [OF assms(6)] del: seg_txn_sel(1))
  have lt: "unat (reg_array_id (loc_of cfg d k')) < r" if "k' \<in> set cur" for k'
  proof -
    obtain r' where "r' < r" "r' < N_REGS" "rev_by_reg d r' s = Some k'" using i \<open>k' \<in> set cur\<close> by blast
    then show ?thesis using cell_location(2) [OF assms(1) _ assms(2)] by simp
  qed
  have "distinct (map (\<lambda>k. unat (reg_array_id (loc_of cfg d k))) (cur @ [k]))"
    using i lt cell_location(2) [OF assms(1,4,2,3)] by force
  moreover have "\<forall>k' \<in> set (cur @ [k]). \<exists>r' < Suc r. r' < N_REGS \<and> rev_by_reg d r' s = Some k'"
  proof
    fix k' assume "k' \<in> set (cur @ [k])"
    then consider "k' \<in> set cur" | "k' = k" by auto
    then show "\<exists>r' < Suc r. r' < N_REGS \<and> rev_by_reg d r' s = Some k'"
    proof cases
      case 1
      then obtain r' where "r' < r" "r' < N_REGS" "rev_by_reg d r' s = Some k'" using i by blast
      then show ?thesis using less_SucI by blast
    next
      case 2
      then show ?thesis using assms(3,4) by blast
    qed
  qed
  ultimately have "gen_inv cfg kvs d s (Suc r) ks (cur @ [k]) ?g"
    unfolding gen_inv_def using i assms(6) by simp
  then show thesis using that f by simp
qed

lemma gen_inv_later: "gen_inv cfg kvs d s r ks cur g \<Longrightarrow> gen_inv cfg kvs d s (Suc r) ks cur g"
  unfolding gen_inv_def by (meson less_SucI)

lemma gen_reg_ok:
  assumes "load_ready cfg kvs d" "s < SLOTS_PER_SCHED_BLOCK cfg" "\<forall>a. pkt_shape (pkt_mem a)" "r < N_REGS"
    "gen_inv cfg kvs d s r ks cur g" "length cur < N_OPS" "8 * length (start_fill g) + length cur \<le> 72 * s + r"
  obtains g' ks' cur' where "gen_reg cfg nc pkt_mem kvs s r g = Inr g'" "gen_inv cfg kvs d s (Suc r) ks' cur' g'"
    "length cur' < N_OPS" "ks' @ cur' = ks @ cur @ cell_keys kvs d s r"
    "8 * length (start_fill g') + length cur' \<le> 72 * s + Suc r"
proof -
  have d: "gen_layout g = d" using assms(5) by (simp add: gen_inv_def)
  have small: "SLOTS_PER_SCHED_BLOCK cfg * block_num d + s < 2 ^ 64" and "partition_size (part_info kvs) \<noteq> 0"
    using assms(1,2) by (simp_all add: load_ready_def algebra_simps)
  then obtain l where l: "location (part_info kvs) k = Inr (l k)" for k by (force simp: location_def Let_def)
  have rl: "rev_lookup cfg d r (s + SLOTS_PER_SCHED_BLOCK cfg * block_num d) = Inr (rev_by_reg d r s)"
    using rev_lookup_slot [OF assms(4) small] by (simp add: add.commute)
  show thesis
  proof (cases "\<exists>k. rev_by_reg d r s = Some k \<and> owns kvs k")
    case False
    then have "gen_reg cfg nc pkt_mem kvs s r g = Inr g" "cell_keys kvs d s r = []"
      using rl d l by (auto simp: gen_reg_def cell_keys_def owns_def split: option.splits)
    then show thesis using that gen_inv_later [OF assms(5)] assms(6,7) by auto
  next
    case True
    then obtain k where k: "rev_by_reg d r s = Some k" "owns kvs k" by blast
    obtain h where h: "gen_fill cfg kvs k g = Inr h" "gen_inv cfg kvs d s (Suc r) ks (cur @ [k]) h"
        "start_fill h = start_fill g"
      using gen_fill_ok [OF assms(1,2,4) k(1) assms(5,6)] by blast
    have ck: "cell_keys kvs d s r = [k]" using k by (simp add: cell_keys_def)
    have ops: "ops_added h = Suc (length cur)" using h(2) by (simp add: gen_inv_def)
    have gr: "gen_reg cfg nc pkt_mem kvs s r g =
        (if ops_added h = N_OPS then gen_make_txn cfg nc pkt_mem h else ok h)"
      using rl d k l [of k] h(1) by (simp add: gen_reg_def owns_def)
    show thesis
    proof (cases "Suc (length cur) = N_OPS")
      case True
      then have "length (start_fill h) < 9 * SLOTS_PER_SCHED_BLOCK cfg"
        using assms(2,4,7) h(3) by (simp add: N_OPS_def N_REGS_def)
      then obtain g' where g': "gen_make_txn cfg nc pkt_mem h = Inr g'"
          "\<And>s' r'. gen_inv cfg kvs d s' r' (ks @ cur @ [k]) [] g'"
          "length (start_fill g') = Suc (length (start_fill g))"
        by (rule gen_make_txn_ok [OF assms(1-3) h(2)]) (use h(3) in auto)
      then show thesis
        using that [of g' "ks @ cur @ [k]" "[]"] gr ops ck True assms(7) by (simp add: N_OPS_def)
    next
      case False
      then show thesis
        using that [of h ks "cur @ [k]"] gr ops ck h assms(6,7) by simp
    qed
  qed
qed

lemma gen_regs_ok:
  assumes "load_ready cfg kvs d" "s < SLOTS_PER_SCHED_BLOCK cfg" "\<forall>a. pkt_shape (pkt_mem a)" "r \<le> N_REGS"
    "gen_inv cfg kvs d s r ks cur g" "length cur < N_OPS" "8 * length (start_fill g) + length cur \<le> 72 * s + r"
  shows "\<exists>g' ks' cur'. gen_regs cfg nc pkt_mem kvs s [r..<N_REGS] g = Inr g' \<and> gen_inv cfg kvs d s N_REGS ks' cur' g' \<and>
    length cur' < N_OPS \<and> ks' @ cur' = ks @ cur @ row_keys kvs d s [r..<N_REGS] \<and>
    8 * length (start_fill g') + length cur' \<le> 72 * s + N_REGS"
  using assms(4-7)
proof (induction "N_REGS - r" arbitrary: r ks cur g)
  case 0
  then have "r = N_REGS" by simp
  then show ?case using "0.prems" by (auto simp: row_keys_def)
next
  case (Suc x)
  then have r: "r < N_REGS" "x = N_REGS - Suc r" by simp_all
  then have u: "[r..<N_REGS] = r # [Suc r..<N_REGS]" by (simp add: upt_conv_Cons)
  obtain h ks' cur' where h: "gen_reg cfg nc pkt_mem kvs s r g = Inr h" "gen_inv cfg kvs d s (Suc r) ks' cur' h"
    "length cur' < N_OPS" "ks' @ cur' = ks @ cur @ cell_keys kvs d s r"
    "8 * length (start_fill h) + length cur' \<le> 72 * s + Suc r"
    using gen_reg_ok [OF assms(1-3) r(1) Suc.prems(2-4)] by blast
  have e: "ks' @ cur' @ row_keys kvs d s [Suc r..<N_REGS] = ks @ cur @ row_keys kvs d s [r..<N_REGS]"
    using h(4) by (simp add: u row_keys_def flip: append_assoc)
  have "gen_regs cfg nc pkt_mem kvs s [r..<N_REGS] g = gen_regs cfg nc pkt_mem kvs s [Suc r..<N_REGS] h"
    by (simp add: u h(1))
  then show ?case using Suc.hyps(1) [OF r(2) _ h(2,3,5)] r(1) e by simp
qed

lemma gen_slot_ok:
  assumes "load_ready cfg kvs d" "s < SLOTS_PER_SCHED_BLOCK cfg" "\<forall>a. pkt_shape (pkt_mem a)"
    "gen_inv cfg kvs d s 0 ks [] g" "length (start_fill g) \<le> 9 * s"
  shows "\<exists>g'. gen_slot cfg nc pkt_mem kvs s g = Inr g' \<and>
    gen_inv cfg kvs d (Suc s) 0 (ks @ row_keys kvs d s [0..<N_REGS]) [] g' \<and> length (start_fill g') \<le> 9 * Suc s"
proof -
  have pre: "0 \<le> N_REGS" "length ([] :: db_key list) < N_OPS"
    "8 * length (start_fill g) + length ([] :: db_key list) \<le> 72 * s + 0"
    using assms(5) by (simp_all add: N_OPS_def)
  obtain h ks' cur where h: "gen_regs cfg nc pkt_mem kvs s [0..<N_REGS] g = Inr h" "gen_inv cfg kvs d s N_REGS ks' cur h"
    "length cur < N_OPS" "ks' @ cur = ks @ row_keys kvs d s [0..<N_REGS]"
    "8 * length (start_fill h) + length cur \<le> 72 * s + N_REGS"
    using gen_regs_ok [OF assms(1-3) pre(1) assms(4) pre(2,3), unfolded append_Nil] by blast
  have i: "ops_added h = length cur" "txn_start h = seg_txn cfg kvs d True cur" "txn_end h = seg_txn cfg kvs d False cur"
    using h(2) by (simp_all add: gen_inv_def)
  show ?thesis
  proof (cases "cur = []")
    case True
    then have "gen_inv cfg kvs d (Suc s) 0 (ks @ row_keys kvs d s [0..<N_REGS]) [] h"
      using h(2,4) by (simp add: gen_inv_def)
    moreover have "length (start_fill h) \<le> 9 * Suc s" using h(5) by (simp add: N_REGS_def)
    ultimately show ?thesis using True h(1,3) i(1) by (simp add: gen_slot_def)
  next
    case False
    then have "length (start_fill h) < 9 * Suc s" using h(5) by (cases cur) (simp_all add: N_REGS_def)
    moreover have "9 * Suc s \<le> 9 * SLOTS_PER_SCHED_BLOCK cfg" using assms(2) by (intro mult_le_mono2) simp
    ultimately have "length (start_fill h) < 9 * SLOTS_PER_SCHED_BLOCK cfg" by (rule order_less_le_trans)
    then obtain g' where g': "gen_make_txn cfg nc pkt_mem h = Inr g'"
        "\<And>s' r'. gen_inv cfg kvs d s' r' (ks' @ cur) [] g'" "length (start_fill g') = Suc (length (start_fill h))"
      using gen_make_txn_ok [OF assms(1-3) h(2)] by blast
    have upd: "h\<lparr>txn_start := seg_txn cfg kvs d True cur, txn_end := seg_txn cfg kvs d False cur\<rparr> = h"
      by (simp flip: i(2,3))
    have "gen_slot cfg nc pkt_mem kvs s g = Inr g'"
      using h(1,3) i False g'(1) seg_txn_stop [OF h(3)] by (simp add: gen_slot_def upd)
    moreover have "length (start_fill g') \<le> 9 * Suc s"
      using g'(3) \<open>length (start_fill h) < 9 * Suc s\<close> by simp
    ultimately show ?thesis using g'(2) h(4) by simp
  qed
qed

lemma gen_slots_ok:
  assumes "load_ready cfg kvs d" "\<forall>a. pkt_shape (pkt_mem a)" "s \<le> SLOTS_PER_SCHED_BLOCK cfg"
    "gen_inv cfg kvs d s 0 ks [] g" "length (start_fill g) \<le> 9 * s"
  shows "\<exists>g'. gen_slots cfg nc pkt_mem kvs [s..<SLOTS_PER_SCHED_BLOCK cfg] g = Inr g' \<and>
    gen_inv cfg kvs d (SLOTS_PER_SCHED_BLOCK cfg) 0
      (ks @ block_keys kvs d [s..<SLOTS_PER_SCHED_BLOCK cfg]) [] g'"
  using assms(3-5)
proof (induction "SLOTS_PER_SCHED_BLOCK cfg - s" arbitrary: s ks g)
  case 0
  then have "s = SLOTS_PER_SCHED_BLOCK cfg" by simp
  then show ?case using "0.prems" by (auto simp: block_keys_def)
next
  case (Suc x)
  then have s: "s < SLOTS_PER_SCHED_BLOCK cfg" "x = SLOTS_PER_SCHED_BLOCK cfg - Suc s" by simp_all
  then have u: "[s..<SLOTS_PER_SCHED_BLOCK cfg] = s # [Suc s..<SLOTS_PER_SCHED_BLOCK cfg]" by (simp add: upt_conv_Cons)
  obtain h where h: "gen_slot cfg nc pkt_mem kvs s g = Inr h"
      "gen_inv cfg kvs d (Suc s) 0 (ks @ row_keys kvs d s [0..<N_REGS]) [] h" "length (start_fill h) \<le> 9 * Suc s"
    using gen_slot_ok [OF assms(1) s(1) assms(2) Suc.prems(2,3)] by blast
  have e: "(ks @ row_keys kvs d s [0..<N_REGS]) @ block_keys kvs d [Suc s..<SLOTS_PER_SCHED_BLOCK cfg] =
      ks @ block_keys kvs d [s..<SLOTS_PER_SCHED_BLOCK cfg]"
    by (simp add: u block_keys_def)
  have "gen_slots cfg nc pkt_mem kvs [s..<SLOTS_PER_SCHED_BLOCK cfg] g =
      gen_slots cfg nc pkt_mem kvs [Suc s..<SLOTS_PER_SCHED_BLOCK cfg] h"
    by (simp add: u h(1))
  then show ?case using Suc.hyps(1) [OF s(2) _ h(2,3)] s(1) e by simp
qed

definition empty_pool :: "build_cfg \<Rightarrow> StackPool" where
  "empty_pool cfg = \<lparr>sp_max = MAX_STACKPOOL_SIZE cfg, sp_size = 0\<rparr>"

lemma gen_start_end_ok:
  assumes "load_ready cfg kvs d" "\<forall>a. pkt_shape (pkt_mem a)"
  obtains g where "gen_start_end_packets cfg nc pkt_mem kvs (empty_pool cfg) d = Inr g"
    "gen_inv cfg kvs d (SLOTS_PER_SCHED_BLOCK cfg) 0
       (block_keys kvs d [0..<SLOTS_PER_SCHED_BLOCK cfg]) [] g"
proof -
  let ?g = "gen_init (empty_pool cfg) d"
  have "gen_inv cfg kvs d 0 0 [] [] ?g"
    by (simp add: gen_inv_def gen_init_def gen_fresh_def empty_pool_def seg_txn_fresh [of cfg kvs d])
  moreover have "length (start_fill ?g) \<le> 9 * 0" by (simp add: gen_init_def gen_fresh_def)
  ultimately show thesis
    using gen_slots_ok [OF assms, of 0 "[]" ?g nc] that by (auto simp: gen_start_end_packets_def)
qed

text \<open>The keys of the block: each accelerated key the node owns, once.\<close>

lemma cell_keys_mem: "k \<in> set (cell_keys kvs d s r) \<longleftrightarrow> rev_by_reg d r s = Some k \<and> owns kvs k"
  by (auto simp: cell_keys_def split: option.splits)

lemma block_keys_mem:
  "k \<in> set (block_keys kvs d ss) \<longleftrightarrow> owns kvs k \<and> (\<exists>s \<in> set ss. \<exists>r < N_REGS. rev_by_reg d r s = Some k)"
  by (simp add: block_keys_def row_keys_def cell_keys_mem Bex_def) blast

lemma distinct_concat_map:
  assumes "distinct xs" "\<forall>x \<in> set xs. distinct (f x)"
    "\<forall>x \<in> set xs. \<forall>y \<in> set xs. x \<noteq> y \<longrightarrow> set (f x) \<inter> set (f y) = {}"
  shows "distinct (concat (map f xs))"
  using assms
proof (induction xs)
  case (Cons x xs)
  then have "set (f x) \<inter> set (concat (map f xs)) = {}" by force
  then show ?case using Cons by auto
qed simp

lemma block_keys_distinct:
  assumes "layout_wf d" "distinct ss"
  shows "distinct (block_keys kvs d ss)"
proof -
  have same: "r = r' \<and> s = s'" if "rev_by_reg d r s = Some k" "rev_by_reg d r' s' = Some k" for r s r' s' k
  proof -
    have "layout_fwd d k = Some (r, s)" "layout_fwd d k = Some (r', s')"
      using layout.inverse [OF assms(1)] that by (simp_all add: layout_bwd_def)
    then show ?thesis by simp
  qed
  have "distinct (cell_keys kvs d s r)" for s r by (simp add: cell_keys_def split: option.splits)
  moreover have "set (cell_keys kvs d s r) \<inter> set (cell_keys kvs d s r') = {}" if "r \<noteq> r'" for s r r'
    using same \<open>r \<noteq> r'\<close> by (auto simp: cell_keys_mem)
  ultimately have "distinct (row_keys kvs d s [0..<N_REGS])" for s
    unfolding row_keys_def by (intro distinct_concat_map) auto
  moreover have "set (row_keys kvs d s rs) \<inter> set (row_keys kvs d s' rs) = {}" if "s \<noteq> s'" for s s' rs
    using same \<open>s \<noteq> s'\<close> by (auto simp: row_keys_def cell_keys_mem)
  ultimately show ?thesis
    unfolding block_keys_def using assms(2) by (intro distinct_concat_map) auto
qed

lemma block_keys_set:
  assumes "load_ready cfg kvs d"
  shows "set (block_keys kvs d [0..<SLOTS_PER_SCHED_BLOCK cfg]) =
    {k. owns kvs k \<and> k \<in> dom (virt_map d) \<and> is_hot cfg d k}"
proof -
  have wf: "layout_wf d" using assms by (simp add: load_ready_def)
  have "(\<exists>s < SLOTS_PER_SCHED_BLOCK cfg. \<exists>r < N_REGS. rev_by_reg d r s = Some k) \<longleftrightarrow>
      k \<in> dom (virt_map d) \<and> is_hot cfg d k" for k
  proof
    assume "\<exists>s < SLOTS_PER_SCHED_BLOCK cfg. \<exists>r < N_REGS. rev_by_reg d r s = Some k"
    then obtain s r where c: "s < SLOTS_PER_SCHED_BLOCK cfg" "r < N_REGS" "rev_by_reg d r s = Some k" by blast
    then have "layout_fwd d k = Some (r, s)" using layout.inverse [OF wf] by (simp add: layout_bwd_def)
    then show "k \<in> dom (virt_map d) \<and> is_hot cfg d k"
      using cell_location(1) [OF assms c(3,1,2)] by (auto simp: layout_fwd_def)
  next
    assume k: "k \<in> dom (virt_map d) \<and> is_hot cfg d k"
    then obtain loc where loc: "virt_map d k = Some loc" by blast
    then have "layout_fwd d k = Some (unat (reg_array_id loc), unat (reg_array_idx loc))" by (simp add: layout_fwd_def)
    then have "rev_by_reg d (unat (reg_array_id loc)) (unat (reg_array_idx loc)) = Some k"
      using layout.roundtrip [OF wf] by (force simp: layout_bwd_def)
    moreover have "unat (reg_array_idx loc) < SLOTS_PER_SCHED_BLOCK cfg"
      using k get_location_known [OF loc, of cfg] by (simp add: is_hot_def)
    moreover have "unat (reg_array_id loc) < N_REGS" using layout_wf_regs [OF wf] loc by (simp add: layout_regs_def)
    ultimately show "\<exists>s < SLOTS_PER_SCHED_BLOCK cfg. \<exists>r < N_REGS. rev_by_reg d r s = Some k" by blast
  qed
  moreover have "(\<exists>s \<in> set [0..<SLOTS_PER_SCHED_BLOCK cfg]. \<exists>r < N_REGS. rev_by_reg d r s = Some k) \<longleftrightarrow>
      (\<exists>s < SLOTS_PER_SCHED_BLOCK cfg. \<exists>r < N_REGS. rev_by_reg d r s = Some k)" for k
    by (simp add: Bex_def)
  ultimately show ?thesis by (intro set_eqI) (simp only: block_keys_mem mem_Collect_eq)
qed


lemma demo_load_ready:
  obtains d where "DeclusteredLayout_mk layout_demo_cfg sched_demo_freq = Inr d"
    "load_ready layout_demo_cfg txn_demo_table (d\<lparr>block_num := 5\<rparr>)"
proof -
  obtain d where d: "DeclusteredLayout_mk layout_demo_cfg sched_demo_freq = Inr d" "layout_wf d"
    by (rule sched_demo_layout)
  let ?d = "d\<lparr>block_num := 5\<rparr>"
  have dm: "dom (virt_map d) = fst ` set sched_demo_freq"
    by (rule layout_mk_wf(2) [OF d(1)]) (simp_all add: sched_demo_freq_def comp_def)
  have wf: "layout_wf ?d" using d(2) by (simp add: layout_wf_def)
  have "k < 80" if "rev_by_reg d r s = Some k" for r s k
  proof -
    have "layout_fwd d k = Some (r, s)" using layout.inverse [OF d(2)] that by (simp add: layout_bwd_def)
    then have "k \<in> dom (virt_map d)" by (auto simp: layout_fwd_def)
    then show ?thesis unfolding dm by (auto simp: sched_demo_freq_def)
  qed
  then have "load_ready layout_demo_cfg txn_demo_table ?d"
    using wf by (simp add: load_ready_def layout_demo_cfg_def txn_demo_table_def table_wf_def)
  then show thesis using that d(1) by blast
qed

lemma demo_pkt_shape: "pkt_shape switch_demo_pkt"
  by (simp add: pkt_shape_def switch_demo_pkt_def)


section \<open>All nodes in step\<close>

text \<open>A batch as the workers leave it in the queue: mini-batch numbers that never go down, none
  before the last hot period's and none at or after the next mini-batch.\<close>

definition batch_queued :: "hot_send_q \<Rightarrow> (nat \<times> nat \<times> nat) list \<Rightarrow> nat \<Rightarrow> nat \<Rightarrow> bool" where
  "batch_queued hsq rs past exec_mb \<longleftrightarrow> send_q_holds hsq rs \<and> sorted (map fst rs) \<and>
     (\<forall>r \<in> set rs. past \<le> fst r \<and> fst r < exec_mb)"

lemma batch_mb_at:
  assumes "send_q_holds hsq rs" "i < length rs"
  shows "mb_at (send_q hsq) junk i = Inr (fst (rs ! i))"
  using assms by (simp add: send_q_holds_def mb_at_def at_res_lt)

lemma batch_mbs_ok:
  assumes "batch_queued hsq rs past exec_mb" "length rs < send_q_capacity hsq"
  shows "mbs_ok (send_q hsq) junk (length rs) (\<lambda>i. fst (rs ! i))"
proof -
  have h: "send_q_holds hsq rs" and srt: "sorted (map fst rs)" using assms(1) by (simp_all add: batch_queued_def)
  have "fst (rs ! i) \<le> fst (rs ! j)" if "i \<le> j" "j < length rs" for i j
    using sorted_nth_mono [OF srt that(1)] that by simp
  moreover have "length rs < length (send_q hsq)" using h assms(2) by (simp add: send_q_holds_def)
  ultimately show ?thesis using batch_mb_at [OF h] by (simp add: mbs_ok_def)
qed

lemma hot_period_run:
  assumes "load_ready cfg kvs d" "\<forall>a. pkt_shape (pkt_mem a)"
    "batch_queued hsq rs past exec_mb" "rs \<noteq> []" "length rs < send_q_capacity hsq"
  shows "\<exists>evs. run_hot_period cfg nc pkt_mem kvs (empty_pool cfg) d hsq junk past exec_mb =
      Inr (evs, exec_mb, empty_pool cfg, d) \<and>
    n_barriers evs = 2 + (exec_mb - past) \<and> hot_sent evs = [0..<length rs] \<and>
    (\<forall>i < length rs. barriers_before i evs = 1 + (fst (rs ! i) - past))"
proof -
  obtain g where g: "gen_start_end_packets cfg nc pkt_mem kvs (empty_pool cfg) d = Inr g"
      "gen_inv cfg kvs d (SLOTS_PER_SCHED_BLOCK cfg) 0 (block_keys kvs d [0..<SLOTS_PER_SCHED_BLOCK cfg]) [] g"
    using gen_start_end_ok [OF assms(1,2)] by blast
  then have gl: "gen_layout g = d" "StackPool_clear (gen_pool g) = empty_pool cfg"
    by (simp_all add: gen_inv_def StackPool_clear_def empty_pool_def)
  let ?n = "length rs" and ?f = "\<lambda>i. fst (rs ! i)"
  have n: "0 < ?n" using assms(4) by simp
  have h: "send_q_holds hsq rs" using assms(3) by (simp add: batch_queued_def)
  then have tail: "send_q_tail hsq = ?n" by (simp add: send_q_holds_def)
  have b: "past \<le> ?f i" "?f i < exec_mb" if "i < ?n" for i
    using assms(3) nth_mem [OF that] by (auto simp: batch_queued_def)
  then have bnd: "\<forall>i < ?n. ?f i < exec_mb" by blast
  obtain evs where evs: "send_windows (send_q hsq) junk ?n exec_mb 0 = Inr evs" "hot_sent evs = [0..<?n]"
      "n_barriers evs = exec_mb - ?f 0" "\<forall>i. 0 \<le> i \<longrightarrow> i < ?n \<longrightarrow> barriers_before i evs = ?f i - ?f 0"
    using send_windows_ok [OF batch_mbs_ok [OF assms(3,5), of junk] bnd n] by (elim exE conjE)
  have pre: "pre_barriers (send_q hsq) junk ?n past = Inr (replicate (?f 0 - past) EvBarrier)"
    using n batch_mb_at [OF h n] by (simp add: pre_barriers_def)
  let ?S = "map (\<lambda>(t, p). EvStart p) (start_fill g)" and ?E = "map (\<lambda>(t, p). EvEnd p) (end_fill g)"
  let ?evs = "?S @ [EvBarrier] @ replicate (?f 0 - past) EvBarrier @ evs @ ?E @ [EvBarrier]"
  have run: "run_hot_period cfg nc pkt_mem kvs (empty_pool cfg) d hsq junk past exec_mb =
      Inr (?evs, exec_mb, empty_pool cfg, d)"
    using g(1) pre evs(1) gl by (simp add: run_hot_period_def tail)
  have "barriers_before i ?evs = 1 + (?f i - past)" if i: "i < ?n" for i
  proof -
    have "EvHot i \<notin> set (?S @ [EvBarrier] @ replicate (?f 0 - past) EvBarrier)" by auto
    from before_skip [OF this, of "evs @ ?E @ [EvBarrier]"]
    have "barriers_before i ?evs = 1 + (?f 0 - past) + barriers_before i (evs @ ?E @ [EvBarrier])" by simp
    moreover have "i \<in> set (hot_sent evs)" using evs(2) i by simp
    then have "EvHot i \<in> set evs" by (auto simp: hot_sent_def split: hot_event.splits)
    then have "barriers_before i (evs @ ?E @ [EvBarrier]) = barriers_before i evs"
      unfolding barriers_before_def by (subst takeWhile_append1 [where x = "EvHot i"]) simp_all
    moreover have "?f 0 \<le> ?f i" using batch_mbs_ok [OF assms(3,5)] i by (simp add: mbs_ok_def)
    ultimately show ?thesis using evs(4) i b(1) [OF n] by simp
  qed
  moreover have "n_barriers ?evs = 2 + (exec_mb - past)" using evs(3) b [OF n] by simp
  moreover have "hot_sent ?evs = [0..<?n]" using evs(2) by simp
  ultimately show ?thesis using run by blast
qed

text \<open>
  C5. All nodes in step. Whatever packets a node has in its (non-empty) queue and however they fall
  into windows of 200, its hot period passes two barriers more than there are mini-batches since
  the last hot period; it sends every packet of the queue once, in order; and a packet of
  mini-batch m after exactly one barrier for the start and one for each mini-batch before m. Two
  nodes of one tenant therefore pass the same number of barriers, and between two barriers all of
  them send packets of the same mini-batch. The packet buffers are free again at the end.
\<close>

theorem hot_period_in_step:
  assumes "load_ready cfg kvs d" "\<forall>a. pkt_shape (pkt_mem a)"
    "batch_queued hsq rs past exec_mb" "rs \<noteq> []" "length rs < send_q_capacity hsq"
  shows "\<exists>evs. run_hot_period cfg nc pkt_mem kvs (empty_pool cfg) d hsq junk past exec_mb =
      Inr (evs, exec_mb, empty_pool cfg, d) \<and>
    n_barriers evs = 2 + (exec_mb - past) \<and> hot_sent evs = [0..<length rs] \<and>
    (\<forall>i < length rs. barriers_before i evs = 1 + (fst (rs ! i) - past))"
  by (rule hot_period_run [OF assms])

lemma demo_batch:
  obtains hsq where "alloc_slots (hot_send_q_mk 4) [(2, 0, 0), (2, 1, 0), (4, 0, 1)] = Inr ([0, 440, 880], hsq)"
    "batch_queued hsq [(2, 0, 0), (2, 1, 0), (4, 0, 1)] 1 6" "send_q_capacity hsq = 4"
proof -
  let ?rs = "[(2, 0, 0), (2, 1, 0), (4, 0, 1)] :: (nat \<times> nat \<times> nat) list"
  have "length ([] :: (nat \<times> nat \<times> nat) list) + length ?rs < send_q_capacity (hot_send_q_mk 4) \<or> ?rs = []"
    by (simp add: hot_send_q_mk_def)
  from alloc_slots_holds [OF send_q_holds_mk this] obtain q where
    "alloc_slots (hot_send_q_mk 4) ?rs = Inr ([0, 440, 880], q)" "send_q_holds q ?rs" "send_q_capacity q = 4"
    by (auto simp: HOT_TXN_PKT_BYTES_val upt_rec hot_send_q_mk_def)
  then show thesis using that by (simp add: batch_queued_def)
qed

theorem hot_period_in_step_witness:
  "\<exists>d hsq evs. DeclusteredLayout_mk layout_demo_cfg sched_demo_freq = Inr d \<and>
     alloc_slots (hot_send_q_mk 4) [(2, 0, 0), (2, 1, 0), (4, 0, 1)] = Inr ([0, 440, 880], hsq) \<and>
     run_hot_period layout_demo_cfg \<lparr>switch_mac = [], node_mac = [], p4db_ether_type = 1\<rparr> (\<lambda>_. switch_demo_pkt)
       txn_demo_table (empty_pool layout_demo_cfg) (d\<lparr>block_num := 5\<rparr>) hsq (\<lambda>_. 0) 1 6 =
       Inr (evs, 6, empty_pool layout_demo_cfg, d\<lparr>block_num := 5\<rparr>) \<and>
     n_barriers evs = 7 \<and> barriers_before 0 evs = 2 \<and> barriers_before 2 evs = 4"
proof -
  let ?nc = "\<lparr>switch_mac = [], node_mac = [], p4db_ether_type = 1\<rparr>"
  obtain d where d: "DeclusteredLayout_mk layout_demo_cfg sched_demo_freq = Inr d"
    "load_ready layout_demo_cfg txn_demo_table (d\<lparr>block_num := 5\<rparr>)"
    by (rule demo_load_ready)
  obtain hsq where q: "alloc_slots (hot_send_q_mk 4) [(2, 0, 0), (2, 1, 0), (4, 0, 1)] = Inr ([0, 440, 880], hsq)"
    "batch_queued hsq [(2, 0, 0), (2, 1, 0), (4, 0, 1)] 1 6" "send_q_capacity hsq = 4"
    by (rule demo_batch)
  have sh: "\<forall>a :: nat. pkt_shape switch_demo_pkt" by (simp add: demo_pkt_shape)
  obtain evs where e: "run_hot_period layout_demo_cfg ?nc (\<lambda>_. switch_demo_pkt)
       txn_demo_table (empty_pool layout_demo_cfg) (d\<lparr>block_num := 5\<rparr>) hsq (\<lambda>_. 0) 1 6 =
       Inr (evs, 6, empty_pool layout_demo_cfg, d\<lparr>block_num := 5\<rparr>)" "n_barriers evs = 2 + (6 - 1)"
      "\<forall>i < length [(2, 0, 0), (2, 1, 0), (4 :: nat, 0, 1 :: nat)]. barriers_before i evs =
         1 + (fst ([(2, 0, 0), (2, 1, 0), (4, 0 :: nat, 1 :: nat)] ! i) - 1)"
    using hot_period_in_step [OF d(2) sh q(2), of ?nc "\<lambda>_. 0"] q(3) by auto
  have "barriers_before 0 evs = 2" "barriers_before 2 evs = 4"
    using e(3) [rule_format, of 0] e(3) [rule_format, of 2] by simp_all
  then show ?thesis using d(1) q(1) e(1,2) by auto
qed

text \<open>
  C28. A node without switch packets falls out of step. When the queue of one node is empty, the
  test \<open>q_size > 0 || q[0].mini_batch_num > past_mb_num\<close> reads a stale first entry; unless that
  entry happens to hold the current mini-batch number, the node passes fewer barriers than a node
  of the same tenant that has packets, which is then left waiting.
\<close>

theorem hot_period_empty_queue:
  assumes "load_ready cfg kvs d" "\<forall>a. pkt_shape (pkt_mem a)"
    "batch_queued hsq rs past exec_mb" "rs \<noteq> []" "length rs < send_q_capacity hsq"
    "load_ready cfg kvs' d'" "\<forall>a. pkt_shape (pkt_mem' a)" "send_q_holds hsq' []"
    "mb_at (send_q hsq') junk' 0 = Inr stale" "stale < exec_mb"
  shows "\<exists>evs evs'.
    run_hot_period cfg nc pkt_mem kvs (empty_pool cfg) d hsq junk past exec_mb = Inr (evs, exec_mb, empty_pool cfg, d) \<and>
    run_hot_period cfg nc' pkt_mem' kvs' (empty_pool cfg) d' hsq' junk' past exec_mb = Inr (evs', exec_mb, empty_pool cfg, d') \<and>
    n_barriers evs' = 2 + (stale - past) \<and> n_barriers evs' < n_barriers evs"
proof -
  obtain evs where e: "run_hot_period cfg nc pkt_mem kvs (empty_pool cfg) d hsq junk past exec_mb =
      Inr (evs, exec_mb, empty_pool cfg, d)" "n_barriers evs = 2 + (exec_mb - past)"
    using hot_period_run [OF assms(1-5)] by blast
  obtain g where g: "gen_start_end_packets cfg nc' pkt_mem' kvs' (empty_pool cfg) d' = Inr g"
      "gen_inv cfg kvs' d' (SLOTS_PER_SCHED_BLOCK cfg) 0 (block_keys kvs' d' [0..<SLOTS_PER_SCHED_BLOCK cfg]) [] g"
    using gen_start_end_ok [OF assms(6,7)] by blast
  then have gl: "gen_layout g = d'" "StackPool_clear (gen_pool g) = empty_pool cfg"
    by (simp_all add: gen_inv_def StackPool_clear_def empty_pool_def)
  have pre: "pre_barriers (send_q hsq') junk' 0 past = Inr (replicate (stale - past) EvBarrier)"
    using assms(9) by (simp add: pre_barriers_def)
  have tail: "send_q_tail hsq' = 0" using assms(8) by (simp add: send_q_holds_def)
  have win: "send_windows (send_q hsq') junk' 0 exec_mb 0 = Inr []" by (simp add: send_windows.simps)
  let ?evs = "map (\<lambda>(t, p). EvStart p) (start_fill g) @ [EvBarrier] @ replicate (stale - past) EvBarrier @ [] @
    map (\<lambda>(t, p). EvEnd p) (end_fill g) @ [EvBarrier]"
  have run: "run_hot_period cfg nc' pkt_mem' kvs' (empty_pool cfg) d' hsq' junk' past exec_mb =
      Inr (?evs, exec_mb, empty_pool cfg, d')"
    using g(1) pre win gl by (simp add: run_hot_period_def tail)
  have n: "n_barriers ?evs = 2 + (stale - past)" by simp
  have "past < exec_mb" using assms(3,4) by (cases rs) (auto simp: batch_queued_def)
  then have "2 + (stale - past) < n_barriers evs" using e(2) assms(10) by simp
  then show ?thesis using e(1) run n by (metis (no_types, lifting))
qed

theorem hot_period_empty_queue_witness:
  "\<exists>d hsq evs evs'. alloc_slots (hot_send_q_mk 4) [(2, 0, 0), (2, 1, 0), (4, 0, 1)] = Inr ([0, 440, 880], hsq) \<and>
     run_hot_period layout_demo_cfg \<lparr>switch_mac = [], node_mac = [], p4db_ether_type = 1\<rparr> (\<lambda>_. switch_demo_pkt)
       txn_demo_table (empty_pool layout_demo_cfg) d hsq (\<lambda>_. 0) 1 6 =
       Inr (evs, 6, empty_pool layout_demo_cfg, d) \<and>
     run_hot_period layout_demo_cfg \<lparr>switch_mac = [], node_mac = [], p4db_ether_type = 1\<rparr> (\<lambda>_. switch_demo_pkt)
       txn_demo_table (empty_pool layout_demo_cfg) d (hot_send_q_mk 4) (\<lambda>_. 0) 1 6 =
       Inr (evs', 6, empty_pool layout_demo_cfg, d) \<and> n_barriers evs' = 2 \<and> n_barriers evs' < n_barriers evs"
proof -
  let ?nc = "\<lparr>switch_mac = [], node_mac = [], p4db_ether_type = 1\<rparr>"
  obtain d where d: "load_ready layout_demo_cfg txn_demo_table (d\<lparr>block_num := 5\<rparr>)"
    by (rule demo_load_ready)
  obtain hsq where q: "alloc_slots (hot_send_q_mk 4) [(2, 0, 0), (2, 1, 0), (4, 0, 1)] = Inr ([0, 440, 880], hsq)"
    "batch_queued hsq [(2, 0, 0), (2, 1, 0), (4, 0, 1)] 1 6" "send_q_capacity hsq = 4"
    by (rule demo_batch)
  have sh: "\<forall>a :: nat. pkt_shape switch_demo_pkt" by (simp add: demo_pkt_shape)
  have ne: "[(2, 0, 0), (2, 1, 0), (4, 0, 1)] \<noteq> ([] :: (nat \<times> nat \<times> nat) list)"
    "length ([(2, 0, 0), (2, 1, 0), (4, 0, 1)] :: (nat \<times> nat \<times> nat) list) < send_q_capacity hsq"
    "mb_at (send_q (hot_send_q_mk 4)) (\<lambda>_. 0) 0 = Inr 0" "(0 :: nat) < 6"
    using q(3) by (simp_all add: hot_send_q_mk_def mb_at_def at_res_def)
  from hot_period_empty_queue [OF d sh q(2) ne(1,2) d sh send_q_holds_mk ne(3,4), of ?nc "\<lambda>_. 0" ?nc] q(1)
  show ?thesis by auto
qed

end
