(* ===== verification/P4_Batch.thy ===== *)
theory P4_Batch
  imports P4_Leftover P4_HotPeriod
begin

text \<open>
  The batch loop of a worker (\<open>txn_executor\<close> and \<open>orig_txn_executor\<close> of \<open>ee/executor.cpp\<close>): schedule a
  batch, run its mini-batches between barriers of the workers, drain what is left over into a last
  mini-batch, send the packets, and run the leftover transactions on the host.
\<close>

section \<open>The loops\<close>

definition next_mb :: "sys \<Rightarrow> sys" where
  "next_mb = upd_exec (\<lambda>x. x\<lparr>mb_num := mb_num x + 1\<rparr>)"

text \<open>One mini-batch: at most \<open>mini_batch_tgt\<close> transactions from the front of a queue.\<close>

primrec mb_run :: "build_cfg \<Rightarrow> nat \<Rightarrow> nat \<Rightarrow> nat list \<Rightarrow> sys \<Rightarrow> (nat list \<times> sys) result" where
  "mb_run cfg nid 0 q st = ok (q, st)"
| "mb_run cfg nid (Suc n) q st =
     (if q = [] then ok (q, st) else bind_res (run_txn cfg nid True q st) (\<lambda>(q, st). mb_run cfg nid n q st))"

text \<open>The mini-batches of a batch; the last component counts the barriers of the workers passed.\<close>

primrec mb_loop :: "build_cfg \<Rightarrow> nat \<Rightarrow> nat \<Rightarrow> scheduler \<Rightarrow> sys \<Rightarrow> (scheduler \<times> sys \<times> nat) result" where
  "mb_loop cfg tgt 0 sc st = ok (sc, st, 0)"
| "mb_loop cfg tgt (Suc k) sc st =
     (if n_queues sc = 0 then fail DivisionByZero
      else let j = (mb_num (exec st) - 1) mod n_queues sc in
        bind_res (at_res (mb_queues sc) j) (\<lambda>q.
        bind_res (mb_run cfg (sc_node_id sc) tgt q st) (\<lambda>(q, st).
        bind_res (mb_loop cfg tgt k (sc\<lparr>mb_queues := (mb_queues sc)[j := q]\<rparr>) (next_mb st)) (\<lambda>(sc, st, bars).
        ok (sc, st, bars + 1)))))"

text \<open>Draining a queue: without \<open>enqueue_aborts\<close> a transaction never comes back.\<close>

lemma run_txn_drain: "run_txn cfg nid False q st = Inr (q', st') \<Longrightarrow> q \<noteq> [] \<and> q' = tl q"
  by (auto simp: run_txn_def Let_def res_elims split: list.splits if_splits RC.splits option.splits)
    (metis RC.exhaust)+

function drain_queue :: "build_cfg \<Rightarrow> nat \<Rightarrow> nat list \<Rightarrow> sys \<Rightarrow> sys result" where
  "drain_queue cfg nid q st =
     (if q = [] then ok st else bind_res (run_txn cfg nid False q st) (\<lambda>(q, st). drain_queue cfg nid q st))"
  by auto
termination drain_queue
  by (relation "measure (\<lambda>(cfg, nid, q, st). length q)") (auto dest: run_txn_drain)

declare drain_queue.simps [simp del]

primrec drain_queues :: "build_cfg \<Rightarrow> nat list \<Rightarrow> scheduler \<Rightarrow> sys \<Rightarrow> (scheduler \<times> sys) result" where
  "drain_queues cfg [] sc st = ok (sc, st)"
| "drain_queues cfg (qn # qns) sc st =
     bind_res (at_res (mb_queues sc) qn) (\<lambda>q.
     bind_res (drain_queue cfg (sc_node_id sc) q st) (\<lambda>st.
     drain_queues cfg qns (sc\<lparr>mb_queues := (mb_queues sc)[qn := []]\<rparr>) st))"

text \<open>A batch up to the hot period, for the transactions from position \<open>i\<close> on.\<close>

definition batch_cold ::
  "build_cfg \<Rightarrow> nat \<Rightarrow> nat \<Rightarrow> nat \<Rightarrow> scheduler \<Rightarrow> sys \<Rightarrow> (scheduler \<times> sys \<times> nat) result" where
  "batch_cold cfg batch_tgt mini_batch_tgt i sc st =
     bind_res (my_node st) (\<lambda>nd.
     bind_res (at_res (tables nd) (kvs (exec st))) (\<lambda>tbl.
     bind_res (sched_batch cfg tbl sc (sys_layout st) (my_txns st) i (i + batch_tgt)) (\<lambda>(sc, d, txns).
     bind_res (mb_loop cfg mini_batch_tgt (BATCH_SIZE_TGT div MINI_BATCH_SIZE_TGT) sc
         (st\<lparr>my_txns := txns, sys_layout := d\<rparr>)) (\<lambda>(sc, st, bars).
     bind_res (drain_queues cfg [0..<n_queues sc] sc st) (\<lambda>(sc, st).
     ok (sc, next_mb st, bars + 1))))))"

text \<open>The leader's part: the hot period, the block \<open>blk\<close> that the scheduler grants next, and the queue of packets
  given back.\<close>

definition batch_hot ::
  "build_cfg \<Rightarrow> (nat \<Rightarrow> pass1_pkt) \<Rightarrow> StackPool \<Rightarrow> (nat \<Rightarrow> nat) \<Rightarrow> nat \<Rightarrow> nat \<Rightarrow> sys \<Rightarrow>
   (hot_event list \<times> nat \<times> StackPool \<times> sys) result" where
  "batch_hot cfg pkt_mem pool junk past_mb_num blk st =
     bind_res (my_node st) (\<lambda>nd.
     bind_res (at_res (tables nd) (kvs (exec st))) (\<lambda>tbl.
     bind_res (run_hot_period cfg (sys_net st) pkt_mem tbl pool (sys_layout st) (send_queue st) junk past_mb_num
         (mb_num (exec st))) (\<lambda>(evs, past_mb_num, pool, d).
     ok (evs, past_mb_num, pool,
         st\<lparr>sys_layout := d\<lparr>block_num := blk\<rparr>, send_queue := done_sending (send_queue st)\<rparr>))))"

text \<open>What every worker runs inside the barrier at the end of the batch.\<close>

definition single_db_section :: "build_cfg \<Rightarrow> (nat \<Rightarrow> surroundings) \<Rightarrow> sys \<Rightarrow> sys result option" where
  "single_db_section cfg en st =
     map_option (\<lambda>r. bind_res r (\<lambda>st. bind_res (assert_res (send_q_tail (send_queue st) = 0)) (\<lambda>_. ok st)))
       (run_leftover_txns cfg en st)"

text \<open>
  The whole worker. Thread 0 leads; to the others the effects of the leader on the shared layout and queue are
  the same. \<open>en b\<close> are the surroundings of the leftover transactions of batch \<open>b\<close>, \<open>blks b\<close> the block of the switch granted
  after it. \<open>None\<close> stands for a run that never ends.
\<close>

definition batch_lead ::
  "build_cfg \<Rightarrow> (nat \<Rightarrow> pass1_pkt) \<Rightarrow> StackPool \<Rightarrow> (nat \<Rightarrow> nat) \<Rightarrow> nat \<Rightarrow> nat \<Rightarrow> sys \<Rightarrow>
   (hot_event list \<times> nat \<times> StackPool \<times> sys) result" where
  "batch_lead cfg pkt_mem pool junk past_mb_num blk st =
     (if ex_tid (exec st) = 0 then batch_hot cfg pkt_mem pool junk past_mb_num blk st
      else ok ([], past_mb_num, pool, st\<lparr>sys_layout := (sys_layout st)\<lparr>block_num := blk\<rparr>,
             send_queue := done_sending (send_queue st)\<rparr>))"

primrec batch_loop ::
  "build_cfg \<Rightarrow> nat \<Rightarrow> nat \<Rightarrow> (nat \<Rightarrow> pass1_pkt) \<Rightarrow> (nat \<Rightarrow> nat) \<Rightarrow> (nat \<Rightarrow> nat) \<Rightarrow> (nat \<Rightarrow> nat \<Rightarrow> surroundings) \<Rightarrow>
   nat list \<Rightarrow> scheduler \<Rightarrow> nat \<Rightarrow> StackPool \<Rightarrow> sys \<Rightarrow> (nat \<times> sys) result option" where
  "batch_loop cfg tgt mini pkt_mem junk blks en [] sc past pool st = Some (ok (past, st))"
| "batch_loop cfg tgt mini pkt_mem junk blks en (b # bs) sc past pool st =
     (case bind_res (batch_cold cfg tgt mini (b * tgt) sc st) (\<lambda>(sc, st, bars).
           bind_res (batch_lead cfg pkt_mem pool junk past (blks b) st) (\<lambda>(evs, past, pool, st). ok (sc, past, pool, st))) of
        Inl e \<Rightarrow> Some (fail e)
      | Inr (sc, past, pool, st) \<Rightarrow>
          (case single_db_section cfg (en b) st of
             None \<Rightarrow> None
           | Some (Inl e) \<Rightarrow> Some (fail e)
           | Some (Inr st) \<Rightarrow> batch_loop cfg tgt mini pkt_mem junk blks en bs sc past pool st))"

definition trim :: "nat \<Rightarrow> 'a list \<Rightarrow> 'a list" where
  "trim batch_tgt txns = take (length txns div batch_tgt * batch_tgt) txns"

definition txn_executor ::
  "build_cfg \<Rightarrow> config \<Rightarrow> (nat \<Rightarrow> pass1_pkt) \<Rightarrow> (nat \<Rightarrow> nat) \<Rightarrow> (nat \<Rightarrow> nat) \<Rightarrow> (nat \<Rightarrow> nat \<Rightarrow> surroundings) \<Rightarrow>
   sys \<Rightarrow> (nat \<times> sys) result option" where
  "txn_executor cfg config pkt_mem junk blks en st =
     (if num_txn_workers config = 0 \<or> BATCH_SIZE_TGT div num_txn_workers config = 0 then Some (fail DivisionByZero)
      else let tgt = BATCH_SIZE_TGT div num_txn_workers config; mini = MINI_BATCH_SIZE_TGT div num_txn_workers config;
               txns = trim tgt (my_txns st) in
        batch_loop cfg tgt mini pkt_mem junk blks en [0..<length txns div tgt] (scheduler_mk config) 1
          \<lparr>sp_max = MAX_STACKPOOL_SIZE cfg, sp_size = 0\<rparr> (upd_exec (\<lambda>x. x\<lparr>mb_num := 1\<rparr>) (st\<lparr>my_txns := txns\<rparr>)))"

section \<open>The worker of the original system\<close>

text \<open>\<open>en i\<close> are the surroundings of the \<open>i\<close>th call of \<open>execute\<close>.\<close>

primrec orig_loop :: "build_cfg \<Rightarrow> StructTable \<Rightarrow> (nat \<Rightarrow> surroundings) \<Rightarrow> nat list \<Rightarrow> sys \<Rightarrow> sys result" where
  "orig_loop cfg tbl en [] st = ok st"
| "orig_loop cfg tbl en (i # is) st =
     bind_res (at_res (my_txns st) i) (\<lambda>t.
     bind_res (extract_hot_cold cfg tbl t (sys_layout st)) (\<lambda>(t, d).
     bind_res (assert_res (init_done t)) (\<lambda>_.
     bind_res (execute cfg (en i) (set_txn (st\<lparr>sys_layout := d\<rparr>) i t) i) (\<lambda>(rc, st).
     orig_loop cfg tbl en is
       (if rc = ROLLBACK then upd_exec (\<lambda>x. x\<lparr>leftover_txns := leftover_txns x @ [i]\<rparr>) st else st)))))"

definition orig_txn_executor ::
  "build_cfg \<Rightarrow> config \<Rightarrow> (nat \<Rightarrow> surroundings) \<Rightarrow> sys \<Rightarrow> sys result option" where
  "orig_txn_executor cfg config en st =
     (if num_txn_workers config = 0 \<or> BATCH_SIZE_TGT div num_txn_workers config = 0 then Some (fail DivisionByZero)
      else let st = st\<lparr>my_txns := trim (BATCH_SIZE_TGT div num_txn_workers config) (my_txns st)\<rparr> in
        (case bind_res (my_node st) (\<lambda>nd.
              bind_res (at_res (tables nd) (kvs (exec st))) (\<lambda>tbl.
              orig_loop cfg tbl en [0..<length (my_txns st)] st)) of
           Inl e \<Rightarrow> Some (fail e)
         | Inr st \<Rightarrow> run_leftover_txns cfg (\<lambda>n. en (length (my_txns st) + n)) st))"

section \<open>What scheduling leaves for the batch\<close>

lemma hc_branches_layout:
  "hc_pass1 cfg s op loc = Inr s' \<Longrightarrow> hc_layout s' = hc_layout s"
  "hc_pass2 s op loc = Inr s' \<Longrightarrow> hc_layout s' = hc_layout s"
  "hc_give_up s op loc = Inr s' \<Longrightarrow> hc_layout s' = hc_layout s"
  "hc_cold s op loc = Inr s' \<Longrightarrow> hc_layout s' = hc_layout s"
  by (auto simp: hc_pass1_def hc_pass2_def hc_give_up_def hc_cold_def hc_track_def Let_def res_elims
      split: if_splits option.splits)

lemma get_location_block: "block_num (snd (get_location cfg d k)) = block_num d"
  by (simp add: get_location_def Let_def)

lemma hc_step_block:
  assumes "hc_step cfg p i s = Inr s'"
  shows "block_num (hc_layout s') = block_num (hc_layout s)"
proof -
  obtain li where li: "location p (op_id (cold_ops (hc_txn s) ! i)) = Inr li"
    using assms by (auto simp: hc_step_def res_elims)
  let ?op = "(cold_ops (hc_txn s) ! i)\<lparr>loc_info := li\<rparr>"
  obtain h loc d where g: "get_location cfg (hc_layout s) (op_id ?op) = ((h, loc), d)" by (metis prod.exhaust)
  let ?s1 = "s\<lparr>hc_txn := (hc_txn s)\<lparr>cold_ops := (cold_ops (hc_txn s))[i := ?op]\<rparr>, hc_layout := d\<rparr>"
  have "?s1 = s' \<or> hc_pass1 cfg ?s1 ?op loc = Inr s' \<or> hc_pass2 ?s1 ?op loc = Inr s' \<or>
      hc_give_up ?s1 ?op loc = Inr s' \<or> hc_cold ?s1 ?op loc = Inr s'"
    using assms li g by (auto simp: hc_step_def Let_def res_elims split: if_splits)
  then have "hc_layout s' = d" using hc_branches_layout by fastforce
  then show ?thesis using get_location_block [of cfg "hc_layout s" "op_id ?op"] g by simp
qed

lemma hc_loop_block: "hc_loop cfg p n s = Inr s' \<Longrightarrow> block_num (hc_layout s') = block_num (hc_layout s)"
proof (induction n arbitrary: s)
  case (Suc n)
  show ?case
  proof (cases "op_mode (cold_ops (hc_txn s) ! (N_OPS - Suc n)) \<noteq> INVALID")
    case True
    with Suc.prems obtain s1 where "hc_step cfg p (N_OPS - Suc n) s = Inr s1" "hc_loop cfg p n s1 = Inr s'"
      by (auto simp: res_elims Let_def)
    with hc_step_block Suc.IH show ?thesis by metis
  next
    case False
    with Suc.prems show ?thesis by (auto simp: res_elims Let_def)
  qed
qed simp

lemma extract_block: "extract_hot_cold cfg tbl t d = Inr (t', d') \<Longrightarrow> block_num d' = block_num d"
proof -
  assume "extract_hot_cold cfg tbl t d = Inr (t', d')"
  then obtain s where "hc_loop cfg (part_info tbl) N_OPS (hc_start t d) = Inr s" "d' = hc_layout s"
    unfolding extract_hot_cold_def by (auto simp only: bind_res_eq_Inr Inr_inject prod.inject)
  with hc_loop_block show ?thesis by (fastforce simp: hc_start_def)
qed

lemma sched_txn_extract:
  assumes "sched_txn cfg tbl st i = Inr st'"
  shows "\<exists>t. extract_hot_cold cfg tbl (ss_txns st ! i) (ss_layout st) = Inr (t, ss_layout st') \<and>
    ss_txns st' = (ss_txns st)[i := t] \<and> i < length (ss_txns st)"
proof -
  from assms obtain t d where t: "i < length (ss_txns st)" "extract_hot_cold cfg tbl (ss_txns st ! i) (ss_layout st) = Inr (t, d)"
    unfolding sched_txn_def by (auto simp only: bind_res_eq_Inr at_res_Inr)
  let ?st = "st\<lparr>ss_txns := (ss_txns st)[i := t], ss_layout := d\<rparr>"
  have at: "at_res (ss_txns st) i = Inr (ss_txns st ! i)" using t(1) by simp
  have "ss_txns st' = ss_txns ?st \<and> ss_layout st' = ss_layout ?st"
    using assms unfolding sched_txn_def at bind_res_simps t(2) prod.case
    by (cases "if DO_SCHED cfg then hottest_cold_i1 t else None") (auto simp: Let_def res_elims split: if_splits)
  with t show ?thesis by simp
qed

text \<open>A transaction as the scheduler hands it to the batch; \<open>all\<close> are its operations with their locations.\<close>

definition split_txn :: "build_cfg \<Rightarrow> DeclusteredLayout \<Rightarrow> OP list \<Rightarrow> Txn \<Rightarrow> bool" where
  "split_txn cfg d all t \<longleftrightarrow> init_done t \<and> split_spec cfg d all t \<and> length (cold_ops t) = N_OPS \<and>
     live_hot (hot_ops_pass2 t) = []"

lemma split_txn_same: "same_layout cfg d d' \<Longrightarrow> split_txn cfg d' all t = split_txn cfg d all t"
  by (simp add: split_txn_def split_spec_same)

lemma sched_txns_split:
  assumes b: "\<not> ORIG_MODE cfg" "MAX_PASSES_ACCEL cfg \<noteq> 2" "partition_size (part_info tbl) \<noteq> 0"
  shows "sched_txns cfg tbl st is = Inr st' \<Longrightarrow> distinct is \<Longrightarrow> layout_regs (ss_layout st) \<Longrightarrow>
    \<forall>i \<in> set is. loaded ts (ss_txns st ! i) \<Longrightarrow>
    layout_regs (ss_layout st') \<and> same_layout cfg (ss_layout st) (ss_layout st') \<and>
    block_num (ss_layout st') = block_num (ss_layout st) \<and> length (ss_txns st') = length (ss_txns st) \<and>
    (\<forall>i. i \<notin> set is \<longrightarrow> ss_txns st' ! i = ss_txns st ! i) \<and>
    (\<forall>i \<in> set is. split_txn cfg (ss_layout st) (map (op_fill (part_info tbl)) (cold_ops (ss_txns st ! i))) (ss_txns st' ! i))"
proof (induction "is" arbitrary: st)
  case (Cons i "is")
  from Cons.prems(1) obtain st1 where st1: "sched_txn cfg tbl st i = Inr st1" "sched_txns cfg tbl st1 is = Inr st'"
    by (auto simp: res_elims)
  obtain t where t: "extract_hot_cold cfg tbl (ss_txns st ! i) (ss_layout st) = Inr (t, ss_layout st1)"
    "ss_txns st1 = (ss_txns st)[i := t]" "i < length (ss_txns st)"
    using sched_txn_extract [OF st1(1)] by blast
  let ?ops = "cold_ops (ss_txns st ! i)"
  have ld: "ss_txns st ! i = Txn_mk (loader_id (ss_txns st ! i)) ?ops" "length ?ops = N_OPS" "\<forall>op \<in> set ?ops. op_mode op \<noteq> INVALID"
    using Cons.prems(4) unfolding loaded_def by simp_all
  have r: "init_done t" "split_spec cfg (ss_layout st) (map (op_fill (part_info tbl)) ?ops) t" "length (cold_ops t) = N_OPS"
    "layout_regs (ss_layout st1)" "live_hot (hot_ops_pass2 t) = []"
    "\<And>k. is_hot cfg (ss_layout st1) k = is_hot cfg (ss_layout st) k \<and> loc_of cfg (ss_layout st1) k = loc_of cfg (ss_layout st) k"
    using extract_ok [OF ld(2,3) Cons.prems(3) b(3,1), of "loader_id (ss_txns st ! i)"] t(1) b(2)
    unfolding ld(1) [symmetric] by (metis Inr_inject prod.inject)+
  have sl: "same_layout cfg (ss_layout st) (ss_layout st1)" using r(6) by (simp add: same_layout_def fun_eq_iff)
  have others: "ss_txns st1 ! j = ss_txns st ! j" if "j \<noteq> i" for j using t(2) that by simp
  have "\<forall>j \<in> set is. loaded ts (ss_txns st1 ! j)" using Cons.prems(2,4) others by (metis distinct.simps(2) list.set_intros(2))
  from Cons.IH [OF st1(2) _ r(4) this] Cons.prems(2)
  have IH: "layout_regs (ss_layout st')" "same_layout cfg (ss_layout st1) (ss_layout st')"
    "block_num (ss_layout st') = block_num (ss_layout st1)" "length (ss_txns st') = length (ss_txns st1)"
    "\<And>j. j \<notin> set is \<Longrightarrow> ss_txns st' ! j = ss_txns st1 ! j"
    "\<And>j. j \<in> set is \<Longrightarrow> split_txn cfg (ss_layout st1) (map (op_fill (part_info tbl)) (cold_ops (ss_txns st1 ! j))) (ss_txns st' ! j)"
    by auto
  have ni: "i \<notin> set is" using Cons.prems(2) by simp
  have "split_txn cfg (ss_layout st) (map (op_fill (part_info tbl)) (cold_ops (ss_txns st ! j))) (ss_txns st' ! j)"
    if "j \<in> set (i # is)" for j
  proof (cases "j = i")
    case True
    then show ?thesis using IH(5) [OF ni] t(2,3) r by (simp add: split_txn_def)
  next
    case False
    then show ?thesis using IH(6) [of j] that others [OF False] split_txn_same [OF sl] by simp
  qed
  moreover have "same_layout cfg (ss_layout st) (ss_layout st')" using sl IH(2) by (simp add: same_layout_def)
  ultimately show ?case using IH(1,3,4,5) extract_block [OF t(1)] t(2) others by auto
qed (simp add: same_layout_def)

section \<open>No transaction of a batch is lost\<close>

text \<open>A transaction back on the host with all its operations.\<close>

definition back_cold :: "OP list \<Rightarrow> Txn \<Rightarrow> bool" where
  "back_cold all t \<longleftrightarrow> \<not> do_accel t \<and> live_ops (cold_ops t) = cold_ops t \<and> mset (cold_ops t) = mset all"

text \<open>Rows as a batch meets them: well-formed, far from the limit of readers, and not stamped by a later mini-batch.\<close>

definition rows_upto :: "nat \<Rightarrow> sys \<Rightarrow> bool" where
  "rows_upto ts st \<longleftrightarrow> (\<forall>s. in_range ts (nodes st) s \<longrightarrow> row_wf (rows st s) \<and> unat (owner_cnt (rows st s)) < 2 ^ 31 \<and>
     unat (mini_batch_id (last_acq (rows st s))) \<le> mb_num (exec st))"

text \<open>The lock state of every row is the same.\<close>

definition same_locks :: "sys \<Rightarrow> sys \<Rightarrow> bool" where
  "same_locks st st' \<longleftrightarrow> (\<forall>s. lock_type (rows st' s) = lock_type (rows st s) \<and> owner_cnt (rows st' s) = owner_cnt (rows st s))"

text \<open>
  What a batch relies on: \<open>B\<close> are the positions of its transactions, \<open>A e\<close> the operations of the
  transaction at position \<open>e\<close>, \<open>rs0\<close> the packets queued before.
\<close>

definition batch_static ::
  "build_cfg \<Rightarrow> nat \<Rightarrow> nat \<Rightarrow> (nat \<Rightarrow> OP list) \<Rightarrow> nat multiset \<Rightarrow> (nat \<times> nat \<times> nat) list \<Rightarrow> sys \<Rightarrow> bool" where
  "batch_static cfg ts nid A B rs0 st0 \<longleftrightarrow> nid < 16 \<and> layout_regs (sys_layout st0) \<and> SLOTS_PER_SCHED_BLOCK cfg dvd 128 \<and>
     (block_num (sys_layout st0) + 1) * SLOTS_PER_SCHED_BLOCK cfg < 65535 \<and> 1 \<le> mb_num (exec st0) \<and>
     (\<forall>e. e \<in># B \<longrightarrow> count B e = 1 \<and> e < length (my_txns st0) \<and> length (A e) = N_OPS \<and>
        (\<forall>op \<in> set (A e). op_mode op \<noteq> INVALID \<and> op_fits ts st0 op)) \<and>
     length rs0 + size B < send_q_capacity (send_queue st0)"

definition b_frame :: "nat \<Rightarrow> sys \<Rightarrow> sys \<Rightarrow> bool" where
  "b_frame ts st0 st \<longleftrightarrow> idle ts st \<and> rows_upto ts st \<and> self st = self st0 \<and> length (nodes st) = length (nodes st0) \<and>
     kvs (exec st) = kvs (exec st0) \<and> ex_tid (exec st) = ex_tid (exec st0) \<and> sys_layout st = sys_layout st0 \<and>
     length (my_txns st) = length (my_txns st0) \<and> mb_num (exec st0) \<le> mb_num (exec st) \<and> mb_num (exec st) < 2 ^ 27 \<and>
     send_q_capacity (send_queue st) = send_q_capacity (send_queue st0) \<and> same_locks st0 st"

text \<open>The accounts: pending transactions, packets \<open>rs\<close> and leftover transactions \<open>L\<close> together are the batch.\<close>

definition b_acc ::
  "build_cfg \<Rightarrow> (nat \<Rightarrow> OP list) \<Rightarrow> nat multiset \<Rightarrow> (nat \<times> nat \<times> nat) list \<Rightarrow> sys \<Rightarrow> nat multiset \<Rightarrow>
   (nat \<times> nat \<times> nat) list \<Rightarrow> nat list \<Rightarrow> sys \<Rightarrow> bool" where
  "b_acc cfg A B rs0 st0 pend rs L st \<longleftrightarrow> send_q_holds (send_queue st) (rs0 @ rs) \<and>
     (\<forall>b \<ge> length (rs0 @ rs) * HOT_TXN_PKT_BYTES. pkt_shape (pkt_bufs st b)) \<and> sorted (map fst rs) \<and>
     (\<forall>r \<in> set rs. mb_num (exec st0) \<le> fst r \<and> fst r \<le> mb_num (exec st) \<and> fst (snd r) = ex_tid (exec st0)) \<and>
     leftover_txns (exec st) = leftover_txns (exec st0) @ L \<and> pend + mset (map (snd \<circ> snd) rs) + mset L = B \<and>
     (\<forall>e. e \<in># pend \<longrightarrow> split_txn cfg (sys_layout st0) (A e) (my_txns st ! e)) \<and>
     (\<forall>e \<in> set L. back_cold (A e) (my_txns st ! e)) \<and>
     (\<forall>e. e \<notin># B \<longrightarrow> my_txns st ! e = my_txns st0 ! e)"

definition b_inv ::
  "build_cfg \<Rightarrow> nat \<Rightarrow> (nat \<Rightarrow> OP list) \<Rightarrow> nat multiset \<Rightarrow> (nat \<times> nat \<times> nat) list \<Rightarrow> sys \<Rightarrow> nat multiset \<Rightarrow> sys \<Rightarrow> bool" where
  "b_inv cfg ts A B rs0 st0 pend st \<longleftrightarrow> b_frame ts st0 st \<and> (\<exists>rs L. b_acc cfg A B rs0 st0 pend rs L st)"

lemma frame_bufs: "frame st st' \<Longrightarrow> pkt_bufs st' = pkt_bufs st"
proof -
  assume "frame st st'"
  then have e: "st' = set_log (st\<lparr>nodes := nodes st'\<rparr>) (ex_log (exec st'))" by (simp add: frame_def)
  show ?thesis by (subst e) (simp add: set_log_def)
qed

lemma touch_Some [simp]:
  "lock_type (touch (Some i) op r) = lock_type r" "owner_cnt (touch (Some i) op r) = owner_cnt r"
  "last_acq (touch (Some i) op r) = i"
  by (simp_all add: touch_def write_row_def)

lemma touch_stamp:
  "lock_type (foldl (\<lambda>r op. touch (Some i) op r) r ops) = lock_type r \<and>
   owner_cnt (foldl (\<lambda>r op. touch (Some i) op r) r ops) = owner_cnt r \<and>
   last_acq (foldl (\<lambda>r op. touch (Some i) op r) r ops) \<in> {last_acq r, i}"
proof (induction ops arbitrary: r)
  case (Cons op ops)
  from Cons [of "touch (Some i) op r"] show ?case by simp
qed simp

lemma rows_upto_commit:
  assumes "rows_upto ts st" "nodes st' = nodes st \<or> length (nodes st') = length (nodes st)" "mb_num (exec st') = mb_num (exec st)"
    "unat (mini_batch_id i) = mb_num (exec st)"
    "rows st' = rows st \<or> rows st' = apply_txn (Some i) sf ops (rows st)"
  shows "rows_upto ts st'" and "same_locks st st'"
proof -
  show "same_locks st st'"
    unfolding same_locks_def using assms(5) apply_txn_at [of "Some i" sf ops "rows st"] touch_stamp by metis
  show "rows_upto ts st'" unfolding rows_upto_def
proof (intro allI impI)
  fix s
  assume "in_range ts (nodes st') s"
  then have "in_range ts (nodes st) s" using assms(2) by (auto simp: in_range_def)
  then have r: "row_wf (rows st s)" "unat (owner_cnt (rows st s)) < 2 ^ 31"
    "unat (mini_batch_id (last_acq (rows st s))) \<le> mb_num (exec st)"
    using assms(1) unfolding rows_upto_def by blast+
  consider "rows st' s = rows st s" | "rows st' s = foldl (\<lambda>r op. touch (Some i) op r) (rows st s) (ops_at sf s ops)"
    using assms(5) apply_txn_at [of "Some i" sf ops "rows st" s] by metis
  then show "row_wf (rows st' s) \<and> unat (owner_cnt (rows st' s)) < 2 ^ 31 \<and>
      unat (mini_batch_id (last_acq (rows st' s))) \<le> mb_num (exec st')"
  proof cases
    case 1
    then show ?thesis using r assms(3) by simp
  next
    case 2
    then show ?thesis
      using r assms(3,4) touch_stamp [of i "rows st s" "ops_at sf s ops"] by (auto simp: row_wf_def)
  qed
qed
qed

lemma split_txn_sel [simp]:
  "split_txn cfg d all (t\<lparr>txn_id := x\<rparr>) = split_txn cfg d all t"
  "split_txn cfg d all (t\<lparr>txn_aborts := n\<rparr>) = split_txn cfg d all t"
  by (simp_all add: split_txn_def split_spec_def)

lemma split_txnD:
  assumes "split_txn cfg d all t"
  shows "length (cold_ops t) = N_OPS" "live_hot (hot_ops_pass2 t) = []"
    "mset (live_ops (cold_ops t)) + mset (map fst (live_hot (hot_ops_pass1 t))) = mset all"
    "\<not> do_accel t \<Longrightarrow> live_hot (hot_ops_pass1 t) = []"
proof -
  show h2: "live_hot (hot_ops_pass2 t) = []" and "length (cold_ops t) = N_OPS" using assms by (simp_all add: split_txn_def)
  have "mset (live_ops (cold_ops t)) + mset (map fst (live_hot (hot_ops_pass1 t))) + mset (map fst (live_hot (hot_ops_pass2 t))) = mset all"
    using assms unfolding split_txn_def split_spec_def Let_def by (elim conjE)
  with h2 show "mset (live_ops (cold_ops t)) + mset (map fst (live_hot (hot_ops_pass1 t))) = mset all" by simp
  show "live_hot (hot_ops_pass1 t) = []" if "\<not> do_accel t"
    using assms that unfolding split_txn_def split_spec_def Let_def by (simp only: if_False)
qed

text \<open>A transaction that the split left on the host is complete; so is one that the fallback brings back.\<close>

lemma full_live:
  assumes "length (cold_ops t) = N_OPS" "mset (live_ops (cold_ops t)) = mset all" "length all = N_OPS"
  shows "live_ops (cold_ops t) = cold_ops t"
proof -
  have "length (live_ops (cold_ops t)) = length (cold_ops t)" using assms by (metis size_mset)
  then show ?thesis unfolding live_ops_def by (metis takeWhile_eq_take take_all_iff order_refl)
qed

lemma split_host:
  assumes "split_txn cfg d all t" "\<not> do_accel t" "length all = N_OPS"
  shows "back_cold all (t\<lparr>txn_id := x\<rparr>)"
proof -
  have m: "mset (live_ops (cold_ops t)) = mset all" "length (cold_ops t) = N_OPS"
    using split_txnD [OF assms(1)] assms(2) by simp_all
  then show ?thesis using full_live [OF m(2,1) assms(3)] assms(2) by (simp add: back_cold_def)
qed

lemma split_fallback:
  assumes "split_txn cfg d all t" "do_accel t" "length all = N_OPS" "\<forall>op \<in> set all. op_mode op \<noteq> INVALID"
    and "live_ops (cold_ops t) \<noteq> []"
  shows "\<exists>t'. to_cold t = Inr t' \<and> back_cold all t'"
proof -
  let ?h1 = "live_hot (hot_ops_pass1 t)"
  have sp: "length (cold_ops t) = N_OPS" "live_hot (hot_ops_pass2 t) = []" "mset (live_ops (cold_ops t) @ map fst ?h1) = mset all"
    using split_txnD [OF assms(1)] by simp_all
  from arg_cong [OF sp(3), of size] assms(3) have len: "length (live_ops (cold_ops t)) + length ?h1 = N_OPS" by simp
  let ?c = "live_ops (cold_ops t) @ rev (map fst ?h1)"
  have eq: "to_cold t = Inr (t\<lparr>cold_ops := ?c, do_accel := False\<rparr>)"
    using to_cold_ok [OF sp(1) _ assms(5)] len sp(2) by simp
  have m: "mset ?c = mset all" using sp(3) by simp
  then have "set ?c = set all" by (rule mset_eq_setD)
  then have "live_ops ?c = ?c" unfolding live_ops_def using assms(4) by (intro takeWhile_all) auto
  with eq m show ?thesis by (simp add: back_cold_def)
qed

lemma live_of_all:
  assumes "split_txn cfg d all t" "op \<in> set (live_ops (cold_ops t))"
  shows "op \<in> set all"
proof -
  have "op \<in># mset (live_ops (cold_ops t)) + mset (map fst (live_hot (hot_ops_pass1 t)))" using assms(2) by simp
  then show ?thesis unfolding split_txnD(3) [OF assms(1)] by simp
qed

lemma acc_fresh:
  assumes "batch_static cfg ts nid A B rs0 st0" "b_acc cfg A B rs0 st0 (add_mset e R) rs L st"
  shows "e \<in># B" "e \<notin># R" "e \<notin> set L" "e \<notin> set (map (snd \<circ> snd) rs)" "length rs < size B"
proof -
  have b: "add_mset e R + mset (map (snd \<circ> snd) rs) + mset L = B" using assms(2) unfolding b_acc_def by blast
  show e: "e \<in># B" unfolding b [symmetric] by simp
  then have "count B e = 1" using assms(1) unfolding batch_static_def by blast
  then have c: "count R e + count (mset (map (snd \<circ> snd) rs)) e + count (mset L) e = 0"
    unfolding b [symmetric] by (simp only: count_union count_add_mset) simp
  then show "e \<notin># R" by (simp add: not_in_iff)
  show "e \<notin> set L" using c by (metis add_is_0 count_mset_0_iff)
  show "e \<notin> set (map (snd \<circ> snd) rs)" using c by (metis add_is_0 count_mset_0_iff)
  show "length rs < size B" unfolding b [symmetric] by simp
qed

text \<open>One transaction changes its place: its new state \<open>t\<close>, and whether it stays pending, is queued as a packet or is left over.\<close>

lemma acc_move:
  assumes S: "batch_static cfg ts nid A B rs0 st0" and acc: "b_acc cfg A B rs0 st0 (add_mset e R) rs L st"
    and st2: "my_txns st2 = (my_txns st)[e := t]" "e < length (my_txns st)" "mb_num (exec st2) = mb_num (exec st)"
      "leftover_txns (exec st2) = leftover_txns (exec st) @ la"
    and q: "send_q_holds (send_queue st2) (rs0 @ rs @ ra)"
      "\<forall>b \<ge> length (rs0 @ rs @ ra) * HOT_TXN_PKT_BYTES. pkt_shape (pkt_bufs st2 b)"
    and ra: "ra = [] \<or> ra = [(mb_num (exec st), ex_tid (exec st0), e)]" "mb_num (exec st0) \<le> mb_num (exec st)"
    and m: "pa + mset (map (snd \<circ> snd) ra) + mset la = {#e#}"
    and t: "pa \<noteq> {#} \<Longrightarrow> split_txn cfg (sys_layout st0) (A e) t" "la \<noteq> [] \<Longrightarrow> back_cold (A e) t"
  shows "b_acc cfg A B rs0 st0 (pa + R) (rs @ ra) (L @ la) st2"
proof -
  note fr = acc_fresh [OF S acc]
  have a: "sorted (map fst rs)" "\<And>r. r \<in> set rs \<Longrightarrow> mb_num (exec st0) \<le> fst r \<and> fst r \<le> mb_num (exec st) \<and> fst (snd r) = ex_tid (exec st0)"
    "leftover_txns (exec st) = leftover_txns (exec st0) @ L" "add_mset e R + mset (map (snd \<circ> snd) rs) + mset L = B"
    "\<And>x. x \<in># add_mset e R \<Longrightarrow> split_txn cfg (sys_layout st0) (A x) (my_txns st ! x)"
    "\<And>x. x \<in> set L \<Longrightarrow> back_cold (A x) (my_txns st ! x)" "\<And>x. x \<notin># B \<Longrightarrow> my_txns st ! x = my_txns st0 ! x"
    using acc unfolding b_acc_def by blast+
  have other: "my_txns st2 ! x = my_txns st ! x" if "x \<noteq> e" for x using st2(1) that by simp
  have self: "my_txns st2 ! e = t" using st2(1,2) by simp
  have sub: "set_mset pa \<subseteq> {e}" "set la \<subseteq> {e}"
    using m by (metis set_mset_add_mset_insert set_mset_empty set_mset_mset set_mset_union Un_upper1 Un_upper2 sup.coboundedI1)+
  have 1: "sorted (map fst (rs @ ra))" using a(1,2) ra(1) by (auto simp: sorted_append)
  have 2: "mb_num (exec st0) \<le> fst r \<and> fst r \<le> mb_num (exec st2) \<and> fst (snd r) = ex_tid (exec st0)" if "r \<in> set (rs @ ra)" for r
  proof (cases "r \<in> set rs")
    case True
    then show ?thesis using a(2) [OF True] st2(3) by simp
  qed (use that ra st2(3) in auto)
  have 3: "pa + R + mset (map (snd \<circ> snd) (rs @ ra)) + mset (L @ la) = B"
  proof -
    have "pa + R + mset (map (snd \<circ> snd) (rs @ ra)) + mset (L @ la) =
        (pa + mset (map (snd \<circ> snd) ra) + mset la) + (R + mset (map (snd \<circ> snd) rs) + mset L)"
      by (simp add: ac_simps)
    then show ?thesis unfolding m a(4) [symmetric] by simp
  qed
  have 4: "split_txn cfg (sys_layout st0) (A x) (my_txns st2 ! x)" if "x \<in># pa + R" for x
  proof (cases "x = e")
    case True
    then have "pa \<noteq> {#}" using that fr(2) by auto
    then show ?thesis using t(1) self True by simp
  next
    case False
    then have "x \<in># R" using that sub(1) by auto
    then show ?thesis using a(5) [of x] other [OF False] by simp
  qed
  have 5: "back_cold (A x) (my_txns st2 ! x)" if "x \<in> set (L @ la)" for x
  proof (cases "x = e")
    case True
    then have "la \<noteq> []" using that fr(3) by auto
    then show ?thesis using t(2) self True by simp
  next
    case False
    then have "x \<in> set L" using that sub(2) by auto
    then show ?thesis using a(6) [of x] other [OF False] by simp
  qed
  have 6: "my_txns st2 ! x = my_txns st0 ! x" if "x \<notin># B" for x
    using that a(7) [OF that] other [of x] fr(1) by metis
  show ?thesis
    unfolding b_acc_def using q 1 2 3 4 5 6 st2(4) a(3) by simp
qed

lemma same_locks_trans: "same_locks a b \<Longrightarrow> same_locks b c \<Longrightarrow> same_locks a c"
  by (simp add: same_locks_def)

lemma same_locks_core: "same_core a b \<Longrightarrow> same_locks a b"
  by (simp add: same_core_def same_locks_def)

lemma b_frame_move:
  assumes "b_frame ts st0 st" "idle ts st2" "rows_upto ts st2" "self st2 = self st" "length (nodes st2) = length (nodes st)"
    "kvs (exec st2) = kvs (exec st)" "ex_tid (exec st2) = ex_tid (exec st)" "sys_layout st2 = sys_layout st"
    "length (my_txns st2) = length (my_txns st)" "mb_num (exec st2) = mb_num (exec st)"
    "send_q_capacity (send_queue st2) = send_q_capacity (send_queue st)" "same_locks st st2"
  shows "b_frame ts st0 st2"
proof -
  have "same_locks st0 st" using assms(1) by (simp add: b_frame_def)
  with same_locks_trans [OF this assms(12)] show ?thesis using assms(1-11) by (simp add: b_frame_def)
qed

lemma packet_made:
  assumes S: "batch_static cfg ts nid A B rs0 st0" and t: "split_txn cfg (sys_layout st0) all t" "do_accel t" and p: "pkt_shape pkt"
  shows "\<exists>pkt'. make_txn cfg nc (sys_layout st0) t pkt = Inr pkt'"
proof -
  let ?d = "sys_layout st0" and ?hs = "live_hot (hot_ops_pass1 t)"
  have s: "layout_regs ?d" "SLOTS_PER_SCHED_BLOCK cfg dvd 128" "(block_num ?d + 1) * SLOTS_PER_SCHED_BLOCK cfg < 65535"
    using S unfolding batch_static_def by blast+
  have spec: "split_spec cfg ?d all t" using t(1) by (simp add: split_txn_def)
  then have h: "is_hot cfg ?d (op_id (fst h)) \<and> snd h = loc_of cfg ?d (op_id (fst h)) \<and> hot_reg h < N_REGS" if "h \<in> set ?hs" for h
    using that t(2) loc_of_regs [OF s(1)] unfolding split_spec_def Let_def by (metis UnI1)
  have dist: "distinct (map hot_reg ?hs)" using spec t(2) unfolding split_spec_def Let_def by (simp only: if_True)
  obtain pkt' where "make_txn_pass1 cfg nc ?d t pkt = Inr pkt'"
    using make_txn_pass1_ok [OF p s(2,3) dist h, of nc] by metis
  then show ?thesis using t(2) by (simp add: make_txn_def)
qed

text \<open>What \<open>run_txn\<close> does with the outcome of an accelerated transaction.\<close>

definition after_accel ::
  "build_cfg \<Rightarrow> bool \<Rightarrow> nat \<Rightarrow> nat list \<Rightarrow> RC \<times> nat option \<times> sys \<Rightarrow> (nat list \<times> sys) result" where
  "after_accel cfg en e q = (\<lambda>(rc, buf, st).
     let txn = my_txns st ! e in
     case rc of
       ROLLBACK \<Rightarrow>
         (let txn = txn\<lparr>txn_aborts := txn_aborts txn + 1\<rparr>;
              st = set_txn (upd_exec (\<lambda>x. x\<lparr>n_aborts := n_aborts x + 1\<rparr>) st) e txn in
          if en \<and> txn_aborts txn \<le> MAX_TIMES_ACCEL_ABORT then ok (q @ [e], st)
          else bind_res (to_cold txn) (\<lambda>txn. ok (q, push_leftover e (set_txn st e txn))))
     | COMMIT \<Rightarrow>
         (case buf of
            None \<Rightarrow> fail OutOfBounds
          | Some b \<Rightarrow>
              bind_res (make_txn cfg (sys_net st) (sys_layout st) txn (pkt_bufs st b)) (\<lambda>pkt.
                ok (q, upd_exec (\<lambda>x. x\<lparr>n_commits := n_commits x + 1\<rparr>) (st\<lparr>pkt_bufs := (pkt_bufs st)(b := pkt)\<rparr>)))))"

definition stamped_txn :: "nat \<Rightarrow> nat \<Rightarrow> sys \<Rightarrow> Txn" where
  "stamped_txn nid e st = (my_txns st ! e)\<lparr>txn_id := TxnId_mk True nid (mb_num (exec st))\<rparr>"

lemma run_txn_unfold:
  assumes "e < length (my_txns st)" "init_done (my_txns st ! e)" "nid < 16" "0 < mb_num (exec st)" "mb_num (exec st) < 2 ^ 27"
  shows "run_txn cfg nid en (e # q) st =
    (if do_accel (my_txns st ! e)
     then bind_res (my_execute cfg (set_txn st e (stamped_txn nid e st)) e) (after_accel cfg en e q)
     else ok (q, push_leftover e (set_txn st e (stamped_txn nid e st))))"
proof -
  have ent: "entry_to_txn (my_txns st) e = Inr (my_txns st ! e)" using assms(1) by (simp add: entry_to_txn_def)
  have w: "unat (word_of_nat nid :: 4 word) = nid" "unat (word_of_nat (mb_num (exec st)) :: 27 word) = mb_num (exec st)"
    using assms(3,5) by (simp_all add: unat_of_nat)
  have ex: "exec (set_txn st e t) = exec st" for t by (simp add: set_txn_def)
  show ?thesis
    unfolding run_txn_def after_accel_def stamped_txn_def
    by (simp add: ent assms(2,4) w ex Let_def)
qed

text \<open>The three ways on.\<close>

definition stepped ::
  "build_cfg \<Rightarrow> nat \<Rightarrow> (nat \<Rightarrow> OP list) \<Rightarrow> nat multiset \<Rightarrow> (nat \<times> nat \<times> nat) list \<Rightarrow> sys \<Rightarrow> bool \<Rightarrow> nat \<Rightarrow> nat multiset \<Rightarrow>
   nat list \<Rightarrow> sys \<Rightarrow> (nat list \<times> sys) result \<Rightarrow> bool" where
  "stepped cfg ts A B rs0 st0 en e R q st r \<longleftrightarrow>
     (\<exists>q1 st1 rs1 L1. r = Inr (q1, st1) \<and> b_frame ts st0 st1 \<and> mb_num (exec st1) = mb_num (exec st) \<and>
        (en \<and> q1 = q @ [e] \<and> b_acc cfg A B rs0 st0 (add_mset e R) rs1 L1 st1 \<or>
         q1 = q \<and> b_acc cfg A B rs0 st0 R rs1 L1 st1))"

lemma steppedI:
  "r = Inr (q1, st1) \<Longrightarrow> b_frame ts st0 st1 \<Longrightarrow> mb_num (exec st1) = mb_num (exec st) \<Longrightarrow>
   en \<and> q1 = q @ [e] \<and> b_acc cfg A B rs0 st0 (add_mset e R) rs1 L1 st1 \<or> q1 = q \<and> b_acc cfg A B rs0 st0 R rs1 L1 st1 \<Longrightarrow>
   stepped cfg ts A B rs0 st0 en e R q st r"
  unfolding stepped_def by blast

lemma step_host:
  assumes S: "batch_static cfg ts nid A B rs0 st0" and F: "b_frame ts st0 st"
    and acc: "b_acc cfg A B rs0 st0 (add_mset e R) rs L st" and h: "\<not> do_accel (my_txns st ! e)"
  shows "stepped cfg ts A B rs0 st0 en e R q st (ok (q, push_leftover e (set_txn st e (stamped_txn nid e st))))"
proof -
  let ?t = "stamped_txn nid e st"
  let ?st = "push_leftover e (set_txn st e ?t)"
  have eB: "e \<in># B" by (rule acc_fresh(1) [OF S acc])
  have len: "length (A e) = N_OPS" "e < length (my_txns st)" using S F eB unfolding batch_static_def b_frame_def by simp_all
  have a: "split_txn cfg (sys_layout st0) (A e) (my_txns st ! e)" "send_q_holds (send_queue st) (rs0 @ rs)"
    "\<forall>b \<ge> length (rs0 @ rs) * HOT_TXN_PKT_BYTES. pkt_shape (pkt_bufs st b)"
    using acc unfolding b_acc_def by simp_all
  have core: "same_core st ?st" by (simp add: same_core_def set_txn_def push_leftover_def upd_exec_def)
  note c = core_sel [OF core]
  have sel: "exec ?st = (exec st)\<lparr>n_cold_fallbacks := n_cold_fallbacks (exec st) + 1, leftover_txns := leftover_txns (exec st) @ [e]\<rparr>"
    "my_txns ?st = (my_txns st)[e := ?t]" "send_queue ?st = send_queue st" "pkt_bufs ?st = pkt_bufs st" "sys_layout ?st = sys_layout st"
    by (simp_all add: set_txn_def push_leftover_def upd_exec_def)
  have f: "idle ts st" "rows_upto ts st" "mb_num (exec st0) \<le> mb_num (exec st)" using F by (simp_all add: b_frame_def)
  have mb: "mb_num (exec ?st) = mb_num (exec st)" by (simp add: sel)
  have ru: "rows_upto ts ?st" using f(2) unfolding rows_upto_def c(1,3) mb .
  have fr: "b_frame ts st0 ?st" by (rule b_frame_move [OF F _ ru]) (use c f sel in \<open>simp_all add: same_locks_def\<close>)
  have "back_cold (A e) ?t" unfolding stamped_txn_def by (rule split_host [OF a(1) h len(1)])
  then have "b_acc cfg A B rs0 st0 ({#} + R) (rs @ []) (L @ [e]) ?st"
    by (intro acc_move [OF S acc sel(2) len(2) mb]) (use sel a f in simp_all)
  then show ?thesis by (intro steppedI [OF refl fr mb]) simp
qed

lemma step_commit:
  assumes S: "batch_static cfg ts nid A B rs0 st0" and F: "b_frame ts st0 st"
    and acc: "b_acc cfg A B rs0 st0 (add_mset e R) rs L st" and acl: "do_accel (my_txns st ! e)"
    and fr: "frame ((set_txn st e (stamped_txn nid e st))\<lparr>send_queue := qu\<rparr>) st'" and idl: "idle ts st'"
    and ro: "rows st' = apply_txn (Some (TxnId_mk True nid (mb_num (exec st)))) sf ops (rows st)"
    and qu: "send_q_capacity qu = send_q_capacity (send_queue st)"
      "send_q_holds qu ((rs0 @ rs) @ [(mb_num (exec st), ex_tid (exec st), e)])"
  shows "stepped cfg ts A B rs0 st0 en e R q st (after_accel cfg en e q (COMMIT, Some (length (rs0 @ rs) * HOT_TXN_PKT_BYTES), st'))"
proof -
  let ?t = "stamped_txn nid e st" and ?b = "length (rs0 @ rs) * HOT_TXN_PKT_BYTES" and ?mb = "mb_num (exec st)"
  note sel = frame_sel [OF fr] and more = frame_more [OF fr] and bufs = frame_bufs [OF fr]
  have len: "e < length (my_txns st)" using S F acc_fresh(1) [OF S acc] unfolding batch_static_def b_frame_def by simp
  have a: "split_txn cfg (sys_layout st0) (A e) (my_txns st ! e)"
    "\<forall>b \<ge> ?b. pkt_shape (pkt_bufs st b)"
    using acc unfolding b_acc_def by simp_all
  have f: "rows_upto ts st" "mb_num (exec st0) \<le> ?mb" "?mb < 2 ^ 27" "ex_tid (exec st) = ex_tid (exec st0)" "sys_layout st = sys_layout st0"
    using F by (simp_all add: b_frame_def)
  have te: "my_txns st' ! e = ?t" using sel(5) len by (simp add: set_txn_def)
  have lay: "sys_layout st' = sys_layout st0" using more(3) f(5) by (simp add: set_txn_def)
  have pb: "pkt_bufs st' = pkt_bufs st" using bufs by (simp add: set_txn_def)
  have "split_txn cfg (sys_layout st0) (A e) ?t" "do_accel ?t" using a(1) acl by (simp_all add: stamped_txn_def)
  then obtain pkt where pkt: "make_txn cfg (sys_net st') (sys_layout st') ?t (pkt_bufs st' ?b) = Inr pkt"
    using packet_made [OF S] a(2) unfolding lay pb by blast
  let ?st = "upd_exec (\<lambda>x. x\<lparr>n_commits := n_commits x + 1\<rparr>) (st'\<lparr>pkt_bufs := (pkt_bufs st')(?b := pkt)\<rparr>)"
  have r: "after_accel cfg en e q (COMMIT, Some ?b, st') = Inr (q, ?st)" using pkt te by (simp add: after_accel_def)
  have core: "same_core st' ?st" by (simp add: same_core_def upd_exec_def)
  note c = core_sel [OF core]
  have sel2: "exec ?st = (exec st')\<lparr>n_commits := n_commits (exec st') + 1\<rparr>" "my_txns ?st = (my_txns st)[e := ?t]" "send_queue ?st = qu"
    "pkt_bufs ?st = (pkt_bufs st)(?b := pkt)" "sys_layout ?st = sys_layout st"
    using sel(5,6) pb lay f(5) by (simp_all add: upd_exec_def set_txn_def)
  have mb: "mb_num (exec ?st) = ?mb" using sel(4) by (simp add: upd_exec_def set_txn_def)
  have lo: "leftover_txns (exec ?st) = leftover_txns (exec st) @ []"
    using arg_cong [OF more(1), of leftover_txns] by (simp add: upd_exec_def set_txn_def)
  have i: "unat (mini_batch_id (TxnId_mk True nid ?mb)) = ?mb" using f(3) by (simp add: unat_of_nat)
  have "length (nodes ?st) = length (nodes st)" "rows ?st = apply_txn (Some (TxnId_mk True nid ?mb)) sf ops (rows st)"
    using c ro sel(7) by (simp_all add: set_txn_def)
  note ru = rows_upto_commit [OF f(1) disjI2 [OF this(1)] mb i disjI2 [OF this(2)]]
  have fr2: "b_frame ts st0 ?st"
    by (rule b_frame_move [OF F _ ru(1)])
      (use c idl sel sel2 qu(1) mb ru(2) in \<open>simp_all add: set_txn_def\<close>)
  have holds: "send_q_holds (send_queue ?st) (rs0 @ rs @ [(?mb, ex_tid (exec st0), e)])" 
    using qu(2) f(4) unfolding sel2(3) by simp
  have lt: "?b < length (rs0 @ rs @ [(?mb, ex_tid (exec st0), e)]) * HOT_TXN_PKT_BYTES" by simp
  have sh: "\<forall>b \<ge> length (rs0 @ rs @ [(?mb, ex_tid (exec st0), e)]) * HOT_TXN_PKT_BYTES. pkt_shape (pkt_bufs ?st b)"
  proof (intro allI impI)
    fix b
    assume "length (rs0 @ rs @ [(?mb, ex_tid (exec st0), e)]) * HOT_TXN_PKT_BYTES \<le> b"
    then have "?b \<le> b" "b \<noteq> ?b" using lt by linarith+
    then show "pkt_shape (pkt_bufs ?st b)" using a(2) unfolding sel2(4) fun_upd_apply by (simp only: if_False)
  qed
  have "b_acc cfg A B rs0 st0 ({#} + R) (rs @ [(?mb, ex_tid (exec st0), e)]) (L @ []) ?st"
    by (rule acc_move [OF S acc sel2(2) len mb lo holds sh]) (use f in simp_all)
  then show ?thesis by (intro steppedI [OF r fr2 mb]) simp
qed

lemma step_rollback:
  assumes S: "batch_static cfg ts nid A B rs0 st0" and F: "b_frame ts st0 st"
    and acc: "b_acc cfg A B rs0 st0 (add_mset e R) rs L st" and acl: "do_accel (my_txns st ! e)"
    and fr: "frame ((set_txn st e (stamped_txn nid e st))\<lparr>send_queue := send_queue st\<rparr>) st'" and idl: "idle ts st'"
    and ro: "rows st' = rows st" and cold: "live_ops (cold_ops (my_txns st ! e)) \<noteq> []"
  shows "stepped cfg ts A B rs0 st0 en e R q st (after_accel cfg en e q (ROLLBACK, buf, st'))"
proof -
  let ?t = "(stamped_txn nid e st)\<lparr>txn_aborts := txn_aborts (stamped_txn nid e st) + 1\<rparr>" and ?mb = "mb_num (exec st)"
  note sel = frame_sel [OF fr] and more = frame_more [OF fr] and bufs = frame_bufs [OF fr]
  have eB: "e \<in># B" by (rule acc_fresh(1) [OF S acc])
  have len: "e < length (my_txns st)" "length (A e) = N_OPS" "\<forall>op \<in> set (A e). op_mode op \<noteq> INVALID"
    using S F eB unfolding batch_static_def b_frame_def by simp_all
  have a: "split_txn cfg (sys_layout st0) (A e) (my_txns st ! e)" "send_q_holds (send_queue st) (rs0 @ rs)"
    "\<forall>b \<ge> length (rs0 @ rs) * HOT_TXN_PKT_BYTES. pkt_shape (pkt_bufs st b)"
    using acc unfolding b_acc_def by simp_all
  have f: "rows_upto ts st" "mb_num (exec st0) \<le> ?mb" "?mb < 2 ^ 27" "sys_layout st = sys_layout st0"
    using F by (simp_all add: b_frame_def)
  have te: "my_txns st' ! e = stamped_txn nid e st" using sel(5) len by (simp add: set_txn_def)
  have t: "split_txn cfg (sys_layout st0) (A e) ?t" "do_accel ?t" "live_ops (cold_ops ?t) \<noteq> []"
    using a(1) acl cold by (simp_all add: stamped_txn_def)
  have i: "unat (mini_batch_id (TxnId_mk True nid ?mb)) = ?mb" using f(3) by (simp add: unat_of_nat)
  have go: "b_frame ts st0 st2 \<and> mb_num (exec st2) = ?mb \<and> b_acc cfg A B rs0 st0 (pa + R) (rs @ []) (L @ la) st2"
    if st2: "same_core st' st2" "my_txns st2 = (my_txns st)[e := t2]" "send_queue st2 = send_queue st'" "pkt_bufs st2 = pkt_bufs st'"
      "sys_layout st2 = sys_layout st'" "mb_num (exec st2) = mb_num (exec st')" "leftover_txns (exec st2) = leftover_txns (exec st') @ la"
      and m: "pa + mset la = {#e#}" "pa \<noteq> {#} \<Longrightarrow> split_txn cfg (sys_layout st0) (A e) t2" "la \<noteq> [] \<Longrightarrow> back_cold (A e) t2"
    for st2 t2 pa la
  proof -
    note c = core_sel [OF st2(1)]
    have mb: "mb_num (exec st2) = ?mb" using sel(4) st2(6) by (simp add: set_txn_def)
    have lo: "leftover_txns (exec st2) = leftover_txns (exec st) @ la"
      using st2(7) arg_cong [OF more(1), of leftover_txns] by (simp add: set_txn_def)
    have sq: "send_queue st2 = send_queue st" "pkt_bufs st2 = pkt_bufs st" "sys_layout st2 = sys_layout st"
      using st2(3,4,5) sel(6) bufs more(3) by (simp_all add: set_txn_def)
    have "length (nodes st2) = length (nodes st)" "rows st2 = rows st" using c ro sel(7) by (simp_all add: set_txn_def)
    note ru = rows_upto_commit [OF f(1) disjI2 [OF this(1)] mb i disjI1 [OF this(2)]]
    have "b_frame ts st0 st2"
      by (rule b_frame_move [OF F _ ru(1)]) (use c idl sel st2(2) sq mb ru(2) in \<open>simp_all add: set_txn_def\<close>)
    moreover have "b_acc cfg A B rs0 st0 (pa + R) (rs @ []) (L @ la) st2"
      by (rule acc_move [OF S acc st2(2) len(1) mb lo]) (use sq a(2,3) f(2) m in simp_all)
    ultimately show ?thesis using mb by blast
  qed
  let ?s = "set_txn (upd_exec (\<lambda>x. x\<lparr>n_aborts := n_aborts x + 1\<rparr>) st') e ?t"
  have s: "same_core st' ?s" "my_txns ?s = (my_txns st)[e := ?t]" "send_queue ?s = send_queue st'" "pkt_bufs ?s = pkt_bufs st'"
    "sys_layout ?s = sys_layout st'" "mb_num (exec ?s) = mb_num (exec st')" "leftover_txns (exec ?s) = leftover_txns (exec st') @ []"
    using sel(5) by (simp_all add: same_core_def set_txn_def upd_exec_def)
  show ?thesis
  proof (cases "en \<and> txn_aborts ?t \<le> MAX_TIMES_ACCEL_ABORT")
    case True
    then have r: "after_accel cfg en e q (ROLLBACK, buf, st') = Inr (q @ [e], ?s)" using te by (simp add: after_accel_def Let_def)
    have "b_frame ts st0 ?s \<and> mb_num (exec ?s) = ?mb \<and> b_acc cfg A B rs0 st0 ({#e#} + R) (rs @ []) (L @ []) ?s"
      by (rule go [OF s]) (use t(1) in simp_all)
    then show ?thesis using True r by (intro steppedI [OF r, of ts st0 st _ _ _ _ _ _ _ _ rs L]) simp_all
  next
    case False
    obtain t2 where t2: "to_cold ?t = Inr t2" "back_cold (A e) t2" using split_fallback [OF t(1,2) len(2,3) t(3)] by blast
    let ?st = "push_leftover e (set_txn ?s e t2)"
    have r: "after_accel cfg en e q (ROLLBACK, buf, st') = Inr (q, ?st)" using te False t2(1) by (simp add: after_accel_def Let_def)
    have "b_frame ts st0 ?st \<and> mb_num (exec ?st) = ?mb \<and> b_acc cfg A B rs0 st0 ({#} + R) (rs @ []) (L @ [e]) ?st"
      by (rule go [of ?st t2]) (use s t2(2) in \<open>simp_all add: same_core_def set_txn_def push_leftover_def upd_exec_def\<close>)
    then show ?thesis by (intro steppedI [OF r, of ts st0 st _ _ _ _ _ _ _ _ rs "L @ [e]"]) simp_all
  qed
qed

lemma run_txn_step:
  assumes S: "batch_static cfg ts nid A B rs0 st0" and F: "b_frame ts st0 st"
    and acc: "b_acc cfg A B rs0 st0 (add_mset e R) rs L st"
  shows "stepped cfg ts A B rs0 st0 en e R q st (run_txn cfg nid en (e # q) st)"
proof -
  let ?mb = "mb_num (exec st)" and ?t = "stamped_txn nid e st"
  let ?i = "TxnId_mk True nid ?mb" and ?st = "set_txn st e ?t"
  note fresh = acc_fresh [OF S acc]
  have s: "nid < 16" "1 \<le> mb_num (exec st0)" "e < length (my_txns st0)" "length (A e) = N_OPS"
    "\<forall>op \<in> set (A e). op_mode op \<noteq> INVALID \<and> op_fits ts st0 op" "length rs0 + size B < send_q_capacity (send_queue st0)"
    using S fresh(1) unfolding batch_static_def by blast+
  have f: "idle ts st" "rows_upto ts st" "mb_num (exec st0) \<le> ?mb" "?mb < 2 ^ 27" "self st = self st0"
    "length (nodes st) = length (nodes st0)" "length (my_txns st) = length (my_txns st0)"
    "send_q_capacity (send_queue st) = send_q_capacity (send_queue st0)"
    using F by (simp_all add: b_frame_def)
  have a: "split_txn cfg (sys_layout st0) (A e) (my_txns st ! e)" "send_q_holds (send_queue st) (rs0 @ rs)"
    using acc unfolding b_acc_def by simp_all
  have el: "e < length (my_txns st)" using s(3) f(7) by simp
  have unf: "run_txn cfg nid en (e # q) st =
      (if do_accel (my_txns st ! e) then bind_res (my_execute cfg ?st e) (after_accel cfg en e q) else ok (q, push_leftover e ?st))"
    by (rule run_txn_unfold) (use el a(1) s f in \<open>auto simp: split_txn_def\<close>)
  show ?thesis
  proof (cases "do_accel (my_txns st ! e)")
    case False
    then show ?thesis using step_host [OF S F acc False, of en q] unf by simp
  next
    case True
    have at: "my_txns ?st ! e = ?t" "exec ?st = exec st" "send_queue ?st = send_queue st" using el by (simp_all add: set_txn_def)
    have core: "same_core st ?st" by (rule set_txn_core)
    note c = core_sel [OF core]
    have id: "?i = (txn_id ?t)\<lparr>valid := True\<rparr>" by (simp add: stamped_txn_def TxnId_mk_def)
    have imb: "unat (mini_batch_id ?i) = ?mb" using f(4) by (simp add: unat_of_nat)
    have "in_order (rows st x) ?i" if "unat (mini_batch_id (last_acq (rows st x))) \<le> ?mb" for x
      using that imb by (simp add: in_order_def word_le_nat_alt)
    then have "rows_ok ts ?i ?st" using f(2) unfolding rows_ok_def rows_upto_def c(1,3) by blast
    moreover have "op_fits ts ?st op" if "op \<in> set (live_ops (cold_ops ?t))" for op
    proof -
      have "op \<in> set (A e)" using live_of_all [OF a(1)] that by (simp add: stamped_txn_def)
      then show ?thesis using s(5) f(5,6) unfolding c(8) by (auto simp: op_fits_def)
    qed
    moreover have "length (cold_ops ?t) \<le> N_OPS" using a(1) by (simp add: split_txn_def stamped_txn_def)
    ultimately have rd: "ready ts ?st ?t ?i" using f(1) c(6) by (simp add: ready_def)
    have room: "Suc (length (rs0 @ rs)) < send_q_capacity (send_queue ?st)" using fresh(5) s(6) f(8) at(3) by simp
    have "e < length (my_txns ?st)" "unat (mini_batch_id ?i) = mb_num (exec ?st)" "send_q_holds (send_queue ?st) (rs0 @ rs)"
      using el imb at a(2) by (simp_all add: set_txn_def)
    from my_execute_run [OF this(1) at(1) [symmetric] id rd this(2,3) room, of cfg] obtain rc buf qu st' where
      h: "my_execute cfg ?st e = Inr (rc, buf, st')" "idle ts st'" "frame ((set_txn ?st e (?t\<lparr>txn_id := ?i\<rparr>))\<lparr>send_queue := qu\<rparr>) st'"
      "rc = COMMIT \<longleftrightarrow> can_lock cfg ?i (self ?st) (rows ?st) (cold_ops ?t)"
      "if rc = COMMIT
       then rows st' = apply_txn (Some ?i) (self ?st) (live_ops (cold_ops ?t)) (rows ?st) \<and>
         buf = Some (length (rs0 @ rs) * HOT_TXN_PKT_BYTES) \<and> send_q_capacity qu = send_q_capacity (send_queue ?st) \<and>
         send_q_holds qu ((rs0 @ rs) @ [(mb_num (exec ?st), ex_tid (exec ?st), e)])
       else rows st' = rows ?st \<and> qu = send_queue ?st"
      by (elim exE conjE)
    have same: "set_txn ?st e (?t\<lparr>txn_id := ?i\<rparr>) = ?st" by (simp add: set_txn_def stamped_txn_def)
    have run: "run_txn cfg nid en (e # q) st = after_accel cfg en e q (rc, buf, st')" using unf True h(1) by simp
    show ?thesis
    proof (cases "rc = COMMIT")
      case cm: True
      have g: "rows st' = apply_txn (Some ?i) (self st) (live_ops (cold_ops ?t)) (rows st)"
        "buf = Some (length (rs0 @ rs) * HOT_TXN_PKT_BYTES)" "send_q_capacity qu = send_q_capacity (send_queue st)"
        "send_q_holds qu ((rs0 @ rs) @ [(?mb, ex_tid (exec st), e)])"
        using h(5) cm at c by simp_all
      show ?thesis unfolding run cm g(2) by (rule step_commit [OF S F acc True h(3) [unfolded same] h(2) g(1,3,4)])
    next
      case rb: False
      then have g: "rc = ROLLBACK" "rows st' = rows st" "qu = send_queue st" using h(5) c at by (cases rc; simp)+
      have "live_ops (cold_ops (my_txns st ! e)) \<noteq> []"
      proof
        assume "live_ops (cold_ops (my_txns st ! e)) = []"
        then have "can_lock cfg ?i (self ?st) (rows ?st) (cold_ops ?t)"
          by (cases "cold_ops (my_txns st ! e)") (auto simp: stamped_txn_def live_ops_def split: if_splits)
        then show False using h(4) rb by simp
      qed
      then show ?thesis unfolding run g(1) using step_rollback [OF S F acc True _ h(2) g(2)] h(3) same g(3) by simp
    qed
  qed
qed

lemma mb_run_ok:
  assumes S: "batch_static cfg ts nid A B rs0 st0"
  shows "b_inv cfg ts A B rs0 st0 (mset q + R) st \<Longrightarrow>
    \<exists>q1 st1. mb_run cfg nid n q st = Inr (q1, st1) \<and> b_inv cfg ts A B rs0 st0 (mset q1 + R) st1 \<and> mb_num (exec st1) = mb_num (exec st)"
proof (induction n arbitrary: q st)
  case (Suc n)
  show ?case
  proof (cases q)
    case (Cons e q')
    obtain rs L where i: "b_frame ts st0 st" "b_acc cfg A B rs0 st0 (add_mset e (mset q' + R)) rs L st"
      using Suc.prems unfolding b_inv_def Cons by auto
    obtain q1 st1 where r: "run_txn cfg nid True q st = Inr (q1, st1)" "b_inv cfg ts A B rs0 st0 (mset q1 + R) st1"
      "mb_num (exec st1) = mb_num (exec st)"
    proof -
      obtain q1 st1 rs1 L1 where h: "run_txn cfg nid True (e # q') st = Inr (q1, st1)" "b_frame ts st0 st1"
        "mb_num (exec st1) = mb_num (exec st)"
        "q1 = q' @ [e] \<and> b_acc cfg A B rs0 st0 (add_mset e (mset q' + R)) rs1 L1 st1 \<or>
         q1 = q' \<and> b_acc cfg A B rs0 st0 (mset q' + R) rs1 L1 st1"
        using run_txn_step [OF S i, of True q'] unfolding stepped_def by blast
      then have "b_acc cfg A B rs0 st0 (mset q1 + R) rs1 L1 st1" by (elim disjE conjE) simp_all
      then show thesis using that h Cons unfolding b_inv_def by blast
    qed
    from Suc.IH [OF r(2)] r Cons show ?thesis by auto
  qed (use Suc.prems in simp)
qed simp

lemma mset_concat_replace:
  assumes "j < length qs"
  obtains R where "mset (concat qs) = mset (qs ! j) + R" "\<And>q. mset (concat (qs[j := q])) = mset q + R"
proof
  let ?R = "mset (concat (take j qs @ drop (Suc j) qs))"
  show "mset (concat (qs[j := q])) = mset q + ?R" for q using assms by (simp add: upd_conv_take_nth_drop ac_simps)
  from this [of "qs ! j"] show "mset (concat qs) = mset (qs ! j) + ?R" by simp
qed

lemma b_inv_next: "b_inv cfg ts A B rs0 st0 pend st \<Longrightarrow> mb_num (exec st) + 1 < 2 ^ 27 \<Longrightarrow> b_inv cfg ts A B rs0 st0 pend (next_mb st)"
proof -
  assume i: "b_inv cfg ts A B rs0 st0 pend st" and m: "mb_num (exec st) + 1 < 2 ^ 27"
  have core: "same_core st (next_mb st)" by (simp add: same_core_def next_mb_def upd_exec_def)
  note c = core_sel [OF core]
  have sel: "mb_num (exec (next_mb st)) = mb_num (exec st) + 1" "leftover_txns (exec (next_mb st)) = leftover_txns (exec st)"
    "my_txns (next_mb st) = my_txns st" "send_queue (next_mb st) = send_queue st" "pkt_bufs (next_mb st) = pkt_bufs st"
    "sys_layout (next_mb st) = sys_layout st"
    by (simp_all add: next_mb_def upd_exec_def)
  obtain rs L where f: "b_frame ts st0 st" "b_acc cfg A B rs0 st0 pend rs L st" using i unfolding b_inv_def by blast
  have "rows_upto ts st" using f(1) by (simp add: b_frame_def)
  then have "rows_upto ts (next_mb st)" unfolding rows_upto_def c(1,3) sel(1) by fastforce
  moreover have "same_locks st0 (next_mb st)"
    using f(1) same_locks_trans [OF _ same_locks_core [OF core]] by (simp add: b_frame_def)
  ultimately have "b_frame ts st0 (next_mb st)" using f(1) m c sel by (simp add: b_frame_def)
  moreover have "b_acc cfg A B rs0 st0 pend rs L (next_mb st)" using f(2) unfolding b_acc_def sel by fastforce
  ultimately show ?thesis unfolding b_inv_def by blast
qed

lemma mb_loop_ok:
  assumes S: "batch_static cfg ts (sc_node_id sc) A B rs0 st0"
  shows "b_inv cfg ts A B rs0 st0 (mset (concat (mb_queues sc))) st \<Longrightarrow> batch_static cfg ts (sc_node_id sc) A B rs0 st0 \<Longrightarrow>
    0 < n_queues sc \<Longrightarrow> n_queues sc = length (mb_queues sc) \<Longrightarrow> mb_num (exec st) + k < 2 ^ 27 \<Longrightarrow>
    \<exists>sc1 st1. mb_loop cfg tgt k sc st = Inr (sc1, st1, k) \<and> b_inv cfg ts A B rs0 st0 (mset (concat (mb_queues sc1))) st1 \<and>
      sc1 = sc\<lparr>mb_queues := mb_queues sc1\<rparr> \<and> length (mb_queues sc1) = length (mb_queues sc) \<and> mb_num (exec st1) = mb_num (exec st) + k"
proof (induction k arbitrary: sc st)
  case (Suc k)
  let ?j = "(mb_num (exec st) - 1) mod n_queues sc" and ?qs = "mb_queues sc"
  have j: "?j < length ?qs" using Suc.prems(3,4) by (metis mod_less_divisor)
  obtain R where rep: "mset (concat ?qs) = mset (?qs ! ?j) + R" "\<And>q. mset (concat (?qs[?j := q])) = mset q + R"
    by (rule mset_concat_replace [OF j]) (rule that)
  have "b_inv cfg ts A B rs0 st0 (mset (?qs ! ?j) + R) st" using Suc.prems(1) rep(1) by simp
  from mb_run_ok [OF Suc.prems(2) this, of tgt] obtain q1 st1 where
    q1: "mb_run cfg (sc_node_id sc) tgt (?qs ! ?j) st = Inr (q1, st1)"
      "b_inv cfg ts A B rs0 st0 (mset q1 + R) st1" "mb_num (exec st1) = mb_num (exec st)" by blast
  let ?sc = "sc\<lparr>mb_queues := ?qs[?j := q1]\<rparr>"
  have "b_inv cfg ts A B rs0 st0 (mset (concat (mb_queues ?sc))) st1" using q1(2) rep(2) [of q1] by simp
  then have i: "b_inv cfg ts A B rs0 st0 (mset (concat (mb_queues ?sc))) (next_mb st1)"
    by (rule b_inv_next) (use q1(3) Suc.prems(5) in simp)
  have mb: "mb_num (exec (next_mb st1)) = mb_num (exec st) + 1" using q1(3) by (simp add: next_mb_def upd_exec_def)
  have "\<exists>sc1 st2. mb_loop cfg tgt k ?sc (next_mb st1) = Inr (sc1, st2, k) \<and> b_inv cfg ts A B rs0 st0 (mset (concat (mb_queues sc1))) st2 \<and>
      sc1 = ?sc\<lparr>mb_queues := mb_queues sc1\<rparr> \<and> length (mb_queues sc1) = length (mb_queues ?sc) \<and>
      mb_num (exec st2) = mb_num (exec (next_mb st1)) + k"
    by (rule Suc.IH [OF i]) (use Suc.prems mb in simp_all)
  then obtain sc1 st2 where r: "mb_loop cfg tgt k ?sc (next_mb st1) = Inr (sc1, st2, k)"
    "b_inv cfg ts A B rs0 st0 (mset (concat (mb_queues sc1))) st2" "sc1 = ?sc\<lparr>mb_queues := mb_queues sc1\<rparr>"
    "length (mb_queues sc1) = length (mb_queues ?sc)" "mb_num (exec st2) = mb_num (exec (next_mb st1)) + k" by blast
  have "sc1 = sc\<lparr>mb_queues := mb_queues sc1\<rparr>" by (subst r(3)) simp
  moreover have "mb_loop cfg tgt (Suc k) sc st = Inr (sc1, st2, Suc k)"
    using j q1(1) r(1) Suc.prems(3) by (simp add: at_res_lt Let_def)
  ultimately show ?case using r(2,4,5) mb by auto
qed auto

lemma drain_queue_ok:
  assumes S: "batch_static cfg ts nid A B rs0 st0"
  shows "b_inv cfg ts A B rs0 st0 (mset q + R) st \<Longrightarrow>
    \<exists>st1. drain_queue cfg nid q st = Inr st1 \<and> b_inv cfg ts A B rs0 st0 R st1 \<and> mb_num (exec st1) = mb_num (exec st)"
proof (induction q arbitrary: st)
  case Nil
  then show ?case by (subst drain_queue.simps) simp
next
  case (Cons e q)
  obtain rs L where i: "b_frame ts st0 st" "b_acc cfg A B rs0 st0 (add_mset e (mset q + R)) rs L st"
    using Cons.prems unfolding b_inv_def by auto
  obtain st1 where r: "run_txn cfg nid False (e # q) st = Inr (q, st1)" "b_inv cfg ts A B rs0 st0 (mset q + R) st1"
    "mb_num (exec st1) = mb_num (exec st)"
    using run_txn_step [OF S i, of False q] unfolding stepped_def b_inv_def by auto
  from Cons.IH [OF r(2)] r show ?case by (subst drain_queue.simps) auto
qed

lemma drain_queues_ok:
  assumes S: "batch_static cfg ts nid A B rs0 st0"
  shows "b_inv cfg ts A B rs0 st0 (mset (concat (mb_queues sc))) st \<Longrightarrow> sc_node_id sc = nid \<Longrightarrow> set qns \<subseteq> {..<length (mb_queues sc)} \<Longrightarrow>
    \<exists>st1. drain_queues cfg qns sc st = Inr (sc\<lparr>mb_queues := map (\<lambda>j. if j \<in> set qns then [] else mb_queues sc ! j) [0..<length (mb_queues sc)]\<rparr>, st1) \<and>
      b_inv cfg ts A B rs0 st0 (mset (concat (map (\<lambda>j. if j \<in> set qns then [] else mb_queues sc ! j) [0..<length (mb_queues sc)]))) st1 \<and>
      mb_num (exec st1) = mb_num (exec st)"
proof (induction qns arbitrary: sc st)
  case Nil
  have e: "map (\<lambda>j. if j \<in> set [] then [] else mb_queues sc ! j) [0..<length (mb_queues sc)] = mb_queues sc" by (simp add: map_nth)
  show ?case unfolding e using Nil by simp
next
  case (Cons j qns)
  let ?qs = "mb_queues sc"
  have j: "j < length ?qs" using Cons.prems(3) by simp
  obtain R where rep: "mset (concat ?qs) = mset (?qs ! j) + R" "\<And>q. mset (concat (?qs[j := q])) = mset q + R"
    by (rule mset_concat_replace [OF j]) (rule that)
  have "b_inv cfg ts A B rs0 st0 (mset (?qs ! j) + R) st" using Cons.prems(1) rep(1) by simp
  from drain_queue_ok [OF S this] obtain st1 where
    d: "drain_queue cfg nid (?qs ! j) st = Inr st1" "b_inv cfg ts A B rs0 st0 R st1"
      "mb_num (exec st1) = mb_num (exec st)" by blast
  let ?sc = "sc\<lparr>mb_queues := ?qs[j := []]\<rparr>"
  have i: "b_inv cfg ts A B rs0 st0 (mset (concat (mb_queues ?sc))) st1" using d(2) rep(2) [of "[]"] by simp
  have e: "map (\<lambda>x. if x \<in> set qns then [] else mb_queues ?sc ! x) [0..<length (mb_queues ?sc)] =
      map (\<lambda>x. if x \<in> set (j # qns) then [] else ?qs ! x) [0..<length ?qs]"
    by (rule map_cong) (auto simp: nth_list_update)
  from Cons.IH [OF i] Cons.prems(2,3) obtain st2 where
    "drain_queues cfg qns ?sc st1 = Inr (?sc\<lparr>mb_queues := map (\<lambda>x. if x \<in> set (j # qns) then [] else ?qs ! x) [0..<length ?qs]\<rparr>, st2)"
    "b_inv cfg ts A B rs0 st0 (mset (concat (map (\<lambda>x. if x \<in> set (j # qns) then [] else ?qs ! x) [0..<length ?qs]))) st2"
    "mb_num (exec st2) = mb_num (exec st1)" unfolding e by auto
  then show ?case using j d(1,3) Cons.prems(2) by (simp add: at_res_lt)
qed

section \<open>A whole batch\<close>

text \<open>
  A worker before the batch at position \<open>i\<close>: on a cluster of 2 to 16 set-up nodes, with loaded
  transactions, a block of the switch, and room in the queue of packets, which holds \<open>rs0\<close>.
\<close>

definition my_table :: "sys \<Rightarrow> StructTable" where
  "my_table st = tables (nodes st ! self st) ! kvs (exec st)"

definition batch_ready ::
  "build_cfg \<Rightarrow> config \<Rightarrow> nat \<Rightarrow> nat \<Rightarrow> nat \<Rightarrow> (nat \<times> nat \<times> nat) list \<Rightarrow> scheduler \<Rightarrow> sys \<Rightarrow> bool" where
  "batch_ready cfg config ts tgt i rs0 sc st \<longleftrightarrow>
     \<not> ORIG_MODE cfg \<and> MAX_PASSES_ACCEL cfg \<noteq> 2 \<and> cluster_ok config \<and> num_nodes config \<le> 16 \<and>
     length (nodes st) = num_nodes config \<and> self st = unat (node_u32 (cfg_node_id config)) \<and>
     PartitionInfo_mk config ts = Inr (part_info (my_table st)) \<and>
     layout_wf (sys_layout st) \<and> SLOTS_PER_SCHED_BLOCK cfg dvd 128 \<and>
     (block_num (sys_layout st) + 1) * SLOTS_PER_SCHED_BLOCK cfg < 65535 \<and>
     sched_of config sc \<and> (\<forall>q \<in> set (mb_queues sc). q = []) \<and>
     i + tgt \<le> length (my_txns st) \<and> (\<forall>j. i \<le> j \<longrightarrow> j < i + tgt \<longrightarrow> loaded ts (my_txns st ! j)) \<and>
     idle ts st \<and> rows_upto ts st \<and> 1 \<le> mb_num (exec st) \<and> mb_num (exec st) + 21 < 2 ^ 27 \<and>
     send_q_holds (send_queue st) rs0 \<and> length rs0 + tgt < send_q_capacity (send_queue st) \<and> (\<forall>b. pkt_shape (pkt_bufs st b))"

lemma fill_fits:
  assumes "cluster_ok config" "PartitionInfo_mk config ts = Inr p" "length (nodes st) = num_nodes config"
    "self st = unat (node_u32 (cfg_node_id config))" "op_id op < ts"
  shows "op_fits ts st (op_fill p op)"
proof -
  let ?n = "num_nodes config" and ?k = "op_id op"
  have d: "?n dvd ts" and ps: "partition_size p = ts div ?n" and me: "my_id p = cfg_node_id config"
    using assms(2) by (simp_all add: PartitionInfo_mk_Inr)
  have o: "?k div (ts div ?n) < ?n" by (rule owner_less [OF assms(5) d])
  have "?n \<le> 256" using assms(1) by (simp add: cluster_ok_def)
  with o have w: "unat (node_u32 (word_of_nat (?k div (ts div ?n)))) = ?k div (ts div ?n)" by (simp add: unat_of_nat)
  have "partition_size p \<noteq> 0" using partition_part_pos [of ts ?n] assms(5) d ps by simp
  then have l: "target (loc_info (op_fill p op)) = word_of_nat (?k div (ts div ?n))"
    "is_local (loc_info (op_fill p op)) \<longleftrightarrow> node_u32 (word_of_nat (?k div (ts div ?n))) = node_u32 (cfg_node_id config)"
    by (simp_all add: op_fill_def location_def Let_def ps me)
  have id: "op_id (op_fill p op) = ?k" by (simp add: op_fill_def)
  show ?thesis
  proof (cases "is_local (loc_info (op_fill p op))")
    case False
    then have "unat (node_u32 (word_of_nat (?k div (ts div ?n)))) \<noteq> self st"
      using l(2) assms(4) by (simp add: word_unat_eq_iff)
    then show ?thesis unfolding op_fits_def id l(1) w using assms(3,5) o by simp
  qed (use id assms(5) in \<open>simp add: op_fits_def\<close>)
qed

lemma sched_batch_split:
  assumes "sched_batch cfg tbl sc d txns start end = Inr (sc', d', txns')" "\<not> ORIG_MODE cfg" "MAX_PASSES_ACCEL cfg \<noteq> 2"
    "partition_size (part_info tbl) \<noteq> 0" "layout_regs d" "\<forall>j. start \<le> j \<longrightarrow> j < end \<longrightarrow> loaded ts (txns ! j)"
  shows "layout_regs d'" "same_layout cfg d d'" "block_num d' = block_num d" "length txns' = length txns"
    "\<And>j. start \<le> j \<Longrightarrow> j < end \<Longrightarrow> split_txn cfg d' (map (op_fill (part_info tbl)) (cold_ops (txns ! j))) (txns' ! j)"
proof -
  let ?s = "\<lparr>ss_sched = sc, ss_txns = txns, ss_layout = d, zero_spray_idx = 0\<rparr>"
  obtain s where s: "sched_txns cfg tbl ?s [start..<end] = Inr s" "d' = ss_layout s" "txns' = ss_txns s"
    using assms(1) unfolding sched_batch_def by (auto simp only: bind_res_eq_Inr Inr_inject prod.inject)
  have "\<forall>j \<in> set [start..<end]. loaded ts (ss_txns ?s ! j)" using assms(6) by simp
  from sched_txns_split [OF assms(2-4) s(1) _ _ this] assms(5)
  show "layout_regs d'" "same_layout cfg d d'" "block_num d' = block_num d" "length txns' = length txns"
    "\<And>j. start \<le> j \<Longrightarrow> j < end \<Longrightarrow> split_txn cfg d' (map (op_fill (part_info tbl)) (cold_ops (txns ! j))) (txns' ! j)"
    unfolding s(2,3) using split_txn_same [of cfg d "ss_layout s"] by simp_all
qed

text \<open>After scheduling, the invariant of the batch holds.\<close>

lemma batch_start:
  assumes r: "batch_ready cfg config ts tgt i rs0 sc st"
  obtains sc' d' txns' where
    "sched_batch cfg (my_table st) sc (sys_layout st) (my_txns st) i (i + tgt) = Inr (sc', d', txns')" "sched_of config sc'"
    "batch_static cfg ts (sc_node_id sc') (\<lambda>e. map (op_fill (part_info (my_table st))) (cold_ops (my_txns st ! e)))
       (mset [i..<i + tgt]) rs0 (st\<lparr>my_txns := txns', sys_layout := d'\<rparr>)"
    "b_inv cfg ts (\<lambda>e. map (op_fill (part_info (my_table st))) (cold_ops (my_txns st ! e))) (mset [i..<i + tgt]) rs0
       (st\<lparr>my_txns := txns', sys_layout := d'\<rparr>) (mset (concat (mb_queues sc'))) (st\<lparr>my_txns := txns', sys_layout := d'\<rparr>)"
    "length txns' = length (my_txns st)"
proof -
  let ?p = "part_info (my_table st)" and ?A = "\<lambda>e. map (op_fill (part_info (my_table st))) (cold_ops (my_txns st ! e))"
  have b: "\<not> ORIG_MODE cfg" "MAX_PASSES_ACCEL cfg \<noteq> 2" "cluster_ok config" "num_nodes config \<le> 16"
    "length (nodes st) = num_nodes config" "self st = unat (node_u32 (cfg_node_id config))"
    "PartitionInfo_mk config ts = Inr ?p" "layout_wf (sys_layout st)" "SLOTS_PER_SCHED_BLOCK cfg dvd 128"
    "(block_num (sys_layout st) + 1) * SLOTS_PER_SCHED_BLOCK cfg < 65535"
    "sched_of config sc" "\<forall>q \<in> set (mb_queues sc). q = []" "i + tgt \<le> length (my_txns st)"
    "\<forall>j. i \<le> j \<longrightarrow> j < i + tgt \<longrightarrow> loaded ts (my_txns st ! j)"
    using r unfolding batch_ready_def by blast+
  have b2: "idle ts st" "rows_upto ts st" "1 \<le> mb_num (exec st)" "mb_num (exec st) + 21 < 2 ^ 27"
    "send_q_holds (send_queue st) rs0" "length rs0 + tgt < send_q_capacity (send_queue st)" "\<forall>b. pkt_shape (pkt_bufs st b)"
    using r unfolding batch_ready_def by blast+
  note lr = layout_wf_regs [OF b(8)]
  obtain sc' d' txns' where sb: "sched_batch cfg (my_table st) sc (sys_layout st) (my_txns st) i (i + tgt) = Inr (sc', d', txns')"
    "sched_of config sc'" "mset (concat (mb_queues sc')) = mset [i..<i + tgt]"
    using sched_batch_ok [OF b(3,7,1) lr b(11-14)] by metis
  let ?st = "st\<lparr>my_txns := txns', sys_layout := d'\<rparr>"
  have ops: "length (?A j) = N_OPS" "\<forall>op \<in> set (?A j). op_mode op \<noteq> INVALID \<and> op_fits ts ?st op" "partition_size ?p \<noteq> 0"
    if "i \<le> j" "j < i + tgt" for j
  proof -
    have ld: "length (cold_ops (my_txns st ! j)) = N_OPS" "\<forall>op \<in> set (cold_ops (my_txns st ! j)). op_mode op \<noteq> INVALID \<and> op_id op < ts"
      using b(14) that unfolding loaded_def by blast+
    show "length (?A j) = N_OPS" using ld(1) by simp
    have "op_fits ts st (op_fill ?p op)" if "op_id op < ts" for op by (rule fill_fits [OF b(3,7,5,6) that])
    moreover have "op_mode (op_fill ?p op) = op_mode op" for op by (simp add: op_fill_def)
    ultimately show "\<forall>op \<in> set (?A j). op_mode op \<noteq> INVALID \<and> op_fits ts ?st op" using ld(2) by (auto simp: op_fits_def)
    have "cold_ops (my_txns st ! j) \<noteq> []" using ld(1) by (auto simp: N_OPS_def)
    then have "0 < ts" using ld(2) by (metis gr_implies_not0 hd_in_set neq0_conv)
    then show "partition_size ?p \<noteq> 0" using b(7) by (auto simp: PartitionInfo_mk_Inr dvd_div_eq_0_iff)
  qed
  show thesis
  proof (cases "tgt = 0")
    case True
    have e: "sc' = sc" "d' = sys_layout st" "txns' = my_txns st"
      using sb(1) True unfolding sched_batch_def by (auto simp: res_elims)
    have "sc_node_id sc' < 16" using sched_of_sel(1) [OF sb(2)] b(3,4) by (simp add: cluster_ok_def)
    then have "batch_static cfg ts (sc_node_id sc') ?A (mset [i..<i + tgt]) rs0 ?st"
      unfolding batch_static_def e using True b b2 lr by simp
    moreover have "b_inv cfg ts ?A (mset [i..<i + tgt]) rs0 ?st (mset (concat (mb_queues sc'))) ?st"
      unfolding b_inv_def b_frame_def b_acc_def e using True b b2 by (auto intro!: exI [of _ "[]"] simp: idle_def same_locks_def)
    ultimately show thesis using that [OF sb(1,2)] e by simp
  next
    case False
    note sp = sched_batch_split [OF sb(1) b(1,2) ops(3) [of i] lr b(14)]
    have sp': "layout_regs d'" "block_num d' = block_num (sys_layout st)" "length txns' = length (my_txns st)"
      "\<And>j. i \<le> j \<Longrightarrow> j < i + tgt \<Longrightarrow> split_txn cfg d' (?A j) (txns' ! j)"
      using sp False by simp_all
    have core: "same_core st ?st" by (simp add: same_core_def)
    note c = core_sel [OF core]
    have "sc_node_id sc' < 16" using sched_of_sel(1) [OF sb(2)] b(3,4) by (simp add: cluster_ok_def)
    moreover have "count (mset [i..<i + tgt]) e = 1 \<and> e < length (my_txns ?st) \<and> length (?A e) = N_OPS \<and>
        (\<forall>op \<in> set (?A e). op_mode op \<noteq> INVALID \<and> op_fits ts ?st op)" if "e \<in># mset [i..<i + tgt]" for e
    proof -
      have e: "i \<le> e" "e < i + tgt" using that by simp_all
      have "count (mset [i..<i + tgt]) e = 1" using e by simp
      moreover have "e < length (my_txns ?st)" using e(2) b(13) sp'(3) by simp
      ultimately show ?thesis using ops(1,2) [OF e] by blast
    qed
    ultimately have "batch_static cfg ts (sc_node_id sc') ?A (mset [i..<i + tgt]) rs0 ?st"
      unfolding batch_static_def using sp'(1,2) b(9,10) b2(3,6) by simp
    moreover have "b_frame ts ?st ?st" using b2 c(6) by (simp add: b_frame_def rows_upto_def same_locks_def)
    moreover have "b_acc cfg ?A (mset [i..<i + tgt]) rs0 ?st (mset (concat (mb_queues sc'))) [] [] ?st"
      unfolding b_acc_def sb(3) using b2 sp'(4) by simp
    ultimately show thesis using that [OF sb(1,2)] sp'(3) unfolding b_inv_def by blast
  qed
qed

lemma back_runnable:
  assumes "b_frame ts st0 st'" "back_cold all (my_txns st' ! e)" "e < length (my_txns st0)" "length all = N_OPS"
    "\<forall>op \<in> set all. op_mode op \<noteq> INVALID \<and> op_fits ts st0 op"
  shows "runnable cfg ts st' e"
proof -
  have f: "self st' = self st0" "length (nodes st') = length (nodes st0)" "length (my_txns st') = length (my_txns st0)"
    using assms(1) by (simp_all add: b_frame_def)
  have b: "\<not> do_accel (my_txns st' ! e)" "mset (cold_ops (my_txns st' ! e)) = mset all" using assms(2) by (simp_all add: back_cold_def)
  have "length (cold_ops (my_txns st' ! e)) = N_OPS" using b(2) assms(4) by (metis size_mset)
  moreover have "set (cold_ops (my_txns st' ! e)) = set all" using b(2) by (rule mset_eq_setD)
  ultimately show ?thesis using b(1) f assms(3,5) by (simp add: runnable_def op_fits_def)
qed

lemma batch_cold_ok:
  assumes r: "batch_ready cfg config ts tgt i rs0 sc st"
  shows "\<exists>sc' st' rs L. batch_cold cfg tgt mini_tgt i sc st = Inr (sc', st', 21) \<and> sched_of config sc' \<and>
    (\<forall>q \<in> set (mb_queues sc'). q = []) \<and> idle ts st' \<and> mb_num (exec st') = mb_num (exec st) + 21 \<and>
    send_q_holds (send_queue st') (rs0 @ rs) \<and> sorted (map fst rs) \<and>
    (\<forall>r \<in> set rs. mb_num (exec st) \<le> fst r \<and> fst r < mb_num (exec st') \<and> fst (snd r) = ex_tid (exec st)) \<and>
    leftover_txns (exec st') = leftover_txns (exec st) @ L \<and>
    mset (map (snd \<circ> snd) rs) + mset L = mset [i..<i + tgt] \<and>
    (\<forall>e \<in> set L. runnable cfg ts st' e \<and>
       mset (cold_ops (my_txns st' ! e)) = mset (map (op_fill (part_info (my_table st))) (cold_ops (my_txns st ! e)))) \<and>
    same_locks st st' \<and> length (nodes st') = length (nodes st) \<and> self st' = self st"
proof -
  let ?A = "\<lambda>e. map (op_fill (part_info (my_table st))) (cold_ops (my_txns st ! e))" and ?B = "mset [i..<i + tgt]"
  obtain sc0 d txns where s: "sched_batch cfg (my_table st) sc (sys_layout st) (my_txns st) i (i + tgt) = Inr (sc0, d, txns)"
    "sched_of config sc0" and S: "batch_static cfg ts (sc_node_id sc0) ?A ?B rs0 (st\<lparr>my_txns := txns, sys_layout := d\<rparr>)"
    and I: "b_inv cfg ts ?A ?B rs0 (st\<lparr>my_txns := txns, sys_layout := d\<rparr>) (mset (concat (mb_queues sc0))) (st\<lparr>my_txns := txns, sys_layout := d\<rparr>)"
    by (rule batch_start [OF r]) (rule that)
  let ?st = "st\<lparr>my_txns := txns, sys_layout := d\<rparr>"
  have cl: "cluster_ok config" "mb_num (exec st) + 21 < 2 ^ 27" "idle ts st" using r unfolding batch_ready_def by blast+
  note sel = sched_of_sel [OF s(2)]
  have nq: "0 < n_queues sc0" "n_queues sc0 = length (mb_queues sc0)" using sel cl(1) by (simp_all add: cluster_ok_def)
  have K: "BATCH_SIZE_TGT div MINI_BATCH_SIZE_TGT = 20" by (simp add: BATCH_SIZE_TGT_def MINI_BATCH_SIZE_TGT_def)
  have m20: "mb_num (exec ?st) + 20 < 2 ^ 27" using cl(2) by simp
  obtain sc1 st1 where l: "mb_loop cfg mini_tgt 20 sc0 ?st = Inr (sc1, st1, 20)" "b_inv cfg ts ?A ?B rs0 ?st (mset (concat (mb_queues sc1))) st1"
    "sc1 = sc0\<lparr>mb_queues := mb_queues sc1\<rparr>" "length (mb_queues sc1) = length (mb_queues sc0)" "mb_num (exec st1) = mb_num (exec ?st) + 20"
    using mb_loop_ok [OF S I S nq m20, of mini_tgt] by blast
  have sc1: "sc_node_id sc1 = sc_node_id sc0" "n_queues sc1 = length (mb_queues sc1)" "sched_of config sc1"
  proof -
    show "sc_node_id sc1 = sc_node_id sc0" by (subst l(3)) simp
    show "n_queues sc1 = length (mb_queues sc1)" unfolding l(4) nq(2) [symmetric] by (subst l(3)) simp
    show "sched_of config sc1" using s(2) l(4) by (subst l(3)) (simp add: sched_of_def)
  qed
  let ?sc2 = "sc1\<lparr>mb_queues := map (\<lambda>j. []) [0..<length (mb_queues sc1)]\<rparr>"
  have e: "map (\<lambda>j. if j \<in> set [0..<n_queues sc1] then [] else mb_queues sc1 ! j) [0..<length (mb_queues sc1)] =
      map (\<lambda>j. []) [0..<length (mb_queues sc1)]"
    unfolding sc1(2) by (rule map_cong) simp_all
  have sub: "set [0..<n_queues sc1] \<subseteq> {..<length (mb_queues sc1)}" by (auto simp: sc1(2))
  obtain st2 where d2: "drain_queues cfg [0..<n_queues sc1] sc1 st1 = Inr (?sc2, st2)"
    "b_inv cfg ts ?A ?B rs0 ?st (mset (concat (map (\<lambda>j. []) [0..<length (mb_queues sc1)]))) st2" "mb_num (exec st2) = mb_num (exec st1)"
    using drain_queues_ok [OF S l(2) sc1(1) sub] unfolding e by blast
  have z: "mset (concat (map (\<lambda>j. []) [0..<length (mb_queues sc1)])) = ({#} :: nat multiset)" by simp
  obtain rs L where f: "b_frame ts ?st st2" and a: "b_acc cfg ?A ?B rs0 ?st {#} rs L st2"
    using d2(2) unfolding b_inv_def z by blast
  have run: "batch_cold cfg tgt mini_tgt i sc st = Inr (?sc2, next_mb st2, 21)"
  proof -
    have n: "my_node st = Inr (nodes st ! self st)" "at_res (tables (nodes st ! self st)) (kvs (exec st)) = Inr (my_table st)"
      using cl(3) unfolding idle_def exec_ok_def nodes_ok_def by (auto simp: my_node_def my_table_def node_ok_def)
    show ?thesis by (simp add: batch_cold_def K n s(1) l(1) d2(1) del: at_res_Inr)
  qed
  have core: "same_core st2 (next_mb st2)" by (simp add: same_core_def next_mb_def upd_exec_def)
  have nx: "mb_num (exec (next_mb st2)) = mb_num (exec st) + 21" "leftover_txns (exec (next_mb st2)) = leftover_txns (exec st2)"
    "my_txns (next_mb st2) = my_txns st2" "send_queue (next_mb st2) = send_queue st2"
    using d2(3) l(5) by (simp_all add: next_mb_def upd_exec_def)
  have rn: "runnable cfg ts (next_mb st2) x \<and> mset (cold_ops (my_txns (next_mb st2) ! x)) = mset (?A x)" if "x \<in> set L" for x
  proof -
    have "mset (map (snd \<circ> snd) rs) + mset L = ?B" "back_cold (?A x) (my_txns st2 ! x)"
      using a that unfolding b_acc_def by simp_all
    then have bc: "back_cold (?A x) (my_txns st2 ! x)" "x \<in># ?B" using that by (metis set_mset_mset union_iff)+
    then have "runnable cfg ts st2 x"
      using S by (intro back_runnable [OF f bc(1)]) (auto simp: batch_static_def)
    then have "runnable cfg ts (next_mb st2) x" unfolding runnable_def nx(3) core_sel(8) [OF core] .
    then show ?thesis using bc(1) nx(3) by (simp add: back_cold_def)
  qed
  have "idle ts (next_mb st2)" using f core_sel(6) [OF core] by (simp add: b_frame_def)
  moreover have "sched_of config ?sc2" using sc1(3) by (simp add: sched_of_def)
  moreover have "\<forall>r \<in> set rs. mb_num (exec st) \<le> fst r \<and> fst r < mb_num (exec (next_mb st2)) \<and> fst (snd r) = ex_tid (exec st)"
    using a d2(3) l(5) unfolding b_acc_def nx(1) by fastforce
  moreover have "send_q_holds (send_queue (next_mb st2)) (rs0 @ rs)" "sorted (map fst rs)"
    "leftover_txns (exec (next_mb st2)) = leftover_txns (exec st) @ L" "mset (map (snd \<circ> snd) rs) + mset L = ?B"
    using a unfolding b_acc_def nx by simp_all
  moreover have "same_locks st (next_mb st2)" "length (nodes (next_mb st2)) = length (nodes st)" "self (next_mb st2) = self st"
  proof -
    have "same_locks ?st st2" "length (nodes st2) = length (nodes ?st)" using f by (simp_all add: b_frame_def)
    moreover have "same_locks st ?st" by (simp add: same_locks_def)
    ultimately show "same_locks st (next_mb st2)" using same_locks_trans same_locks_core [OF core] by blast
    show "length (nodes (next_mb st2)) = length (nodes st)" "self (next_mb st2) = self st"
      using f by (simp_all add: b_frame_def next_mb_def upd_exec_def)
  qed
  ultimately show ?thesis
    using run nx(1) rn by (intro exI [of _ ?sc2] exI [of _ "next_mb st2"] exI [of _ rs] exI [of _ L]) simp
qed

text \<open>
  C2. No transaction of a batch is lost. From a ready worker the whole cold part of a batch (scheduling,
  twenty mini-batches and the drain) runs without error and passes 21 barriers of the workers. Afterwards all
  queues are empty, the worker holds no lock, the mini-batch number has grown by 21, and every transaction of the batch is
  in exactly one of two places: as one packet of the queue for the switch, in the order of the mini-batches
  and with a number of this batch, or once among the leftover transactions, with all the operations
  it was loaded with back on the host. The lock state of every row is as before.
\<close>

theorem batch_accounts:
  assumes "batch_ready cfg config ts tgt i rs0 sc st"
  shows "\<exists>sc' st' rs L. batch_cold cfg tgt mini_tgt i sc st = Inr (sc', st', 21) \<and> sched_of config sc' \<and>
    (\<forall>q \<in> set (mb_queues sc'). q = []) \<and> idle ts st' \<and> mb_num (exec st') = mb_num (exec st) + 21 \<and>
    send_q_holds (send_queue st') (rs0 @ rs) \<and> sorted (map fst rs) \<and>
    (\<forall>r \<in> set rs. mb_num (exec st) \<le> fst r \<and> fst r < mb_num (exec st') \<and> fst (snd r) = ex_tid (exec st)) \<and>
    leftover_txns (exec st') = leftover_txns (exec st) @ L \<and>
    mset (map (snd \<circ> snd) rs) + mset L = mset [i..<i + tgt] \<and>
    (\<forall>e \<in> set L. runnable cfg ts st' e \<and>
       mset (cold_ops (my_txns st' ! e)) = mset (map (op_fill (part_info (my_table st))) (cold_ops (my_txns st ! e)))) \<and>
    same_locks st st'"
  using batch_cold_ok [OF assms, of mini_tgt] by blast

text \<open>A batch on a quiet cluster, with the leader's return of the packet queue and the leftover transactions.\<close>

lemma quiet_same: "same_locks st st' \<Longrightarrow> length (nodes st') = length (nodes st) \<Longrightarrow> quiet ts st \<Longrightarrow> quiet ts st'"
  unfolding same_locks_def quiet_def in_range_def by metis

lemma runnable_queue: "runnable cfg ts (st\<lparr>send_queue := q\<rparr>) e = runnable cfg ts st e"
  by (simp add: runnable_def op_fits_def)

lemma run_leftover_queue:
  assumes "idle ts st" "quiet ts st" "\<forall>e \<in> set (leftover_txns (exec st)). runnable cfg ts st e" "send_q_holds (send_queue st) []"
  shows "if length (filter (\<lambda>e. \<not> conflict_free (self st) (live_ops (cold_ops (my_txns st ! e)))) (leftover_txns (exec st)))
        \<le> length (leftover_txns (exec st)) div 100
     then \<exists>st3. single_db_section cfg en st = Some (Inr st3) \<and> leftover_txns (exec st3) = [] \<and> idle ts st3 \<and> quiet ts st3 \<and>
       send_q_holds (send_queue st3) []
     else single_db_section cfg en st = None"
proof (cases "length (filter (\<lambda>e. \<not> conflict_free (self st) (live_ops (cold_ops (my_txns st ! e)))) (leftover_txns (exec st)))
        \<le> length (leftover_txns (exec st)) div 100")
  case True
  obtain st3 where "run_leftover_txns cfg en st = Some (Inr st3)" "leftover_txns (exec st3) = []" "idle ts st3" "quiet ts st3"
    "send_queue st3 = send_queue st"
    using run_leftover_cases [OF assms(1-3), of en] unfolding if_P [OF True] by blast
  moreover have "send_q_tail (send_queue st) = 0" using assms(4) by (simp add: send_q_holds_def)
  ultimately show ?thesis using assms(4) unfolding if_P [OF True] by (intro exI [of _ st3]) (simp add: single_db_section_def)
next
  case False
  then show ?thesis using run_leftover_cases [OF assms(1-3), of en] unfolding if_not_P [OF False] by (simp add: single_db_section_def)
qed

text \<open>Whether a transaction conflicts with itself does not depend on the order of its operations.\<close>

definition compatible_ops :: "nat \<Rightarrow> OP \<Rightarrow> OP \<Rightarrow> bool" where
  "compatible_ops sf op op' \<longleftrightarrow> (place sf op' = place sf op \<longrightarrow> op_mode op = READ \<and> op_mode op' = READ)"

lemma compatible_ops_sym: "compatible_ops sf op op' = compatible_ops sf op' op"
  by (auto simp: compatible_ops_def)

lemma conflict_free_pairs:
  "conflict_free sf ops \<longleftrightarrow> (\<forall>op \<in># mset ops. \<forall>op' \<in># mset ops - {#op#}. compatible_ops sf op op')"
proof (induction ops)
  case (Cons a ops)
  have ca: "conflict_free sf (a # ops) \<longleftrightarrow> (\<forall>op \<in> set ops. compatible_ops sf a op) \<and> conflict_free sf ops"
    by (auto simp: compatible_ops_def list_all_iff)
  have d: "add_mset a (mset ops) - {#op#} = add_mset a (mset ops - {#op#})" if "op \<in># mset ops" for op
    using diff_union_single_conv [OF that, of "{#a#}"] by simp
  have "(\<forall>op \<in># mset (a # ops). \<forall>op' \<in># mset (a # ops) - {#op#}. compatible_ops sf op op') \<longleftrightarrow>
      (\<forall>op \<in># mset ops. compatible_ops sf a op) \<and>
      (\<forall>op \<in># mset ops. \<forall>op' \<in># add_mset a (mset ops - {#op#}). compatible_ops sf op op')"
    using d by simp
  also have "\<dots> \<longleftrightarrow> (\<forall>op \<in># mset ops. compatible_ops sf a op) \<and>
      (\<forall>op \<in># mset ops. \<forall>op' \<in># mset ops - {#op#}. compatible_ops sf op op')"
    using compatible_ops_sym [of sf a] by auto
  finally show ?case unfolding ca Cons.IH by simp
qed simp

lemma conflict_free_mset: "mset ops = mset ops' \<Longrightarrow> conflict_free sf ops = conflict_free sf ops'"
  by (simp add: conflict_free_pairs)

text \<open>
  C4. A batch ends. On a quiet cluster, with an empty queue of packets and no leftover transactions from
  before, the cold part of the batch leaves some transactions as packets for the hot period (in the order of their
  mini-batches, all numbers between those of this batch) and the others as leftover transactions; once the leader has given the queue back,
  the section inside the last barrier returns exactly when at most one in a hundred of the leftover transactions
  needs a row twice, once for writing. Then nothing is left over, no assertion has failed, and every row is free.
\<close>

theorem batch_ends:
  assumes "batch_ready cfg config ts tgt i [] sc st" "quiet ts st" "leftover_txns (exec st) = []"
  shows "\<exists>sc' st' rs L. batch_cold cfg tgt mini_tgt i sc st = Inr (sc', st', 21) \<and>
    batch_queued (send_queue st') rs (mb_num (exec st)) (mb_num (exec st')) \<and> leftover_txns (exec st') = L \<and>
    mset (map (snd \<circ> snd) rs) + mset L = mset [i..<i + tgt] \<and>
    (let st2 = st'\<lparr>send_queue := done_sending (send_queue st')\<rparr>;
         self_conflicting = (\<lambda>e. \<not> conflict_free (self st) (map (op_fill (part_info (my_table st))) (cold_ops (my_txns st ! e)))) in
     if length (filter self_conflicting L) \<le> length L div 100
     then \<exists>st3. single_db_section cfg en st2 = Some (Inr st3) \<and> leftover_txns (exec st3) = [] \<and> idle ts st3 \<and> quiet ts st3 \<and>
       send_q_holds (send_queue st3) []
     else single_db_section cfg en st2 = None)"
proof -
  let ?A = "\<lambda>e. map (op_fill (part_info (my_table st))) (cold_ops (my_txns st ! e))"
  obtain sc' st' rs L where b: "batch_cold cfg tgt mini_tgt i sc st = Inr (sc', st', 21)" "idle ts st'"
    "send_q_holds (send_queue st') ([] @ rs)" "sorted (map fst rs)"
    "\<forall>r \<in> set rs. mb_num (exec st) \<le> fst r \<and> fst r < mb_num (exec st') \<and> fst (snd r) = ex_tid (exec st)"
    "leftover_txns (exec st') = leftover_txns (exec st) @ L" "mset (map (snd \<circ> snd) rs) + mset L = mset [i..<i + tgt]"
    "\<forall>e \<in> set L. runnable cfg ts st' e \<and> mset (cold_ops (my_txns st' ! e)) = mset (?A e)"
    and k: "same_locks st st'" "length (nodes st') = length (nodes st)" "self st' = self st"
    using batch_cold_ok [OF assms(1), of mini_tgt] by blast
  let ?st = "st'\<lparr>send_queue := done_sending (send_queue st')\<rparr>"
  have q: "batch_queued (send_queue st') rs (mb_num (exec st)) (mb_num (exec st'))" using b(3-5) by (simp add: batch_queued_def)
  have core: "same_core st' ?st" by (simp add: same_core_def)
  note c = core_sel [OF core]
  have i: "idle ts ?st" "quiet ts ?st" "\<forall>e \<in> set (leftover_txns (exec ?st)). runnable cfg ts ?st e"
    using b(2,6,8) assms(3) c(6) quiet_same [OF k(1,2) assms(2)] unfolding runnable_queue by (simp_all add: quiet_def)
  have empty: "send_q_holds (send_queue ?st) []" using send_q_holds_done [OF b(3)] by simp
  have om: "\<not> ORIG_MODE cfg" using assms(1) unfolding batch_ready_def by blast
  have "conflict_free (self st') (live_ops (cold_ops (my_txns st' ! e))) = conflict_free (self st) (?A e)" if e: "e \<in> set L" for e
  proof -
    have "\<forall>op \<in> set (cold_ops (my_txns st' ! e)). op_mode op \<noteq> INVALID" using b(8) e om by (simp add: runnable_def)
    then have "live_ops (cold_ops (my_txns st' ! e)) = cold_ops (my_txns st' ! e)" by (simp add: live_ops_def takeWhile_all)
    then show ?thesis using conflict_free_mset b(8) e k(3) by metis
  qed
  then have "filter (\<lambda>e. \<not> conflict_free (self ?st) (live_ops (cold_ops (my_txns ?st ! e)))) (leftover_txns (exec ?st)) =
      filter (\<lambda>e. \<not> conflict_free (self st) (?A e)) L"
    using b(6) assms(3) by (simp cong: filter_cong)
  note run = run_leftover_queue [OF i empty, of en, unfolded this]
  have L: "leftover_txns (exec st') = L" using b(6) assms(3) by simp
  then have "leftover_txns (exec ?st) = L" by simp
  with run show ?thesis
    using b(1,7) q L unfolding Let_def by (intro exI [of _ sc'] exI [of _ st'] exI [of _ rs] exI [of _ L]) simp
qed

section \<open>An example\<close>

text \<open>Two nodes, and a worker with two transactions that write a row here and one there.\<close>

definition batch_demo_config :: config where
  "batch_demo_config = part_demo\<lparr>num_nodes := 2, cfg_switch_id := 2, table_size := 80\<rparr>"

definition batch_demo :: "DeclusteredLayout \<Rightarrow> sys" where
  "batch_demo d = demo_sys (d\<lparr>block_num := 5\<rparr>) [Txn_mk 1 demo_cold_ops, Txn_mk 2 demo_cold_ops]"

lemma batch_demo_ready:
  assumes "layout_wf d"
  shows "batch_ready layout_demo_cfg batch_demo_config 80 2 0 [] (scheduler_mk batch_demo_config) (batch_demo d)"
    "quiet 80 (batch_demo d)" "leftover_txns (exec (batch_demo d)) = []"
proof -
  have c: "cluster_ok batch_demo_config" "num_nodes batch_demo_config = 2" "cfg_node_id batch_demo_config = 0"
    by (simp_all add: cluster_ok_def batch_demo_config_def part_demo_def node_u32_def)
  have t: "my_table (batch_demo d) = txn_demo_table"
    by (simp add: my_table_def batch_demo_def demo_sys_def demo_node_def TxnExecutor_mk_def)
  have p: "PartitionInfo_mk batch_demo_config 80 = Inr (part_info txn_demo_table)"
    by (simp add: PartitionInfo_mk_def batch_demo_config_def part_demo_def txn_demo_table_def node_u32_def)
  have wf: "layout_wf (sys_layout (batch_demo d))" using assms by (simp add: batch_demo_def demo_sys_def layout_wf_def)
  have l: "\<forall>j. 0 \<le> j \<longrightarrow> j < 0 + 2 \<longrightarrow> loaded 80 (my_txns (batch_demo d) ! j)"
    by (auto simp: loaded_def batch_demo_def demo_self Txn_mk_def demo_cold_fits demo_cold_ops_def demo_op1_def demo_op2_def less_Suc_eq
        numeral_2_eq_2 N_OPS_def)
  have r: "row_wf (Row_mk t)" "unat (owner_cnt (Row_mk t)) < 2 ^ 31" "unat (mini_batch_id (last_acq (Row_mk t))) \<le> n" for t n
    by (simp_all add: Row_mk_def row_wf_def TxnId_mk_def)
  have u: "rows_upto 80 (batch_demo d)" unfolding rows_upto_def batch_demo_def using demo_rows r by metis
  have m: "sched_of batch_demo_config (scheduler_mk batch_demo_config)" "\<forall>q \<in> set (mb_queues (scheduler_mk batch_demo_config)). q = []"
    by (simp_all add: sched_of_def scheduler_mk_def Let_def)
  have g: "\<not> ORIG_MODE layout_demo_cfg" "MAX_PASSES_ACCEL layout_demo_cfg \<noteq> 2" "SLOTS_PER_SCHED_BLOCK layout_demo_cfg dvd 128"
    "(block_num (sys_layout (batch_demo d)) + 1) * SLOTS_PER_SCHED_BLOCK layout_demo_cfg < 65535"
    by (simp_all add: layout_demo_cfg_def default_build_def batch_demo_def demo_sys_def)
  have n: "num_nodes batch_demo_config \<le> 16" "length (nodes (batch_demo d)) = num_nodes batch_demo_config"
    "self (batch_demo d) = unat (node_u32 (cfg_node_id batch_demo_config))" "0 + 2 \<le> length (my_txns (batch_demo d))"
    "1 \<le> mb_num (exec (batch_demo d))" "mb_num (exec (batch_demo d)) + 21 < 2 ^ 27"
    by (simp_all add: c batch_demo_def demo_self node_u32_def) (simp add: demo_sys_def)
  have q: "send_q_holds (send_queue (batch_demo d)) []" "length [] + 2 < send_q_capacity (send_queue (batch_demo d))"
    "\<forall>b. pkt_shape (pkt_bufs (batch_demo d) b)"
    using send_q_holds_mk [of 3] demo_pkt_shape by (simp_all add: batch_demo_def demo_self hot_send_q_mk_def) (simp add: demo_sys_def)
  have i: "idle 80 (batch_demo d)" unfolding batch_demo_def by (rule demo_idle)
  show "batch_ready layout_demo_cfg batch_demo_config 80 2 0 [] (scheduler_mk batch_demo_config) (batch_demo d)"
    unfolding batch_ready_def t using c(1) p wf l u m g n q i by blast
  have "lock_type (Row_mk t) = INVALID \<and> owner_cnt (Row_mk t) = 0" for t by (simp add: Row_mk_def)
  then show "quiet 80 (batch_demo d)" unfolding quiet_def batch_demo_def using demo_rows by metis
  show "leftover_txns (exec (batch_demo d)) = []" by (simp add: batch_demo_def demo_sys_def TxnExecutor_mk_def)
qed

theorem batch_accounts_witness:
  "\<exists>d sc' st' rs L. DeclusteredLayout_mk layout_demo_cfg sched_demo_freq = Inr d \<and>
     batch_cold layout_demo_cfg 2 1 0 (scheduler_mk batch_demo_config) (batch_demo d) = Inr (sc', st', 21) \<and>
     mb_num (exec st') = 22 \<and> send_q_holds (send_queue st') rs \<and> leftover_txns (exec st') = L \<and>
     mset (map (snd \<circ> snd) rs) + mset L = {#0, 1#}"
proof -
  obtain d where d: "DeclusteredLayout_mk layout_demo_cfg sched_demo_freq = Inr d" "layout_wf d" by (rule sched_demo_layout)
  have n: "mb_num (exec (batch_demo d)) = 1" "mset [0..<0 + 2] = {#0, 1 :: nat#}"
    by (simp_all add: batch_demo_def demo_self numeral_2_eq_2)
  show ?thesis
    using batch_accounts [OF batch_demo_ready(1) [OF d(2)], of 1] d(1) batch_demo_ready(3) [OF d(2)] unfolding n by fastforce
qed

theorem batch_ends_witness:
  "\<exists>d sc' st' st3. DeclusteredLayout_mk layout_demo_cfg sched_demo_freq = Inr d \<and>
     batch_cold layout_demo_cfg 2 1 0 (scheduler_mk batch_demo_config) (batch_demo d) = Inr (sc', st', 21) \<and>
     single_db_section layout_demo_cfg (\<lambda>_. demo_en) (st'\<lparr>send_queue := done_sending (send_queue st')\<rparr>) = Some (Inr st3) \<and>
     leftover_txns (exec st3) = [] \<and> send_q_holds (send_queue st3) []"
proof -
  obtain d where d: "DeclusteredLayout_mk layout_demo_cfg sched_demo_freq = Inr d" "layout_wf d" by (rule sched_demo_layout)
  let ?st = "batch_demo d"
  have t: "my_table ?st = txn_demo_table" by (simp add: my_table_def batch_demo_def demo_sys_def demo_node_def TxnExecutor_mk_def)
  have pl: "place 0 (op_fill (part_info txn_demo_table) op) = (0, op_id op)" "op_mode (op_fill (part_info txn_demo_table) op) = op_mode op"
    if "op_id op < 40" for op
    using that by (simp_all add: op_fill_def location_def Let_def txn_demo_table_def place_def)
  have six: "replicate 6 x = [x, x, x, x, x, x]" for x :: OP by (simp add: numeral_eq_Suc)
  have cf: "conflict_free (self ?st) (map (op_fill (part_info (my_table ?st))) (cold_ops (my_txns ?st ! e)))" if "e \<in> {0, 1}" for e
  proof -
    have "self ?st = 0" "cold_ops (my_txns ?st ! e) = demo_cold_ops"
      using that by (auto simp: batch_demo_def demo_self Txn_mk_def)
    then show ?thesis unfolding t demo_cold_ops_def six by (simp add: pl demo_op1_def demo_op2_def)
  qed
  obtain sc' st' L and rs :: "(nat \<times> nat \<times> nat) list" where b: "batch_cold layout_demo_cfg 2 1 0 (scheduler_mk batch_demo_config) ?st = Inr (sc', st', 21)"
    "mset (map (snd \<circ> snd) rs) + mset L = mset [0..<0 + 2]" and
    e: "let st2 = st'\<lparr>send_queue := done_sending (send_queue st')\<rparr>;
         self_conflicting = (\<lambda>e. \<not> conflict_free (self ?st) (map (op_fill (part_info (my_table ?st))) (cold_ops (my_txns ?st ! e)))) in
     if length (filter self_conflicting L) \<le> length L div 100
     then \<exists>st3. single_db_section layout_demo_cfg (\<lambda>_. demo_en) st2 = Some (Inr st3) \<and> leftover_txns (exec st3) = [] \<and> idle 80 st3 \<and> quiet 80 st3 \<and>
       send_q_holds (send_queue st3) []
     else single_db_section layout_demo_cfg (\<lambda>_. demo_en) st2 = None"
    using batch_ends [OF batch_demo_ready [OF d(2)], of 1 "\<lambda>_. demo_en"] by blast
  have "e \<in> {0, 1}" if "e \<in> set L" for e
  proof -
    have "e \<in># mset [0..<0 + 2]" using b(2) that by (metis set_mset_mset union_iff)
    then show ?thesis by auto
  qed
  then have "filter (\<lambda>e. \<not> conflict_free (self ?st) (map (op_fill (part_info (my_table ?st))) (cold_ops (my_txns ?st ! e)))) L = []"
    using cf by (simp add: filter_empty_conv)
  with e have "\<exists>st3. single_db_section layout_demo_cfg (\<lambda>_. demo_en) (st'\<lparr>send_queue := done_sending (send_queue st')\<rparr>) = Some (Inr st3) \<and>
      leftover_txns (exec st3) = [] \<and> send_q_holds (send_queue st3) []"
    unfolding Let_def by auto
  with d(1) b(1) show ?thesis by blast
qed

end
