(* ===== verification/P4_Util.thy ===== *)
theory P4_Util
  imports P4_Prelude
begin

text \<open>
  The integer logarithms and the formatting of sizes of \<open>utils/util.hpp\<close> and \<open>utils/util.cpp\<close>.
  Unsigned integers of width \<open>w\<close> are numbers below \<open>2 ^ w\<close>, with the wrap-around written out.
\<close>

unbundle bit_operations_syntax

section \<open>Logarithms\<close>

text \<open>\<open>__builtin_clzll\<close>: the zero bits above the highest set bit of a 64-bit number.\<close>

definition clzll :: "nat \<Rightarrow> nat" where
  "clzll x = length (takeWhile (\<lambda>i. \<not> bit x i) (rev [0..<64]))"

definition log2floor :: "nat \<Rightarrow> nat" where
  "log2floor x = (if x \<noteq> 0 then 63 - clzll x else 0)"

definition log10_guesses :: "nat list" where
  "log10_guesses = [0, 0, 0, 0, 1, 1, 1, 2, 2, 2, 3, 3, 3, 3, 4, 4, 4, 5, 5, 5,
     6, 6, 6, 6, 7, 7, 7, 8, 8, 8, 9, 9]"

definition log10_powers :: "nat list" where
  "log10_powers = [1, 10, 100, 1000, 10000, 100000, 1000000, 10000000, 100000000, 1000000000, 10000000000]"

definition log10floor :: "nat \<Rightarrow> nat result" where
  "log10floor x =
     bind_res (at_res log10_guesses (log2floor x)) (\<lambda>guess.
     bind_res (at_res log10_powers (guess + 1)) (\<lambda>p.
     ok (guess + (if x \<ge> p then 1 else 0))))"

text \<open>The loop \<open>while (val /= base) ++result\<close>; it does not end for base 1.\<close>

partial_function (option) naive_loop :: "nat \<Rightarrow> nat \<Rightarrow> nat \<Rightarrow> nat result option" where
  "naive_loop val base r =
     (if base = 0 then Some (fail DivisionByZero)
      else if val div base = 0 then Some (ok r)
      else naive_loop (val div base) base (r + 1))"

definition logFloor_naive :: "nat \<Rightarrow> nat \<Rightarrow> nat result option" where
  "logFloor_naive val base = naive_loop val base 0"

text \<open>The value of a call evaluated by the compiler. The tables below are only made for a base that is
  not a power of 2, hence at least 3, where the call returns.\<close>

definition const_of :: "nat result option \<Rightarrow> nat" where
  "const_of r = (case r of Some (Inr n) \<Rightarrow> n | _ \<Rightarrow> 0)"

definition makeGuessTable :: "nat \<Rightarrow> nat \<Rightarrow> nat list" where
  "makeGuessTable w base = map (\<lambda>i. const_of (logFloor_naive (2 ^ i) (base mod 2 ^ 32))) [0..<w]"

definition maxExp :: "nat \<Rightarrow> nat \<Rightarrow> nat" where
  "maxExp w base = const_of (logFloor_naive (2 ^ w - 1) base)"

primrec power_loop :: "nat \<Rightarrow> nat \<Rightarrow> nat \<Rightarrow> nat list" where
  "power_loop 0 base x = []"
| "power_loop (Suc n) base x = x # power_loop n base (x * base mod 2 ^ 64)"

definition makePowerTable :: "nat \<Rightarrow> nat \<Rightarrow> nat list" where
  "makePowerTable w base = power_loop (maxExp w base + 2) base 1"

definition isPow2or0 :: "nat \<Rightarrow> bool" where
  "isPow2or0 val = ((val AND (val - 1)) = 0)"

definition logFloor :: "nat \<Rightarrow> nat \<Rightarrow> nat \<Rightarrow> nat result" where
  "logFloor w base val =
     (if isPow2or0 base then
        (if log2floor base = 0 then fail DivisionByZero else ok (log2floor val div log2floor base))
      else
        let guesses = makeGuessTable w base; powers = makePowerTable w base in
        bind_res (at_res guesses (log2floor val)) (\<lambda>guess.
        if w < 64 \<or> last guesses + 2 < length powers then
          bind_res (at_res powers (guess + 1)) (\<lambda>p. ok (guess + (if val \<ge> p then 1 else 0)))
        else
          bind_res (at_res powers guess) (\<lambda>p. ok (guess + (if val div base \<ge> p then 1 else 0)))))"

section \<open>Formatting\<close>

fun to_string :: "nat \<Rightarrow> string" where
  "to_string n = (if n < 10 then [char_of (48 + n)] else to_string (n div 10) @ [char_of (48 + n mod 10)])"

text \<open>The long division: \<open>tmp\<close> is a 32-bit number.\<close>

primrec frac_digits :: "nat \<Rightarrow> nat \<Rightarrow> nat \<Rightarrow> string" where
  "frac_digits 0 den tmp = []"
| "frac_digits (Suc n) den tmp =
     (let tmp = tmp * 10 mod 2 ^ 32 in char_of ((48 + tmp div den) mod 256) # frac_digits n den (tmp mod den))"

definition stringifyFraction :: "nat \<Rightarrow> nat \<Rightarrow> nat \<Rightarrow> string" where
  "stringifyFraction num den precision =
     (if den = 0 then ''inf''
      else
        let result = to_string (num div den); tmp = num mod den in
        if tmp = 0 \<or> precision = 0 then result else result @ ''.'' @ frac_digits precision den tmp)"

definition FILE_SIZE_UNITS :: "string list" where
  "FILE_SIZE_UNITS = [''B'', ''KB'', ''MB'', ''GB'', ''TB'', ''PB'', ''EB'', ''ZB'']"

text \<open>\<open>stringifyFileSize\<close>, for the bases 1000 and 1024; the denominator is passed as a 32-bit
  number.\<close>

definition stringifyFileSize :: "nat \<Rightarrow> nat \<Rightarrow> nat \<Rightarrow> string result" where
  "stringifyFileSize base size_val precision =
     (let powers = makePowerTable 64 base in
      bind_res (logFloor 64 base size_val) (\<lambda>u.
      bind_res (at_res powers u) (\<lambda>p.
      bind_res (at_res FILE_SIZE_UNITS u) (\<lambda>nm.
      bind_res (at_res nm 0) (\<lambda>c.
      let first = (if base = 1000 then char_of (of_char c + 32 :: nat) else c);
          result = stringifyFraction size_val (p mod 2 ^ 32) precision @ [CHR '' '', first]
      in if u \<noteq> 0 then
           bind_res (at_res nm 1) (\<lambda>d. ok (result @ (if base = 1024 then ''i'' else []) @ [d]))
         else ok result)))))"

section \<open>The logarithms are equal to the naive one\<close>

definition is_log :: "nat \<Rightarrow> nat \<Rightarrow> nat \<Rightarrow> bool" where
  "is_log base val k \<longleftrightarrow> (val < base \<and> k = 0 \<or> base ^ k \<le> val) \<and> val < base ^ Suc k"

lemma is_log_unique:
  assumes "2 \<le> base" "is_log base val k" "is_log base val l"
  shows "k = l"
proof -
  have "k \<le> l" if "is_log base val k" "is_log base val l" for k l
  proof (rule ccontr)
    assume "\<not> k \<le> l"
    then have "base ^ Suc l \<le> base ^ k" using assms(1) by (intro power_increasing) auto
    then show False using that \<open>\<not> k \<le> l\<close> by (auto simp: is_log_def)
  qed
  then show ?thesis using assms(2,3) by (simp add: order_antisym)
qed

lemma is_log_div:
  assumes "2 \<le> base" "base \<le> val" "is_log base (val div base) k"
  shows "is_log base val (Suc k)"
proof -
  have "base ^ k \<le> val div base"
  proof (cases "val div base < base \<and> k = 0")
    case True
    then show ?thesis using assms(1,2) by (simp add: Suc_leI div_greater_zero_iff)
  next
    case False
    then show ?thesis using assms(3) by (auto simp: is_log_def)
  qed
  then have "base ^ Suc k \<le> val"
    using assms(1) by (metis less_eq_div_iff_mult_less_eq power_Suc2 gr_zeroI not_numeral_le_zero)
  moreover have "val < base ^ Suc (Suc k)"
  proof -
    have "val div base < base ^ Suc k" using assms(3) by (simp add: is_log_def)
    then show ?thesis using assms(1) by (simp add: div_less_iff_less_mult mult.commute)
  qed
  ultimately show ?thesis by (simp add: is_log_def)
qed

lemma naive_loop_log:
  assumes "2 \<le> base"
  shows "\<exists>k. naive_loop val base r = Some (Inr (r + k)) \<and> is_log base val k"
proof (induction val arbitrary: r rule: less_induct)
  case (less val)
  show ?case
  proof (cases "val < base")
    case True
    then have "naive_loop val base r = Some (Inr r)" using assms by (subst naive_loop.simps) simp
    then show ?thesis using True by (intro exI [of _ 0]) (simp add: is_log_def)
  next
    case False
    then have d: "val div base \<noteq> 0" "val div base < val" using assms by (auto simp: div_eq_0_iff)
    from less.IH [OF d(2)] obtain k where
      k: "naive_loop (val div base) base (r + 1) = Some (Inr (r + 1 + k))" "is_log base (val div base) k" by blast
    have "naive_loop val base r = Some (Inr (r + Suc k))"
      using assms d(1) k(1) by (subst naive_loop.simps) simp
    then show ?thesis using is_log_div [OF assms _ k(2)] False by auto
  qed
qed

lemma logFloor_naive_log: "2 \<le> base \<Longrightarrow> \<exists>k. logFloor_naive val base = Some (Inr k) \<and> is_log base val k"
  using naive_loop_log [of base val 0] by (simp add: logFloor_naive_def)

lemma logFloor_naive_eq: "2 \<le> base \<Longrightarrow> is_log base val k \<Longrightarrow> logFloor_naive val base = Some (Inr k)"
  using logFloor_naive_log [of base val] is_log_unique by blast

lemma const_of_naive: "2 \<le> base \<Longrightarrow> is_log base val (const_of (logFloor_naive val base))"
  using logFloor_naive_log [of base val] by (auto simp: const_of_def)


lemma log_le_exp: "is_log base (2 ^ i) g \<Longrightarrow> base ^ g \<le> 2 ^ i"
  by (auto simp: is_log_def)

lemma is_log_guess:
  assumes "2 \<le> base" "is_log base (2 ^ i) g" "val = 0 \<and> i = 0 \<or> 2 ^ i \<le> val" "val < 2 ^ Suc i"
  shows "is_log base val (g + (if base ^ Suc g \<le> val then 1 else 0))"
proof -
  have "2 * base ^ Suc g \<le> base ^ Suc (Suc g)"
    using mult_right_mono [OF assms(1), of "base ^ Suc g"] by simp
  moreover have "2 ^ i < base ^ Suc g" using assms(2) by (simp add: is_log_def)
  ultimately have "val < base ^ Suc (Suc g)" using assms(4) unfolding power_Suc [of 2] by linarith
  moreover have "base ^ g \<le> val \<or> g = 0 \<and> val < base" if "val < base ^ Suc g"
  proof (cases "2 ^ i \<le> val")
    case True
    then show ?thesis using log_le_exp [OF assms(2)] by simp
  next
    case False
    then have "val = 0" "base ^ g \<le> 1" using assms(3) log_le_exp [OF assms(2)] by auto
    moreover have "g = 0"
    proof (rule ccontr)
      assume "g \<noteq> 0"
      then have "base ^ 1 \<le> base ^ g" using assms(1) by (intro power_increasing) auto
      then show False using assms(1) \<open>base ^ g \<le> 1\<close> by simp
    qed
    ultimately show ?thesis using assms(1) by simp
  qed
  ultimately show ?thesis by (auto simp: is_log_def)
qed

lemma log2floor_bounds:
  assumes "x < 2 ^ 64"
  shows "log2floor x < 64" and "x = 0 \<and> log2floor x = 0 \<or> 2 ^ log2floor x \<le> x" and "x < 2 ^ Suc (log2floor x)"
proof -
  let ?n = "clzll x" and ?P = "\<lambda>i. \<not> bit x i"
  have nth: "rev [0..<64] ! k = 63 - k" if "k < 64" for k :: nat using that by (simp add: rev_nth)
  have below: "\<not> bit x j" if "64 - ?n \<le> j" "j < 64" for j
  proof -
    have "63 - j < ?n" using that by linarith
    then have "?P (rev [0..<64] ! (63 - j))"
      using nth_mem [of "63 - j" "takeWhile ?P (rev [0..<64])"] set_takeWhileD [of _ ?P]
      by (metis clzll_def takeWhile_nth)
    then show ?thesis using nth [of "63 - j"] that by simp
  qed
  have high: "x < 2 ^ m" if "\<And>j. m \<le> j \<Longrightarrow> j < 64 \<Longrightarrow> \<not> bit x j" for m
  proof -
    have "take_bit 64 x = x" using assms by (simp add: take_bit_nat_eq_self)
    then have lt: "bit x j \<Longrightarrow> j < 64" for j by (metis bit_take_bit_iff)
    have "j < m" if "bit x j" for j using lt [OF that] \<open>\<And>j. m \<le> j \<Longrightarrow> j < 64 \<Longrightarrow> \<not> bit x j\<close> that by (meson not_le)
    then have "take_bit m x = x" by (intro bit_eqI) (auto simp: bit_take_bit_iff)
    then show ?thesis by (metis take_bit_nat_less_exp)
  qed
  show "log2floor x < 64" by (auto simp: log2floor_def)
  have n: "?n < 64" if "x \<noteq> 0"
  proof (rule ccontr)
    assume "\<not> ?n < 64"
    then have "x < 2 ^ 0" by (intro high) (use below in auto)
    then show False using that by simp
  qed
  have set: "bit x (63 - ?n)" if "x \<noteq> 0"
    using nth_length_takeWhile [of ?P "rev [0..<64]"] n [OF that] nth [OF n [OF that]] by (simp add: clzll_def)
  show "x = 0 \<and> log2floor x = 0 \<or> 2 ^ log2floor x \<le> x"
  proof (cases "x = 0")
    case False
    then have "odd (x div 2 ^ (63 - ?n))" using set by (simp add: bit_iff_odd)
    then have "2 ^ (63 - ?n) \<le> x" by (metis div_less even_zero not_le)
    then show ?thesis using False by (simp add: log2floor_def)
  qed (simp add: log2floor_def)
  show "x < 2 ^ Suc (log2floor x)"
  proof (cases "x = 0")
    case False
    then have "x < 2 ^ (64 - ?n)" by (intro high) (use below in auto)
    moreover have "64 - ?n = Suc (63 - ?n)" using n [OF False] by simp
    ultimately show ?thesis using False by (simp add: log2floor_def)
  qed (simp add: log2floor_def)
qed

lemma log2floor_less:
  assumes "x < 2 ^ w" "w \<le> 64" "0 < w"
  shows "log2floor x < w"
proof (rule ccontr)
  assume "\<not> log2floor x < w"
  then have "(2 :: nat) ^ w \<le> 2 ^ log2floor x" by simp
  moreover have "(2 :: nat) ^ w \<le> 2 ^ 64" using assms(2) by (rule power_increasing) simp
  then have "x < 2 ^ 64" using assms(1) by linarith
  then have "x = 0 \<and> log2floor x = 0 \<or> 2 ^ log2floor x \<le> x" by (rule log2floor_bounds(2))
  ultimately show False using assms \<open>\<not> log2floor x < w\<close> by linarith
qed

lemma is_log_2: "x < 2 ^ 64 \<Longrightarrow> is_log 2 x (log2floor x)"
  using log2floor_bounds [of x] by (auto simp: is_log_def)

lemma isPow2or0_power: "isPow2or0 n \<Longrightarrow> n \<noteq> 0 \<Longrightarrow> \<exists>k. n = 2 ^ k"
proof (induction n rule: less_induct)
  case (less n)
  have e: "of_bool (odd n \<and> odd (n - 1)) + 2 * ((n div 2) AND ((n - 1) div 2)) = 0"
    using less.prems(1) unfolding isPow2or0_def by (subst (asm) and_rec) simp
  show ?case
  proof (cases "even n")
    case True
    then obtain m where m: "n = 2 * m" by blast
    then have "(n - 1) div 2 = m - 1" by (cases m) auto
    then have "isPow2or0 m" using e m by (simp add: isPow2or0_def)
    then obtain k where "m = 2 ^ k" using less.IH [of m] m less.prems(2) by auto
    then show ?thesis using m by (intro exI [of _ "Suc k"]) simp
  next
    case False
    then obtain m where "n = 2 * m + 1" by (blast elim: oddE)
    then have "n = 1" using e by simp
    then show ?thesis by (intro exI [of _ 0]) simp
  qed
qed

lemma is_log_pow2:
  assumes "is_log 2 val i" "0 < k"
  shows "is_log (2 ^ k) val (i div k)"
proof -
  have d: "k * (i div k) \<le> i" "Suc i \<le> k * Suc (i div k)"
    using assms(2) dividend_less_times_div [of k i] by auto
  have "val < 2 ^ Suc i" using assms(1) by (simp add: is_log_def)
  also have "(2 :: nat) ^ Suc i \<le> 2 ^ (k * Suc (i div k))" using d(2) by (rule power_increasing) simp
  finally have "val < (2 ^ k) ^ Suc (i div k)" by (simp only: power_mult)
  moreover have "(2 ^ k) ^ (i div k) \<le> val" if "2 ^ i \<le> val"
  proof -
    have "(2 :: nat) ^ (k * (i div k)) \<le> 2 ^ i" using d(1) by (rule power_increasing) simp
    then show ?thesis using that by (simp only: power_mult)
  qed
  ultimately show ?thesis using assms(1) by (cases "i = 0") (auto simp: is_log_def)
qed

lemma power_loop_length [simp]: "length (power_loop n base x) = n"
  by (induction n arbitrary: x) auto

lemma power_loop_nth: "i < n \<Longrightarrow> x < 2 ^ 64 \<Longrightarrow> power_loop n base x ! i = x * base ^ i mod 2 ^ 64"
proof (induction n arbitrary: x i)
  case (Suc n)
  then show ?case
  proof (cases i)
    case (Suc j)
    have "power_loop n base (x * base mod 2 ^ 64) ! j = (x * base mod 2 ^ 64) * base ^ j mod 2 ^ 64"
      using Suc.prems Suc by (intro Suc.IH) auto
    then show ?thesis using Suc by (simp add: mod_mult_left_eq mult.assoc)
  qed simp
qed simp

lemma powers_nth:
  "i < maxExp w base + 2 \<Longrightarrow> base ^ i < 2 ^ 64 \<Longrightarrow> at_res (makePowerTable w base) i = Inr (base ^ i)"
  using power_loop_nth [of i "maxExp w base + 2" 1 base] by (simp add: makePowerTable_def del: power_loop.simps)

lemma log_le:
  assumes "2 \<le> base" "is_log base x g" "is_log base y h" "x \<le> y"
  shows "g \<le> h"
proof (rule ccontr)
  assume n: "\<not> g \<le> h"
  then have "base ^ Suc h \<le> base ^ g" using assms(1) by (intro power_increasing) auto
  then show False using assms(2,3,4) n by (auto simp: is_log_def)
qed

lemma logFloor_log:
  assumes b: "2 \<le> base" "base < 2 ^ 32" and w: "w \<in> {8, 16, 32, 64}" and v: "val < 2 ^ w"
  shows "\<exists>k. logFloor w base val = Inr k \<and> is_log base val k"
proof -
  have w64: "w \<le> 64" "0 < w" using w by auto
  have "(2 :: nat) ^ w \<le> 2 ^ 64" using w64(1) by (rule power_increasing) simp
  then have v64: "val < 2 ^ 64" using v by linarith
  show ?thesis
  proof (cases "isPow2or0 base")
    case True
    then obtain k where k: "base = 2 ^ k" using isPow2or0_power [of base] b(1) by auto
    then have k0: "0 < k" using b(1) by (cases k) auto
    have b64: "base < 2 ^ 64" using b(2) by simp
    have "is_log 2 base k" by (simp add: is_log_def k)
    then have "log2floor base = k" using is_log_unique [OF _ is_log_2 [OF b64]] by simp
    then show ?thesis using True k0 is_log_pow2 [OF is_log_2 [OF v64] k0] k by (simp add: logFloor_def)
  next
    case False
    define i g M where "i = log2floor val" and "g = const_of (logFloor_naive (2 ^ i) base)" and "M = maxExp w base"
    have i: "i < w" using log2floor_less [OF v w64] by (simp add: i_def)
    have mod: "base mod 2 ^ 32 = base" using b(2) by simp
    have g: "is_log base (2 ^ i) g" unfolding g_def by (rule const_of_naive [OF b(1)])
    have M: "is_log base (2 ^ w - 1) M" unfolding M_def maxExp_def by (rule const_of_naive [OF b(1)])
    have "(2 :: nat) ^ i < 2 ^ w" using i by simp
    then have "(2 :: nat) ^ i \<le> 2 ^ w - 1" by linarith
    then have gM: "g \<le> M" by (rule log_le [OF b(1) g M])
    have guess: "at_res (makeGuessTable w base) (log2floor val) = Inr g"
      using i mod by (simp add: makeGuessTable_def i_def g_def)
    have L: "is_log base val (g + (if base ^ Suc g \<le> val then 1 else 0))"
      using is_log_guess [OF b(1) g] log2floor_bounds [OF v64] unfolding i_def by blast
    have len: "length (makePowerTable w base) = M + 2" by (simp add: makePowerTable_def M_def)
    have bg: "base ^ g < 2 ^ 64"
    proof -
      have "base ^ g \<le> 2 ^ i" using g by (rule log_le_exp)
      also have "(2 :: nat) ^ i < 2 ^ 64" using i w64 by (intro power_strict_increasing) auto
      finally show ?thesis .
    qed
    show ?thesis
    proof (cases "w < 64 \<or> last (makeGuessTable w base) + 2 < M + 2")
      case True
      have "base ^ Suc g < 2 ^ 64"
      proof (cases "w < 64")
        case w': True
        then have "i < 32" using w i by auto
        then have "(2 :: nat) ^ i < 2 ^ 32" by (intro power_strict_increasing) auto
        then have "base ^ g < 2 ^ 32" using log_le_exp [OF g] by linarith
        then have "base * base ^ g < 2 ^ 32 * 2 ^ 32" using b by (intro mult_strict_mono) auto
        then show ?thesis by simp
      next
        case False
        then have w64': "w = 64" using w by auto
        define h where "h = const_of (logFloor_naive (2 ^ 63) base)"
        have h: "is_log base (2 ^ 63) h" unfolding h_def by (rule const_of_naive [OF b(1)])
        have l: "last (makeGuessTable w base) = h"
          using mod by (simp add: makeGuessTable_def w64' h_def last_map last_upt)
        have "(2 :: nat) ^ i \<le> 2 ^ 63" using i w64' by (intro power_increasing) auto
        then have "g \<le> h" by (rule log_le [OF b(1) g h])
        then have "Suc g \<le> M" using True False l by simp
        then have "base ^ Suc g \<le> base ^ M" using b(1) by (intro power_increasing) auto
        moreover have "base ^ M \<le> 2 ^ w - 1" using M \<open>Suc g \<le> M\<close> by (auto simp: is_log_def)
        ultimately show ?thesis using w64' by simp
      qed
      then have "at_res (makePowerTable w base) (g + 1) = Inr (base ^ Suc g)"
        using powers_nth [of "Suc g" w base] gM by (simp add: M_def)
      then show ?thesis using False True guess len L by (simp add: logFloor_def Let_def del: at_res_Inr power_Suc)
    next
      case big: False
      have "at_res (makePowerTable w base) g = Inr (base ^ g)"
        using powers_nth [OF _ bg] gM by (simp add: M_def)
      moreover have "base ^ g \<le> val div base \<longleftrightarrow> base ^ Suc g \<le> val"
        using b(1) by (simp add: less_eq_div_iff_mult_less_eq mult.commute)
      ultimately show ?thesis
        using False big guess len L by (simp add: logFloor_def Let_def del: at_res_Inr power_Suc)
    qed
  qed
qed

lemma log10_tables:
  "i < 32 \<Longrightarrow> is_log 10 (2 ^ i) (log10_guesses ! i) \<and> log10_guesses ! i + 1 < length log10_powers \<and>
     log10_powers ! (log10_guesses ! i + 1) = 10 ^ (log10_guesses ! i + 1)"
proof -
  have "list_all (\<lambda>i. is_log 10 (2 ^ i) (log10_guesses ! i) \<and> log10_guesses ! i + 1 < length log10_powers \<and>
     log10_powers ! (log10_guesses ! i + 1) = 10 ^ (log10_guesses ! i + 1)) [0..<32]"
    by (simp add: upt_rec is_log_def log10_guesses_def log10_powers_def)
  then show "i < 32 \<Longrightarrow> ?thesis" by (simp only: list_all_iff set_upt) (auto simp del: power_Suc)
qed

lemma log10floor_log:
  assumes "x < 2 ^ 32"
  shows "\<exists>k. log10floor x = Inr k \<and> is_log 10 x k"
proof -
  have x64: "x < 2 ^ 64" using assms by simp
  let ?i = "log2floor x" let ?g = "log10_guesses ! ?i"
  have i: "?i < 32" using log2floor_less [OF assms] by simp
  note t = log10_tables [OF i]
  have len: "length log10_guesses = 32" by (simp add: log10_guesses_def)
  have "is_log 10 x (?g + (if 10 ^ Suc ?g \<le> x then 1 else 0))"
    using is_log_guess [of 10 ?i ?g x] t log2floor_bounds [OF x64] by simp
  moreover have "log10floor x = Inr (?g + (if 10 ^ Suc ?g \<le> x then 1 else 0))"
    using t i len by (simp add: log10floor_def at_res_def bind_res_def)
  ultimately show ?thesis by blast
qed

text \<open>C22. The table-driven logarithms agree with the naive loop: for every unsigned type of 8, 16, 32 or 64
  bits, every base from 2 to the largest \<open>unsigned\<close> and every value, \<open>logFloor\<close> reads its tables in
  range and returns what \<open>logFloor_naive\<close> returns, which ends; and \<open>log10floor\<close>, with its literal
  tables, does so for base 10 on every 32-bit value.\<close>

theorem logFloor_is_naive:
  assumes "2 \<le> base" "base < 2 ^ 32" "w \<in> {8, 16, 32, 64}" "val < 2 ^ w" "x < 2 ^ 32"
  shows "logFloor_naive val base = Some (logFloor w base val) \<and> isl (logFloor w base val) = False \<and>
    logFloor_naive x 10 = Some (log10floor x) \<and> isl (log10floor x) = False"
proof -
  obtain k where "logFloor w base val = Inr k" "is_log base val k" using logFloor_log [OF assms(1-4)] by blast
  moreover obtain l where "log10floor x = Inr l" "is_log 10 x l" using log10floor_log [OF assms(5)] by blast
  ultimately show ?thesis using assms(1) by (simp add: logFloor_naive_eq)
qed

theorem logFloor_is_naive_witness:
  "logFloor_naive 18446744073709551615 10 = Some (logFloor 64 10 18446744073709551615) \<and>
   logFloor_naive 4294967295 10 = Some (log10floor 4294967295)"
  using logFloor_is_naive [of 10 64 18446744073709551615 4294967295] by simp

section \<open>What the formatting prints\<close>

definition digit_val :: "char \<Rightarrow> nat" where
  "digit_val c = of_char c - 48"

definition dec_val :: "string \<Rightarrow> nat" where
  "dec_val s = foldl (\<lambda>a c. a * 10 + digit_val c) 0 s"

definition all_digits :: "string \<Rightarrow> bool" where
  "all_digits s = list_all (\<lambda>c. 48 \<le> (of_char c :: nat) \<and> of_char c \<le> (57 :: nat)) s"

lemma dec_val_foldl: "foldl (\<lambda>a c. a * 10 + digit_val c) a s = a * 10 ^ length s + dec_val s"
proof (induction s arbitrary: a)
  case (Cons c s)
  show ?case
    using Cons [of "a * 10 + digit_val c"] Cons [of "digit_val c"] by (simp add: dec_val_def algebra_simps)
qed (simp add: dec_val_def)

lemma dec_val_append: "dec_val (s @ t) = dec_val s * 10 ^ length t + dec_val t"
  using dec_val_foldl [of "dec_val s" t] by (simp add: dec_val_def)

lemma digit_char: "d < 10 \<Longrightarrow> (of_char (char_of (48 + d :: nat)) :: nat) = 48 + d"
  by (simp add: of_char_of)

lemma dec_val_digit: "d < 10 \<Longrightarrow> dec_val [char_of (48 + d :: nat)] = d \<and> all_digits [char_of (48 + d :: nat)]"
  by (simp add: dec_val_def digit_val_def all_digits_def digit_char)

declare to_string.simps [simp del]

lemma to_string_val: "dec_val (to_string n) = n \<and> all_digits (to_string n)"
proof (induction n rule: to_string.induct)
  case (1 n)
  show ?case
  proof (cases "n < 10")
    case True
    then show ?thesis using dec_val_digit [of n] by (simp add: to_string.simps)
  next
    case False
    then show ?thesis using 1 dec_val_digit [of "n mod 10"]
      by (simp add: to_string.simps [of n] dec_val_append all_digits_def)
  qed
qed

lemma long_division:
  fixes a b d :: nat
  assumes "0 < d"
  shows "a * b div d = a div d * b + (a mod d) * b div d"
proof -
  have e: "(q * d + r) * b = r * b + (q * b) * d" for q r by (simp add: algebra_simps)
  have "a * b = (a div d * d + a mod d) * b" by (simp only: div_mult_mod_eq)
  also have "\<dots> = (a mod d) * b + (a div d * b) * d" by (rule e)
  finally show ?thesis using assms by simp
qed

lemma frac_digits_val:
  assumes "den * 10 \<le> 2 ^ 32" "tmp < den"
  shows "length (frac_digits p den tmp) = p \<and> all_digits (frac_digits p den tmp) \<and>
    dec_val (frac_digits p den tmp) = tmp * 10 ^ p div den"
  using assms(2)
proof (induction p arbitrary: tmp)
  case 0
  then show ?case by (simp add: all_digits_def dec_val_def)
next
  case (Suc p)
  have d0: "0 < den" using Suc.prems by simp
  have small: "tmp * 10 mod 2 ^ 32 = tmp * 10" using Suc.prems assms(1) by simp
  have d: "tmp * 10 div den < 10" using Suc.prems by (simp add: div_less_iff_less_mult d0)
  have t: "tmp * 10 mod den < den" using d0 by simp
  let ?c = "char_of ((48 + tmp * 10 div den) mod 256 :: nat) :: char"
  let ?r = "frac_digits p den (tmp * 10 mod den)"
  have e: "frac_digits (Suc p) den tmp = [?c] @ ?r" using small by (simp add: Let_def)
  have c: "?c = char_of (48 + tmp * 10 div den)" using d by simp
  have "tmp * 10 ^ Suc p div den = tmp * 10 div den * 10 ^ p + (tmp * 10 mod den) * 10 ^ p div den"
    using long_division [OF d0, of "tmp * 10" "10 ^ p"] by (simp add: mult.assoc)
  then show ?case using Suc.IH [OF t] dec_val_digit [OF d]
    unfolding e c dec_val_append by (simp add: all_digits_def)
qed

text \<open>\<open>stringifyFraction\<close> prints the quotient exactly, cut to \<open>precision\<close> digits, for every
  denominator up to \<open>2 ^ 32 / 10\<close>: an integral part, a point and \<open>precision\<close> digits that together read
  as \<open>num * 10 ^ precision div den\<close>, or the integral part alone when nothing follows it.\<close>

lemma stringifyFraction_exact:
  assumes "0 < den" "den * 10 \<le> 2 ^ 32"
  shows "if num mod den = 0 \<or> precision = 0
    then all_digits (stringifyFraction num den precision) \<and> dec_val (stringifyFraction num den precision) = num div den
    else \<exists>ip fp. stringifyFraction num den precision = ip @ ''.'' @ fp \<and> all_digits ip \<and> all_digits fp \<and>
      length fp = precision \<and> dec_val (ip @ fp) = num * 10 ^ precision div den"
proof (cases "num mod den = 0 \<or> precision = 0")
  case True
  then show ?thesis using assms(1) to_string_val by (auto simp: stringifyFraction_def Let_def)
next
  case False
  let ?fp = "frac_digits precision den (num mod den)"
  have f: "length ?fp = precision" "all_digits ?fp" "dec_val ?fp = (num mod den) * 10 ^ precision div den"
    using frac_digits_val [OF assms(2), of "num mod den" precision] assms(1) by auto
  have "num * 10 ^ precision div den = num div den * 10 ^ precision + (num mod den) * 10 ^ precision div den"
    using assms(1) by (rule long_division)
  then have "dec_val (to_string (num div den) @ ?fp) = num * 10 ^ precision div den"
    using f to_string_val [of "num div den"] by (simp add: dec_val_append)
  moreover have "stringifyFraction num den precision = to_string (num div den) @ ''.'' @ ?fp"
    using False assms(1) by (simp add: stringifyFraction_def Let_def)
  ultimately show ?thesis using False f to_string_val [of "num div den"] by auto
qed

lemma stringifyFraction_exact_witness:
  "\<exists>ip fp. stringifyFraction 5000 1024 3 = ip @ ''.'' @ fp \<and> all_digits ip \<and> all_digits fp \<and>
     length fp = 3 \<and> dec_val (ip @ fp) = 4882"
  using stringifyFraction_exact [of 1024 5000 3] by simp

text \<open>Above that bound the product \<open>tmp * 10\<close> wraps: one half of \<open>2 ^ 30\<close> is printed as 0.1.\<close>

lemma stringifyFraction_wraps: "stringifyFraction (2 ^ 29) (2 ^ 30) 1 = ''0.1''"
proof -
  have "char_of (48 :: nat) = CHR ''0''" "char_of (49 :: nat) = CHR ''1''" by code_simp+
  then show ?thesis by (simp add: stringifyFraction_def to_string.simps [of 0] Let_def)
qed

lemma logFloor_1024:
  assumes "val < 2 ^ 64"
  shows "logFloor 64 1024 val = Inr (log2floor val div 10)"
proof -
  have "is_log 2 1024 10" by (simp add: is_log_def)
  then have "log2floor 1024 = 10" using is_log_unique [OF _ is_log_2 [of 1024]] by simp
  moreover have "isPow2or0 1024" by (simp add: isPow2or0_def)
  ultimately show ?thesis by (simp add: logFloor_def)
qed

lemma maxExp_64_1024: "maxExp 64 1024 = 6"
proof -
  have "is_log 1024 (2 ^ 64 - 1) 6" by (simp add: is_log_def)
  then have "logFloor_naive (2 ^ 64 - 1) 1024 = Some (Inr 6)" by (intro logFloor_naive_eq) simp
  then show ?thesis by (simp add: maxExp_def const_of_def)
qed

lemma power_1024_nth: "u \<le> 6 \<Longrightarrow> at_res (makePowerTable 64 1024) u = Inr (1024 ^ u)"
proof -
  assume u: "u \<le> 6"
  then have "(1024 :: nat) ^ u \<le> 1024 ^ 6" by (intro power_increasing) auto
  then have "(1024 :: nat) ^ u < 2 ^ 64" by simp
  then show ?thesis using u by (intro powers_nth) (simp_all add: maxExp_64_1024)
qed

definition unit_name :: "nat \<Rightarrow> string" where
  "unit_name u = (if u = 0 then ''B'' else [''BKMGTPEZ'' ! u, CHR ''i'', CHR ''B''])"

lemma stringifyFileSize_1024:
  assumes "val < 2 ^ 64"
  shows "stringifyFileSize 1024 val precision =
    Inr (stringifyFraction val (1024 ^ (log2floor val div 10) mod 2 ^ 32) precision @ '' '' @ unit_name (log2floor val div 10))"
proof -
  define u where "u = log2floor val div 10"
  have "u \<le> 6" using log2floor_bounds(1) [OF assms] by (simp add: u_def)
  then have "u = 0 \<or> u = 1 \<or> u = 2 \<or> u = 3 \<or> u = 4 \<or> u = 5 \<or> u = 6" by linarith
  then obtain nm where n: "at_res FILE_SIZE_UNITS u = Inr nm" "at_res nm 0 = Inr (''BKMGTPEZ'' ! u)"
      "u \<noteq> 0 \<Longrightarrow> at_res nm 1 = Inr (CHR ''B'')"
    by (elim disjE) (simp_all add: FILE_SIZE_UNITS_def)
  have p: "at_res (makePowerTable 64 1024) u = Inr (1024 ^ u)" using \<open>u \<le> 6\<close> by (rule power_1024_nth)
  show ?thesis
    unfolding stringifyFileSize_def Let_def logFloor_1024 [OF assms] u_def [symmetric] bind_res_simps p n(1,2)
    using n(3) by (cases "u = 0") (simp_all add: unit_name_def del: at_res_Inr)
qed

text \<open>C37. \<open>stringifyFileSize\<close> for the binary units, on every 64-bit size. Below \<open>2 ^ 40\<close> the size is
  divided by its own unit, the number printed without digits after the point being between 0 and 1023. From \<open>2 ^ 40\<close> on
  the 64-bit power of the unit is cut to 32 bits and is 0, so whatever the size, the text is \<open>inf\<close>.\<close>

theorem stringifyFileSize_inf_from_TiB:
  assumes "val < 2 ^ 64"
  shows "if val < 2 ^ 40
    then \<exists>u ip. stringifyFileSize 1024 val 0 = Inr (ip @ '' '' @ unit_name u) \<and> is_log 1024 val u \<and>
      dec_val ip = val div 1024 ^ u \<and> dec_val ip < 1024
    else \<exists>u. stringifyFileSize 1024 val precision = Inr (''inf '' @ unit_name u) \<and> is_log 1024 val u"
proof -
  obtain u where l: "is_log 1024 val u"
    and e: "\<And>precision. stringifyFileSize 1024 val precision =
      Inr (stringifyFraction val (1024 ^ u mod 2 ^ 32) precision @ '' '' @ unit_name u)"
    using is_log_pow2 [OF is_log_2 [OF assms], of 10] stringifyFileSize_1024 [OF assms] by simp
  have lo: "u = 0 \<or> 1024 ^ u \<le> val" and hi: "val < 1024 * 1024 ^ u" using l by (auto simp: is_log_def)
  show ?thesis
  proof (cases "val < 2 ^ 40")
    case True
    have "u \<le> 3"
    proof (rule ccontr)
      assume n: "\<not> u \<le> 3"
      then have "(1024 :: nat) ^ 4 \<le> 1024 ^ u" by (intro power_increasing) auto
      then have "2 ^ 40 \<le> (1024 :: nat) ^ u" by simp
      then show False using lo True n by linarith
    qed
    then have "(1024 :: nat) ^ u \<le> 1024 ^ 3" by (intro power_increasing) auto
    then have m: "1024 ^ u mod 2 ^ 32 = (1024 :: nat) ^ u" by simp
    have "val div 1024 ^ u < 1024" using hi by (simp add: div_less_iff_less_mult)
    then have "stringifyFileSize 1024 val 0 = Inr (to_string (val div 1024 ^ u) @ '' '' @ unit_name u) \<and>
        is_log 1024 val u \<and> dec_val (to_string (val div 1024 ^ u)) = val div 1024 ^ u \<and>
        dec_val (to_string (val div 1024 ^ u)) < 1024"
      using l to_string_val [of "val div 1024 ^ u"] unfolding e m by (simp add: stringifyFraction_def)
    then show ?thesis unfolding if_P [OF True] by (intro exI)
  next
    case False
    have "4 \<le> u"
    proof (rule ccontr)
      assume "\<not> 4 \<le> u"
      then have "(1024 :: nat) ^ Suc u \<le> 1024 ^ 4" by (intro power_increasing) auto
      then have "1024 * 1024 ^ u \<le> (2 :: nat) ^ 40" by simp
      then show False using hi False by linarith
    qed
    then obtain k where k: "u = 4 + k" using le_Suc_ex by blast
    have "1024 ^ u mod 2 ^ 32 = (0 :: nat)" unfolding k power_add by simp
    then have "stringifyFileSize 1024 val precision = Inr (''inf '' @ unit_name u) \<and> is_log 1024 val u"
      using l unfolding e by (simp add: stringifyFraction_def)
    then show ?thesis unfolding if_not_P [OF False] by (intro exI)
  qed
qed

theorem stringifyFileSize_inf_from_TiB_witness:
  "\<exists>u. stringifyFileSize 1024 (5 * 2 ^ 40) 2 = Inr (''inf '' @ unit_name u) \<and> is_log 1024 (5 * 2 ^ 40) u"
  using stringifyFileSize_inf_from_TiB [of "5 * 2 ^ 40" 2] by simp

end
