(* ===== verification/P4_Main.thy ===== *)
theory P4_Main
  imports P4_Node P4_Txn P4_Util
begin

text \<open>
  What \<open>main\<close> does before the worker threads start: the trace and frequency files of
  \<open>main/loader.cpp\<close>, the table of \<open>main/main.cpp\<close> and the split of the trace over the workers.
\<close>

section \<open>Text input\<close>

text \<open>\<open>std::getline\<close> with a delimiter: what it reads, and what is left of the stream; \<open>None\<close> when it
  met the end of the stream and not the delimiter.\<close>

fun getline :: "char \<Rightarrow> string \<Rightarrow> string \<times> string option" where
  "getline d [] = ([], None)"
| "getline d (c # s) = (if c = d then ([], Some s) else let (t, r) = getline d s in (c # t, r))"

text \<open>A call on a stream that is already at its end (\<open>None\<close>) leaves the target string as it is.\<close>

definition get_token :: "char \<Rightarrow> string \<Rightarrow> string option \<Rightarrow> string \<times> string option" where
  "get_token d access ss = (case ss of None \<Rightarrow> (access, None) | Some s \<Rightarrow> getline d s)"

text \<open>\<open>std::stoull\<close> in base 10: white space, a sign, digits; what follows the digits is ignored, and a
  negative number is taken modulo \<open>2 ^ 64\<close>.\<close>

definition is_space :: "char \<Rightarrow> bool" where
  "is_space c \<longleftrightarrow> c \<in> set [CHR '' '', CHR 0x09, CHR 0x0A, CHR 0x0B, CHR 0x0C, CHR 0x0D]"

definition is_digit :: "char \<Rightarrow> bool" where
  "is_digit c \<longleftrightarrow> 48 \<le> (of_char c :: nat) \<and> of_char c \<le> (57 :: nat)"

definition stoull :: "string \<Rightarrow> nat result" where
  "stoull s =
     (let s = dropWhile is_space s;
          neg = (s \<noteq> [] \<and> hd s = CHR ''-'');
          s = (if s \<noteq> [] \<and> hd s \<in> set ''+-'' then tl s else s);
          ds = takeWhile is_digit s; v = dec_val ds
      in if ds = [] \<or> v \<ge> 2 ^ 64 then fail LogicError
         else ok (if neg then (2 ^ 64 - v) mod 2 ^ 64 else v))"

section \<open>The loader\<close>

text \<open>The lines that the loops over a file see: each ends in a newline, and a last line without one
  is dropped, for \<open>eof\<close> is tested right after the call that reads it.\<close>

function file_lines :: "string \<Rightarrow> string list" where
  "file_lines content =
     (case getline (CHR 0x0A) content of (buf, None) \<Rightarrow> [] | (buf, Some rest) \<Rightarrow> buf # file_lines rest)"
  by auto

lemma getline_rest: "getline d s = (t, Some r) \<Longrightarrow> length r < length s"
  by (induction s arbitrary: t) (fastforce split: if_splits prod.splits)+

termination file_lines
  by (relation "measure length") (auto dest: getline_rest [OF sym] getline_rest)

declare file_lines.simps [simp del]

text \<open>The operations of one line. \<open>rand k\<close> is the result of the \<open>k\<close>-th call of \<open>rand()\<close>; \<open>uninit\<close> is
  the part of an operation that is not set here.\<close>

primrec load_ops ::
  "nat \<Rightarrow> int \<Rightarrow> (nat \<Rightarrow> nat) \<Rightarrow> LocationInfo \<Rightarrow> nat \<Rightarrow> string \<Rightarrow> string option \<Rightarrow> OP list result" where
  "load_ops 0 write_prob rand uninit k access ss = ok []"
| "load_ops (Suc n) write_prob rand uninit k access ss =
     (let (access, ss) = get_token (CHR '','') access ss in
      bind_res (stoull access) (\<lambda>i.
      let md = (if int (rand k mod 100) < write_prob then WRITE else READ);
          op = \<lparr>op_id = i, loc_info = uninit, op_mode = md, op_value = word_of_nat (rand (k + 1) mod 100000)\<rparr>
      in bind_res (load_ops n write_prob rand uninit (k + 2) access ss) (\<lambda>ops. ok (op # ops))))"

definition load_txn :: "int \<Rightarrow> (nat \<Rightarrow> nat) \<Rightarrow> LocationInfo \<Rightarrow> nat \<Rightarrow> string \<Rightarrow> Txn result" where
  "load_txn write_prob rand uninit lid buf =
     bind_res (load_ops N_OPS write_prob rand uninit (2 * N_OPS * lid) [] (Some buf)) (\<lambda>ops. ok (Txn_mk lid ops))"

primrec load_trace ::
  "int \<Rightarrow> (nat \<Rightarrow> nat) \<Rightarrow> LocationInfo \<Rightarrow> nat \<Rightarrow> string list \<Rightarrow> Txn list result" where
  "load_trace write_prob rand uninit lid [] = ok []"
| "load_trace write_prob rand uninit lid (buf # bufs) =
     bind_res (load_txn write_prob rand uninit lid buf) (\<lambda>txn.
     bind_res (load_trace write_prob rand uninit (lid + 1) bufs) (\<lambda>txns. ok (txn # txns)))"

text \<open>A line \<open>key:frequency\<close>. Without a colon \<open>find\<close> returns \<open>npos\<close> and both substrings are the whole
  line, since \<open>npos + 1\<close> is 0.\<close>

definition load_freq :: "string \<Rightarrow> (db_key \<times> nat) result" where
  "load_freq buf =
     (let (k, v) = (case getline (CHR '':'') buf of (k, Some v) \<Rightarrow> (k, v) | (_, None) \<Rightarrow> (buf, buf)) in
      bind_res (stoull k) (\<lambda>k. bind_res (stoull v) (\<lambda>freq. ok (k, freq))))"

primrec load_dist :: "string list \<Rightarrow> (db_key \<times> nat) list result" where
  "load_dist [] = ok []"
| "load_dist (buf # bufs) =
     bind_res (load_freq buf) (\<lambda>e. bind_res (load_dist bufs) (\<lambda>es. ok (e # es)))"

definition load_txns ::
  "build_cfg \<Rightarrow> int \<Rightarrow> (nat \<Rightarrow> nat) \<Rightarrow> LocationInfo \<Rightarrow> string \<Rightarrow> string \<Rightarrow> (Txn list \<times> DeclusteredLayout) result" where
  "load_txns cfg write_prob rand uninit trace_file dist_file =
     bind_res (load_trace write_prob rand uninit 0 (file_lines trace_file)) (\<lambda>trace_txns.
     bind_res (load_dist (file_lines dist_file)) (\<lambda>id_freq.
     bind_res (DeclusteredLayout_mk cfg id_freq) (\<lambda>decl_layout. ok (trace_txns, decl_layout))))"

section \<open>The table\<close>

primrec fill_table :: "nat \<Rightarrow> nat \<Rightarrow> StructTable \<Rightarrow> StructTable result" where
  "fill_table 0 i t = ok t"
| "fill_table (Suc n) i t =
     bind_res (table_insert t) (\<lambda>(t, index).
     bind_res (at_res (t_data t) index) (\<lambda>r.
     fill_table n (i + 1) (t\<lparr>t_data := (t_data t)[index := r\<lparr>r_tuple := (r_tuple r)\<lparr>kv_id := i\<rparr>\<rparr>]\<rparr>)))"

definition setup_table :: "config \<Rightarrow> node \<Rightarrow> KV \<Rightarrow> (nat \<times> node) result" where
  "setup_table config nd uninit =
     bind_res (make_table config nd ''kvs'' (table_size config) uninit) (\<lambda>(i, nd).
     bind_res (at_res (tables nd) i) (\<lambda>t.
     bind_res (fill_table (table_size config) 0 t) (\<lambda>t. ok (i, set_table nd i t))))"

section \<open>The split of the trace\<close>

primrec count_remote :: "PartitionInfo \<Rightarrow> OP list \<Rightarrow> nat result" where
  "count_remote p [] = ok 0"
| "count_remote p (op # ops) =
     bind_res (location p (op_id op)) (\<lambda>l.
     bind_res (count_remote p ops) (\<lambda>n. ok ((if is_local l then 0 else 1) + n)))"

type_synonym split_state = "nat list \<times> Txn list list"

definition distribute_one :: "PartitionInfo \<Rightarrow> Txn \<Rightarrow> split_state \<Rightarrow> split_state result" where
  "distribute_one p txn = (\<lambda>(n_remote, per_core).
     bind_res (count_remote p (cold_ops txn)) (\<lambda>n_rem.
     let arg_min = argmin_scan n_remote in
     bind_res (at_res n_remote arg_min) (\<lambda>r.
     bind_res (at_res per_core arg_min) (\<lambda>ts.
     ok (n_remote[arg_min := r + n_rem], per_core[arg_min := ts @ [txn]])))))"

primrec distribute :: "PartitionInfo \<Rightarrow> Txn list \<Rightarrow> nat list \<Rightarrow> split_state \<Rightarrow> split_state result" where
  "distribute p trace [] s = ok s"
| "distribute p trace (i # is) s =
     bind_res (at_res trace i) (\<lambda>txn. bind_res (distribute_one p txn s) (distribute p trace is))"

text \<open>The two inner loops of the redistribution: give away what is above the quota, then take.\<close>

function give :: "nat \<Rightarrow> 'a list \<Rightarrow> 'a list \<Rightarrow> 'a list \<times> 'a list" where
  "give quota ts redist =
     (if length ts > quota then give quota (butlast ts) (redist @ [last ts]) else (ts, redist))"
  by auto
termination give
  by (relation "measure (\<lambda>(quota, ts, redist). length ts)") auto

function take_back :: "nat \<Rightarrow> 'a list \<Rightarrow> 'a list \<Rightarrow> 'a list \<times> 'a list" where
  "take_back quota ts redist =
     (if length redist > 0 \<and> length ts < quota then take_back quota (ts @ [last redist]) (butlast redist)
      else (ts, redist))"
  by auto
termination take_back
  by (relation "measure (\<lambda>(quota, ts, redist). length redist)") auto

declare give.simps [simp del] take_back.simps [simp del]

primrec redist_pass :: "nat \<Rightarrow> 'a list list \<Rightarrow> 'a list \<Rightarrow> 'a list list \<times> 'a list" where
  "redist_pass quota [] redist = ([], redist)"
| "redist_pass quota (ts # per_core) redist =
     (let (ts, redist) = give quota ts redist;
          (ts, redist) = take_back quota ts redist;
          (per_core, redist) = redist_pass quota per_core redist
      in (ts # per_core, redist))"

definition redistribute :: "nat \<Rightarrow> 'a list list \<Rightarrow> 'a list list \<times> 'a list" where
  "redistribute quota per_core =
     (let (per_core, redist) = redist_pass quota per_core [] in redist_pass quota per_core redist)"

definition split_trace :: "config \<Rightarrow> PartitionInfo \<Rightarrow> nat \<Rightarrow> Txn list \<Rightarrow> Txn list list result" where
  "split_trace config p num_txns trace_txns =
     bind_res (distribute p trace_txns [0..<num_txns]
         (replicate (num_txn_workers config) 0, replicate (num_txn_workers config) [])) (\<lambda>(n_remote, per_core).
     ok (fst (redistribute (num_txns div num_txn_workers config) per_core)))"

section \<open>Every worker gets the same number of transactions\<close>

lemma give_spec:
  "give quota ts redist = (ts', redist') \<Longrightarrow> length ts' = min (length ts) quota \<and>
     mset ts' + mset redist' = mset ts + mset redist \<and> (length ts \<le> quota \<longrightarrow> ts' = ts \<and> redist' = redist)"
proof (induction quota ts redist rule: give.induct)
  case (1 quota ts redist)
  show ?case
  proof (cases "length ts > quota")
    case True
    then have "give quota (butlast ts) (redist @ [last ts]) = (ts', redist')" using "1.prems" by (simp add: give.simps [of quota ts])
    then have IH: "length ts' = min (length ts - 1) quota \<and>
        mset ts' + mset redist' = mset (butlast ts) + mset (redist @ [last ts])"
      using "1.IH" [OF True] by simp
    have "ts \<noteq> []" using True by auto
    then have "mset ts = add_mset (last ts) (mset (butlast ts))"
      by (metis append_butlast_last_id mset_append mset_single_iff_right add_mset_add_single mset.simps)
    then show ?thesis using IH True by simp
  next
    case False
    then show ?thesis using "1.prems" by (simp add: give.simps [of quota ts])
  qed
qed

lemma take_back_spec:
  "take_back quota ts redist = (ts', redist') \<Longrightarrow> length ts \<le> quota \<Longrightarrow> length ts' \<le> quota \<and>
     mset ts' + mset redist' = mset ts + mset redist \<and> (redist' \<noteq> [] \<longrightarrow> length ts' = quota \<and> redist \<noteq> [])"
proof (induction quota ts redist rule: take_back.induct)
  case (1 quota ts redist)
  show ?case
  proof (cases "length redist > 0 \<and> length ts < quota")
    case True
    then have "take_back quota (ts @ [last redist]) (butlast redist) = (ts', redist')"
      using "1.prems" by (simp add: take_back.simps [of quota ts])
    then have IH: "length ts' \<le> quota \<and> mset ts' + mset redist' = mset (ts @ [last redist]) + mset (butlast redist) \<and>
        (redist' \<noteq> [] \<longrightarrow> length ts' = quota)"
      using "1.IH" [OF True] True by simp
    have "mset redist = add_mset (last redist) (mset (butlast redist))"
      using True by (metis append_butlast_last_id length_greater_0_conv mset_append add_mset_add_single mset.simps)
    then show ?thesis using IH True by auto
  next
    case False
    then show ?thesis using "1.prems" by (auto simp: take_back.simps [of quota ts])
  qed
qed

lemma redist_pass_spec:
  "redist_pass quota cs redist = (cs', redist') \<Longrightarrow> length cs' = length cs \<and> list_all (\<lambda>ts. length ts \<le> quota) cs' \<and>
     mset (concat cs') + mset redist' = mset (concat cs) + mset redist \<and>
     (list_all (\<lambda>ts. length ts \<le> quota) cs \<longrightarrow> redist' \<noteq> [] \<longrightarrow>
        list_all (\<lambda>ts. length ts = quota) cs' \<and> redist \<noteq> [])"
proof (induction cs arbitrary: redist cs' redist')
  case (Cons ts cs)
  obtain ts1 r1 where g: "give quota ts redist = (ts1, r1)" by (cases "give quota ts redist")
  obtain ts2 r2 where t: "take_back quota ts1 r1 = (ts2, r2)" by (cases "take_back quota ts1 r1")
  obtain cs2 r3 where c: "redist_pass quota cs r2 = (cs2, r3)" by (cases "redist_pass quota cs r2")
  have e: "cs' = ts2 # cs2" "redist' = r3" using Cons.prems g t c by auto
  note G = give_spec [OF g]
  then have "length ts1 \<le> quota" by simp
  note T = take_back_spec [OF t this] and C = Cons.IH [OF c]
  have "mset ts2 + (mset (concat cs2) + mset r3) = mset (concat cs) + (mset ts + mset redist)"
    using G T C by (metis add.assoc add.commute)
  then show ?case using G T C unfolding e by (auto simp: ac_simps)
qed simp

lemma list_all_sum:
  "list_all (\<lambda>ts. length ts \<le> q) cs \<Longrightarrow> q * length cs \<le> length (concat cs) \<Longrightarrow> list_all (\<lambda>ts. length ts = q) cs"
proof (induction cs)
  case (Cons ts cs)
  have "length (concat cs) \<le> q * length cs" if "list_all (\<lambda>ts. length ts \<le> q) cs" for cs :: "'a list list"
    using that by (induction cs) auto
  then have "length (concat cs) \<le> q * length cs" using Cons.prems by simp
  then show ?case using Cons by simp
qed simp

lemma redistribute_even:
  assumes "cs \<noteq> []"
  shows "\<exists>cs' rest. redistribute (length (concat cs) div length cs) cs = (cs', rest) \<and> length cs' = length cs \<and>
    list_all (\<lambda>ts. length ts = length (concat cs) div length cs) cs' \<and>
    mset (concat cs') + mset rest = mset (concat cs) \<and> length rest = length (concat cs) mod length cs"
proof -
  let ?n = "length (concat cs)" and ?w = "length cs"
  let ?q = "?n div ?w"
  obtain cs1 r1 where p1: "redist_pass ?q cs [] = (cs1, r1)" by (cases "redist_pass ?q cs []")
  obtain cs2 r2 where p2: "redist_pass ?q cs1 r1 = (cs2, r2)" by (cases "redist_pass ?q cs1 r1")
  note P1 = redist_pass_spec [OF p1] and P2 = redist_pass_spec [OF p2]
  have m: "mset (concat cs2) + mset r2 = mset (concat cs)" using P1 P2 by simp
  then have n: "length (concat cs2) + length r2 = ?n" by (metis size_mset size_union)
  have even: "list_all (\<lambda>ts. length ts = ?q) cs2"
  proof (cases "r2 = []")
    case True
    then have "?q * length cs2 \<le> length (concat cs2)" using n P1 P2 by simp
    then show ?thesis using P2 list_all_sum by blast
  qed (use P1 P2 in blast)
  have "length (concat xs) = q * length xs" if "list_all (\<lambda>ts. length ts = q) xs" for xs :: "'a list list" and q
    using that by (induction xs) auto
  from this [OF even] have "length (concat cs2) = ?q * ?w" using P1 P2 by simp
  then have "length r2 = ?n - ?q * ?w" using n by linarith
  then have "length r2 = ?n mod ?w" by (simp only: minus_div_mult_eq_mod)
  then show ?thesis using p1 p2 P1 P2 even m by (simp add: redistribute_def)
qed

lemma count_remote_ok: "0 < partition_size p \<Longrightarrow> \<exists>n \<le> length ops. count_remote p ops = Inr n"
  by (induction ops) (auto simp: location_def Let_def)

lemma mset_concat_update:
  "i < length cs \<Longrightarrow> mset (concat (cs[i := cs ! i @ [x]])) = add_mset x (mset (concat cs))"
  by (induction cs arbitrary: i) (auto split: nat.splits)

text \<open>The counts of remote operations of two workers differ by at most the operations of one
  transaction.\<close>

definition balanced :: "nat list \<Rightarrow> bool" where
  "balanced ns \<longleftrightarrow> (\<forall>i < length ns. \<forall>j < length ns. ns ! i \<le> ns ! j + N_OPS)"

lemma balanced_update:
  assumes "balanced ns" "ns \<noteq> []" "n \<le> N_OPS"
  shows "balanced (ns[argmin_scan ns := ns ! argmin_scan ns + n])"
  unfolding balanced_def
proof (intro allI impI)
  fix i j
  let ?a = "argmin_scan ns" and ?ns = "ns[argmin_scan ns := ns ! argmin_scan ns + n]"
  assume ij: "i < length ?ns" "j < length ?ns"
  then have "ns ! ?a \<le> ns ! i" "ns ! ?a \<le> ns ! j" "ns ! i \<le> ns ! j + N_OPS"
    using assms(1) by (auto simp: balanced_def argmin_scan_least)
  then show "?ns ! i \<le> ?ns ! j + N_OPS" using ij assms(2,3) by (auto simp: nth_list_update)
qed

lemma distribute_ok:
  assumes "0 < partition_size p"
  shows "set is \<subseteq> {..<length trace} \<Longrightarrow> ns \<noteq> [] \<Longrightarrow> length cs = length ns \<Longrightarrow>
    \<exists>ns' cs'. distribute p trace is (ns, cs) = Inr (ns', cs') \<and> length ns' = length ns \<and> length cs' = length ns \<and>
      mset (concat cs') = mset (concat cs) + mset (map ((!) trace) is) \<and>
      (balanced ns \<longrightarrow> list_all (\<lambda>t. length (cold_ops t) \<le> N_OPS) trace \<longrightarrow> balanced ns')"
proof (induction "is" arbitrary: ns cs)
  case (Cons i "is")
  obtain n where n: "n \<le> length (cold_ops (trace ! i))" "count_remote p (cold_ops (trace ! i)) = Inr n"
    using count_remote_ok [OF assms] by blast
  let ?a = "argmin_scan ns"
  let ?ns = "ns[?a := ns ! ?a + n]" and ?cs = "cs[?a := cs ! ?a @ [trace ! i]]"
  have a: "?a < length ns" using Cons.prems by simp
  have d: "distribute_one p (trace ! i) (ns, cs) = Inr (?ns, ?cs)"
    using n a Cons.prems by (simp add: distribute_one_def at_res_def Let_def)
  obtain ns' cs' where r: "distribute p trace is (?ns, ?cs) = Inr (ns', cs')" "length ns' = length ?ns"
      "length cs' = length ?ns" "mset (concat cs') = mset (concat ?cs) + mset (map ((!) trace) is)"
      "balanced ?ns \<longrightarrow> list_all (\<lambda>t. length (cold_ops t) \<le> N_OPS) trace \<longrightarrow> balanced ns'"
    using Cons.IH [of ?ns ?cs] Cons.prems by auto
  have "balanced ns \<longrightarrow> list_all (\<lambda>t. length (cold_ops t) \<le> N_OPS) trace \<longrightarrow> balanced ns'"
  proof (intro impI)
    assume b: "balanced ns" "list_all (\<lambda>t. length (cold_ops t) \<le> N_OPS) trace"
    then have "length (cold_ops (trace ! i)) \<le> N_OPS" using Cons.prems by (simp add: list_all_length)
    then have "n \<le> N_OPS" using n by simp
    then show "balanced ns'" using r(5) b balanced_update Cons.prems(2) by blast
  qed
  moreover have "mset (concat ?cs) = add_mset (trace ! i) (mset (concat cs))"
    using a Cons.prems by (intro mset_concat_update) simp
  ultimately show ?case using d r Cons.prems by (simp add: at_res_def)
qed simp

text \<open>C19. \<open>main\<close> gives every worker exactly \<open>num_txns / num_txn_workers\<close> transactions: with at least one
  worker, a partition that is not empty and a trace of at least \<open>num_txns\<close> lines the split succeeds,
  every transaction goes to at most one worker, and only \<open>num_txns % num_txn_workers\<close> of them go to none.\<close>

theorem split_trace_even:
  assumes "0 < num_txn_workers config" "0 < partition_size p" "num_txns \<le> length trace_txns"
  shows "\<exists>cores rest. split_trace config p num_txns trace_txns = Inr cores \<and> length cores = num_txn_workers config \<and>
    list_all (\<lambda>ts. length ts = num_txns div num_txn_workers config) cores \<and>
    mset (concat cores) + mset rest = mset (take num_txns trace_txns) \<and>
    length rest = num_txns mod num_txn_workers config"
proof -
  let ?w = "num_txn_workers config"
  obtain ns cs where d: "distribute p trace_txns [0..<num_txns] (replicate ?w 0, replicate ?w []) = Inr (ns, cs)"
      "length cs = ?w" "mset (concat cs) = mset (concat (replicate ?w [])) + mset (map ((!) trace_txns) [0..<num_txns])"
    using distribute_ok [OF assms(2), of "[0..<num_txns]" trace_txns "replicate ?w 0" "replicate ?w []"] assms(1,3)
    by (auto simp: subset_eq)
  have "map ((!) trace_txns) [0..<num_txns] = take num_txns trace_txns"
    using assms(3) by (simp add: list_eq_iff_nth_eq)
  then have m: "mset (concat cs) = mset (take num_txns trace_txns)" using d(3) by (simp del: mset_map mset_upt)
  then have n: "length (concat cs) = num_txns" using assms(3) by (metis length_take min.absorb2 size_mset)
  have "cs \<noteq> []" using d(2) assms(1) by auto
  from redistribute_even [OF this] show ?thesis
    using d m unfolding n by (auto simp: split_trace_def)
qed

theorem split_trace_even_witness:
  "\<exists>cores rest. split_trace (part_demo\<lparr>num_txn_workers := 2\<rparr>)
       \<lparr>total_size = 4, partition_size = 2, offset = 0, my_id = 0, switch_id = 0\<rparr> 3 (map (\<lambda>i. Txn_mk i []) [0, 1, 2]) = Inr cores \<and>
     length cores = 2 \<and> list_all (\<lambda>ts. length ts = 1) cores \<and>
     mset (concat cores) + mset rest = mset (map (\<lambda>i. Txn_mk i []) [0, 1, 2]) \<and> length rest = 1"
  using split_trace_even [of "part_demo\<lparr>num_txn_workers := 2\<rparr>"
      "\<lparr>total_size = 4, partition_size = 2, offset = 0, my_id = 0, switch_id = 0\<rparr>" 3 "map (\<lambda>i. Txn_mk i []) [0, 1, 2]"]
  by simp

section \<open>The loader reads what the trace says\<close>

lemma getline_delim: "d \<notin> set t \<Longrightarrow> getline d (t @ d # r) = (t, Some r)"
  by (induction t) auto

lemma getline_end: "d \<notin> set t \<Longrightarrow> getline d t = (t, None)"
  by (induction t) auto

lemma to_string_digits: "to_string n \<noteq> [] \<and> list_all is_digit (to_string n)"
proof -
  have "to_string n \<noteq> []" by (subst to_string.simps) simp
  moreover have "list_all is_digit (to_string n)"
    using to_string_val [of n] unfolding all_digits_def is_digit_def by simp
  ultimately show ?thesis by simp
qed

lemma digit_not_special: "is_digit c \<Longrightarrow> c \<notin> set [CHR '','', CHR '':'', CHR 0x0A, CHR ''-'', CHR ''+''] \<and> \<not> is_space c"
  by (auto simp: is_digit_def is_space_def)

lemma to_string_avoids: "c \<in> set (to_string n) \<Longrightarrow> c \<notin> set [CHR '','', CHR '':'', CHR 0x0A]"
  using to_string_digits [of n] digit_not_special [of c] by (auto simp: list_all_iff)

lemma stoull_to_string: "n < 2 ^ 64 \<Longrightarrow> stoull (to_string n) = Inr n"
proof -
  assume n: "n < 2 ^ 64"
  note d = to_string_digits [of n]
  then have h: "is_digit (hd (to_string n))" by (simp add: list_all_iff)
  have "dropWhile is_space (to_string n) = to_string n"
    using d digit_not_special [OF h] by (cases "to_string n") auto
  moreover have "hd (to_string n) \<notin> set ''+-''" using digit_not_special [OF h] by auto
  moreover have tw: "takeWhile is_digit (to_string n) = to_string n" using d by (simp add: takeWhile_eq_all_conv list_all_iff)
  ultimately show ?thesis using n d to_string_val [of n] by (simp add: stoull_def Let_def tw)
qed

fun csv_line :: "nat list \<Rightarrow> string" where
  "csv_line [] = []"
| "csv_line [k] = to_string k"
| "csv_line (k # ks) = to_string k @ CHR '','' # csv_line ks"

definition text_of :: "string list \<Rightarrow> string" where
  "text_of ls = concat (map (\<lambda>l. l @ [CHR 0x0A]) ls)"

lemma csv_line_avoids: "CHR 0x0A \<notin> set (csv_line ks)"
  by (induction ks rule: csv_line.induct) (auto dest: to_string_avoids)

lemma file_lines_text: "list_all (\<lambda>l. CHR 0x0A \<notin> set l) ls \<Longrightarrow> file_lines (text_of ls) = ls"
proof (induction ls)
  case Nil
  show ?case by (subst file_lines.simps) (simp add: text_of_def)
next
  case (Cons l ls)
  then have "getline (CHR 0x0A) (text_of (l # ls)) = (l, Some (text_of ls))"
    by (simp add: text_of_def getline_delim)
  then show ?case using Cons by (subst file_lines.simps) simp
qed

lemma file_lines_unterminated:
  assumes "list_all (\<lambda>l. CHR 0x0A \<notin> set l) ls" "CHR 0x0A \<notin> set t"
  shows "file_lines (text_of ls @ t) = ls"
  using assms(1)
proof (induction ls)
  case Nil
  show ?case using getline_end [OF assms(2)] by (subst file_lines.simps) (simp add: text_of_def)
next
  case (Cons l ls)
  then have "getline (CHR 0x0A) (text_of (l # ls) @ t) = (l, Some (text_of ls @ t))"
    by (simp add: text_of_def getline_delim)
  then show ?case using Cons by (subst file_lines.simps) simp
qed

definition loaded_as :: "OP list \<Rightarrow> nat list \<Rightarrow> bool" where
  "loaded_as ops ks \<longleftrightarrow> map op_id ops = ks \<and> list_all (\<lambda>op. op_mode op \<noteq> INVALID \<and> unat (op_value op) < 100000) ops"

lemma value_small: "unat (word_of_nat (n mod 100000) :: u32) < 100000"
proof -
  have "n mod 100000 mod 4294967296 \<le> n mod 100000" by (rule mod_less_eq_dividend)
  then have "n mod 100000 mod 4294967296 < 100000" using mod_less_divisor [of 100000 n] by linarith
  then show ?thesis by (simp add: unat_of_nat)
qed

lemma load_ops_end:
  "stoull access = Inr a \<Longrightarrow> \<exists>ops. load_ops n wp rand u k access None = Inr ops \<and> loaded_as ops (replicate n a)"
proof (induction n arbitrary: k)
  case (Suc n)
  obtain ops where "load_ops n wp rand u (k + 2) access None = Inr ops" "loaded_as ops (replicate n a)"
    using Suc by blast
  then show ?case using Suc.prems value_small by (simp add: get_token_def loaded_as_def)
qed (simp add: loaded_as_def)

lemma load_ops_line:
  "list_all (\<lambda>k. k < 2 ^ 64) ks \<Longrightarrow> ks \<noteq> [] \<Longrightarrow>
     \<exists>ops. load_ops n wp rand u i access (Some (csv_line ks)) = Inr ops \<and>
       loaded_as ops (take n ks @ replicate (n - length ks) (last ks))"
proof (induction ks arbitrary: n i access rule: csv_line.induct)
  case (2 k)
  show ?case
  proof (cases n)
    case (Suc m)
    have t: "getline (CHR '','') (to_string k) = (to_string k, None)"
      using to_string_avoids by (intro getline_end) auto
    have s: "stoull (to_string k) = Inr k" using "2.prems" by (intro stoull_to_string) simp
    obtain ops where "load_ops m wp rand u (i + 2) (to_string k) None = Inr ops" "loaded_as ops (replicate m k)"
      using load_ops_end [OF s] by blast
    then show ?thesis using s t Suc value_small by (simp add: get_token_def loaded_as_def)
  qed (simp add: loaded_as_def)
next
  case (3 k k' ks)
  show ?case
  proof (cases n)
    case (Suc m)
    have t: "getline (CHR '','') (csv_line (k # k' # ks)) = (to_string k, Some (csv_line (k' # ks)))"
      using to_string_avoids by (auto intro!: getline_delim)
    have s: "stoull (to_string k) = Inr k" using "3.prems" by (intro stoull_to_string) simp
    obtain ops where "load_ops m wp rand u (i + 2) (to_string k) (Some (csv_line (k' # ks))) = Inr ops"
        "loaded_as ops (take m (k' # ks) @ replicate (m - length (k' # ks)) (last (k' # ks)))"
      using "3.IH" [of m "i + 2" "to_string k"] "3.prems" by auto
    then show ?thesis using s t Suc value_small by (simp add: get_token_def loaded_as_def del: csv_line.simps)
  qed (simp add: loaded_as_def)
qed simp

lemma load_txn_line:
  assumes "list_all (\<lambda>k. k < 2 ^ 64) ks" "ks \<noteq> []"
  shows "\<exists>txn. load_txn wp rand u lid (csv_line ks) = Inr txn \<and> loader_id txn = lid \<and>
    loaded_as (cold_ops txn) (take N_OPS ks @ replicate (N_OPS - length ks) (last ks))"
proof -
  obtain ops where "load_ops N_OPS wp rand u (2 * N_OPS * lid) [] (Some (csv_line ks)) = Inr ops"
      "loaded_as ops (take N_OPS ks @ replicate (N_OPS - length ks) (last ks))"
    using load_ops_line [OF assms] by blast
  then show ?thesis by (simp add: load_txn_def Txn_mk_def)
qed

definition well_formed_keys :: "nat list \<Rightarrow> bool" where
  "well_formed_keys ks \<longleftrightarrow> length ks = N_OPS \<and> list_all (\<lambda>k. k < 2 ^ 64) ks"

lemma load_trace_lines:
  "list_all well_formed_keys kss \<Longrightarrow>
     \<exists>txns. load_trace wp rand u lid (map csv_line kss) = Inr txns \<and> map loader_id txns = [lid..<lid + length kss] \<and>
       list_all2 (\<lambda>txn ks. loaded_as (cold_ops txn) ks) txns kss"
proof (induction kss arbitrary: lid)
  case (Cons ks kss)
  have ks: "list_all (\<lambda>k. k < 2 ^ 64) ks" "ks \<noteq> []" "length ks = N_OPS"
    using Cons.prems by (auto simp: well_formed_keys_def N_OPS_def)
  obtain txn where t: "load_txn wp rand u lid (csv_line ks) = Inr txn" "loader_id txn = lid" "loaded_as (cold_ops txn) ks"
    using load_txn_line [OF ks(1,2), of wp rand u lid] ks(3) by auto
  obtain txns where "load_trace wp rand u (lid + 1) (map csv_line kss) = Inr txns"
      "map loader_id txns = [lid + 1..<lid + 1 + length kss]" "list_all2 (\<lambda>txn ks. loaded_as (cold_ops txn) ks) txns kss"
    using Cons.IH [of "lid + 1"] Cons.prems by auto
  moreover have "lid # [lid + 1..<lid + 1 + length kss] = [lid..<lid + length (ks # kss)]"
    by (subst upt_conv_Cons [of lid]) simp_all
  ultimately show ?case using t by (simp del: upt_Suc)
qed simp

definition freq_line :: "nat \<times> nat \<Rightarrow> string" where
  "freq_line e = to_string (fst e) @ CHR '':'' # to_string (snd e)"

lemma load_freq_line: "fst e < 2 ^ 64 \<Longrightarrow> snd e < 2 ^ 64 \<Longrightarrow> load_freq (freq_line e) = Inr e"
proof -
  assume e: "fst e < 2 ^ 64" "snd e < 2 ^ 64"
  have "getline (CHR '':'') (freq_line e) = (to_string (fst e), Some (to_string (snd e)))"
    using to_string_avoids unfolding freq_line_def by (intro getline_delim) auto
  then show ?thesis using e by (simp add: load_freq_def stoull_to_string)
qed

lemma load_dist_lines:
  "list_all (\<lambda>e. fst e < 2 ^ 64 \<and> snd e < 2 ^ 64) es \<Longrightarrow> load_dist (map freq_line es) = Inr es"
  by (induction es) (auto simp: load_freq_line)

lemma freq_line_avoids: "CHR 0x0A \<notin> set (freq_line e)"
  by (auto simp: freq_line_def dest: to_string_avoids)

text \<open>C24. The loader reads back what a trace file and a frequency file say. From the text of any list of
  transactions of eight 64-bit keys, one line per transaction, and of any list of keys with their
  frequencies, it builds exactly these transactions, in order and numbered from 0, each
  operation a read or a write with a value below 100000, and the layout of these frequencies; what
  follows the last newline of either file is ignored.\<close>

theorem load_txns_roundtrip:
  assumes "list_all well_formed_keys kss" "list_all (\<lambda>e. fst e < 2 ^ 64 \<and> snd e < 2 ^ 64) es"
    "CHR 0x0A \<notin> set rest" "CHR 0x0A \<notin> set rest'"
  shows "\<exists>txns. load_txns cfg write_prob rand uninit
        (text_of (map csv_line kss) @ rest) (text_of (map freq_line es) @ rest') =
      bind_res (DeclusteredLayout_mk cfg es) (\<lambda>layout. ok (txns, layout)) \<and>
    map loader_id txns = [0..<length kss] \<and> list_all2 (\<lambda>txn ks. loaded_as (cold_ops txn) ks) txns kss"
proof -
  have "file_lines (text_of (map csv_line kss) @ rest) = map csv_line kss"
    using assms(3) by (intro file_lines_unterminated) (auto simp: list_all_iff csv_line_avoids)
  moreover have "file_lines (text_of (map freq_line es) @ rest') = map freq_line es"
    using assms(4) by (intro file_lines_unterminated) (auto simp: list_all_iff freq_line_avoids)
  moreover obtain txns where "load_trace write_prob rand uninit 0 (map csv_line kss) = Inr txns"
      "map loader_id txns = [0..<length kss]" "list_all2 (\<lambda>txn ks. loaded_as (cold_ops txn) ks) txns kss"
    using load_trace_lines [OF assms(1), of write_prob rand uninit 0] by auto
  ultimately show ?thesis using load_dist_lines [OF assms(2)] by (intro exI [of _ txns]) (simp add: load_txns_def)
qed

theorem load_txns_roundtrip_witness:
  "\<exists>txns. load_txns default_build 50 (\<lambda>k. k) \<lparr>is_local = True, target = 0\<rparr>
        (text_of (map csv_line [[1, 2, 3, 4, 5, 6, 7, 18446744073709551615]]) @ ''9,'') (text_of (map freq_line [(1, 7)])) =
      bind_res (DeclusteredLayout_mk default_build [(1, 7)]) (\<lambda>layout. ok (txns, layout)) \<and>
    map loader_id txns = [0] \<and> list_all2 (\<lambda>txn ks. loaded_as (cold_ops txn) ks) txns [[1, 2, 3, 4, 5, 6, 7, 18446744073709551615]]"
  using load_txns_roundtrip [of "[[1, 2, 3, 4, 5, 6, 7, 18446744073709551615]]" "[(1, 7)]" "''9,''" "[]"
      default_build 50 "\<lambda>k. k" "\<lparr>is_local = True, target = 0\<rparr>"]
  by (simp add: well_formed_keys_def N_OPS_def del: csv_line.simps)

text \<open>A trace line with fewer than eight keys is not rejected: once the line is used up the calls of
  \<open>getline\<close> leave the last key in place, so that it is taken again for every missing operation.\<close>

lemma load_short_line_repeats:
  assumes "list_all (\<lambda>k. k < 2 ^ 64) ks" "ks \<noteq> []" "length ks < N_OPS"
  shows "\<exists>txn. load_txn write_prob rand uninit lid (csv_line ks) = Inr txn \<and>
    map op_id (cold_ops txn) = ks @ replicate (N_OPS - length ks) (last ks)"
  using load_txn_line [OF assms(1,2), of write_prob rand uninit lid] assms(3) by (auto simp: loaded_as_def)

lemma load_short_line_repeats_witness:
  "\<exists>txn. load_txn 50 (\<lambda>k. k) \<lparr>is_local = True, target = 0\<rparr> 0 (csv_line [4, 9]) = Inr txn \<and>
    map op_id (cold_ops txn) = [4, 9] @ replicate 6 9"
  using load_short_line_repeats [of "[4, 9]" 50 "\<lambda>k. k" "\<lparr>is_local = True, target = 0\<rparr>" 0]
  by (simp add: N_OPS_def del: csv_line.simps)

section \<open>The table starts with every key\<close>

lemma fill_table_ok:
  "table_wf t \<Longrightarrow> t_size t + n \<le> max_size t \<Longrightarrow>
     \<exists>t'. fill_table n i t = Inr t' \<and> table_wf t' \<and> t_size t' = t_size t + n \<and> max_size t' = max_size t \<and>
       part_info t' = part_info t \<and>
       (\<forall>k. k < max_size t \<longrightarrow> t_data t' ! k =
          (if t_size t \<le> k \<and> k < t_size t + n
           then (t_data t ! k)\<lparr>r_tuple := (r_tuple (t_data t ! k))\<lparr>kv_id := i + (k - t_size t)\<rparr>\<rparr>
           else t_data t ! k))"
proof (induction n arbitrary: i t)
  case (Suc n)
  let ?s = "t_size t" let ?r = "t_data t ! ?s"
  let ?t = "t\<lparr>t_size := ?s + 1, t_data := (t_data t)[?s := ?r\<lparr>r_tuple := (r_tuple ?r)\<lparr>kv_id := i\<rparr>\<rparr>]\<rparr>"
  have s: "?s < max_size t" "length (t_data t) = max_size t" using Suc.prems by (auto simp: table_wf_def)
  have e: "fill_table (Suc n) i t = fill_table n (i + 1) ?t" using s by (simp add: table_insert_def at_res_def)
  have "table_wf ?t" "t_size ?t + n \<le> max_size ?t" using Suc.prems s by (auto simp: table_wf_def)
  from Suc.IH [OF this, of "i + 1"] obtain t' where t': "fill_table n (i + 1) ?t = Inr t'" "table_wf t'"
      "t_size t' = ?s + 1 + n" "max_size t' = max_size t" "part_info t' = part_info t"
      and d: "\<And>k. k < max_size t \<Longrightarrow> t_data t' ! k =
        (if ?s + 1 \<le> k \<and> k < ?s + 1 + n
         then (t_data ?t ! k)\<lparr>r_tuple := (r_tuple (t_data ?t ! k))\<lparr>kv_id := i + 1 + (k - (?s + 1))\<rparr>\<rparr>
         else t_data ?t ! k)"
    by auto
  have "t_data t' ! k = (if ?s \<le> k \<and> k < ?s + Suc n
      then (t_data t ! k)\<lparr>r_tuple := (r_tuple (t_data t ! k))\<lparr>kv_id := i + (k - ?s)\<rparr>\<rparr> else t_data t ! k)"
    if "k < max_size t" for k
  proof (cases "k = ?s")
    case True
    then show ?thesis using d [OF that] s by simp
  next
    case False
    then have "i + 1 + (k - (?s + 1)) = i + (k - ?s)" if "?s \<le> k" using that by simp
    then show ?thesis using d [OF that] False by (auto simp: nth_list_update)
  qed
  then show ?case using e t' by auto
qed simp

text \<open>C30. After the set-up of \<open>main\<close> the table is complete: on a node without the table, with a
  table size that the number of nodes divides, the set-up never runs into a full table, and then
  every key below the table size is a row that is in use, free, and holds its own key.\<close>

theorem setup_table_complete:
  assumes "\<not> has_table nd ''kvs''" "0 < num_nodes config" "num_nodes config dvd table_size config"
  shows "\<exists>i nd' t. setup_table config nd uninit = Inr (i, nd') \<and> get_casted nd' ''kvs'' = Inr i \<and> tables nd' ! i = t \<and>
    table_wf t \<and> t_size t = table_size config \<and>
    (\<forall>k < table_size config. lockless_access t k = Inr k \<and> row_check (t_data t ! k) \<and>
       r_tuple (t_data t ! k) = uninit\<lparr>kv_id := k\<rparr>)"
proof -
  let ?n = "table_size config" let ?i = "length (tables nd)"
  obtain p where p: "PartitionInfo_mk config ?n = Inr p" using assms(2,3) PartitionInfo_mk_Inr by blast
  define t0 where "t0 = \<lparr>t_id = ?i, t_name = ''kvs'', t_size = 0, max_size = ?n, part_info = p,
    t_data = replicate ?n (Row_mk uninit)\<rparr>"
  define nd0 where "nd0 = nd\<lparr>tables := tables nd @ [t0], table_names := (table_names nd)(''kvs'' \<mapsto> ?i)\<rparr>"
  have mk: "make_table config nd ''kvs'' ?n uninit = Inr (?i, nd0)"
    using assms(1) p by (simp add: make_table_def StructTable_mk_def t0_def nd0_def Let_def)
  have "table_wf t0" "t_size t0 + ?n \<le> max_size t0" by (simp_all add: t0_def table_wf_def)
  from fill_table_ok [OF this, of 0] obtain t where t: "fill_table ?n 0 t0 = Inr t" "table_wf t" "t_size t = ?n"
      "\<And>k. k < ?n \<Longrightarrow> t_data t ! k = (Row_mk uninit)\<lparr>r_tuple := uninit\<lparr>kv_id := k\<rparr>\<rparr>"
    by (auto simp: t0_def Row_mk_def)
  have "setup_table config nd uninit = Inr (?i, set_table nd0 ?i t)"
    using mk t(1) by (simp add: setup_table_def nd0_def at_res_def)
  moreover have "get_casted (set_table nd0 ?i t) ''kvs'' = Inr ?i" "tables (set_table nd0 ?i t) ! ?i = t"
    by (simp_all add: get_casted_def table_by_name_def set_table_def nd0_def)
  moreover have "lockless_access t k = Inr k \<and> row_check (t_data t ! k) \<and> r_tuple (t_data t ! k) = uninit\<lparr>kv_id := k\<rparr>"
    if "k < ?n" for k
    using t(2,3) t(4) [OF that] that
    by (simp add: lockless_access_def translate_def table_wf_def at_res_def assert_res_def row_check_def Row_mk_def)
  ultimately show ?thesis using t(2,3) by blast
qed

theorem setup_table_complete_witness:
  "\<exists>i nd' t. setup_table part_demo (node_mk part_demo) \<lparr>kv_id = 7, kv_value = 0\<rparr> = Inr (i, nd') \<and>
    tables nd' ! i = t \<and> t_size t = 40 \<and> r_tuple (t_data t ! 39) = \<lparr>kv_id = 39, kv_value = 0\<rparr>"
proof -
  have "\<not> has_table (node_mk part_demo) ''kvs''" by (simp add: has_table_def node_mk_def)
  moreover have "0 < num_nodes part_demo" "num_nodes part_demo dvd table_size part_demo" "39 < table_size part_demo"
      "table_size part_demo = 40"
    by (simp_all add: part_demo_def)
  ultimately show ?thesis
    using setup_table_complete [of "node_mk part_demo" part_demo "\<lparr>kv_id = 7, kv_value = 0\<rparr>"] by fastforce
qed

end
