(* ===== verification/P4_Barrier.thy ===== *)
theory P4_Barrier
  imports P4_Prelude P4_Types
begin

text \<open>
  Synchronisation between threads and between nodes: the spin lock of \<open>utils/spinlock.hpp\<close>, the
  reusable barrier of \<open>utils/rbarrier.hpp\<close> and the barrier between nodes of
  \<open>comm/handlers/barrier.cpp\<close>. Each thread has a program counter; a step is one atomic access to
  shared memory, and a thread that spins has no step until its condition holds.
\<close>

section \<open>The spin lock\<close>

text \<open>
  Before the exchange of \<open>lock\<close>, in its inner loop, in \<open>try_lock\<close> before the load and before the
  exchange, and between \<open>lock\<close> and \<open>unlock\<close>.
\<close>

datatype spin_pc = SpinOut | AtExchange | AtPause | TryLoad | TryExchange | Holding

record SpinLock =
  lock_flag :: bool
  spin_pcs :: "nat \<Rightarrow> spin_pc"

definition SpinLock_mk :: SpinLock where
  "SpinLock_mk = \<lparr>lock_flag = False, spin_pcs = (\<lambda>_. SpinOut)\<rparr>"

definition spin_goto :: "nat \<Rightarrow> spin_pc \<Rightarrow> SpinLock \<Rightarrow> SpinLock" where
  "spin_goto t p s = s\<lparr>spin_pcs := (spin_pcs s)(t := p)\<rparr>"

text \<open>\<open>lock_.exchange(true)\<close>: the flag is set, and the thread goes one of two ways by its old value.\<close>

definition spin_exchange :: "nat \<Rightarrow> spin_pc \<Rightarrow> SpinLock \<Rightarrow> SpinLock" where
  "spin_exchange t busy s = spin_goto t (if lock_flag s then busy else Holding) (s\<lparr>lock_flag := True\<rparr>)"

inductive spin_step :: "SpinLock \<Rightarrow> SpinLock \<Rightarrow> bool" where
  lock_call: "spin_pcs s t = SpinOut \<Longrightarrow> spin_step s (spin_goto t AtExchange s)"
| lock_exchange: "spin_pcs s t = AtExchange \<Longrightarrow> spin_step s (spin_exchange t AtPause s)"
| lock_retry: "spin_pcs s t = AtPause \<Longrightarrow> \<not> lock_flag s \<Longrightarrow> spin_step s (spin_goto t AtExchange s)"
| try_call: "spin_pcs s t = SpinOut \<Longrightarrow> spin_step s (spin_goto t TryLoad s)"
| try_load: "spin_pcs s t = TryLoad \<Longrightarrow> spin_step s (spin_goto t (if lock_flag s then SpinOut else TryExchange) s)"
| try_exchange: "spin_pcs s t = TryExchange \<Longrightarrow> spin_step s (spin_exchange t SpinOut s)"
| unlock: "spin_pcs s t = Holding \<Longrightarrow> spin_step s (spin_goto t SpinOut (s\<lparr>lock_flag := False\<rparr>))"

definition spin_inv :: "SpinLock \<Rightarrow> bool" where
  "spin_inv s \<longleftrightarrow> (\<forall>t u. spin_pcs s t = Holding \<longrightarrow> spin_pcs s u = Holding \<longrightarrow> t = u) \<and>
     (lock_flag s \<longleftrightarrow> (\<exists>t. spin_pcs s t = Holding))"

interpretation spin: inv_system "\<lambda>s. s = SpinLock_mk" spin_step spin_inv
proof
  show "spin_inv s" if "s = SpinLock_mk" for s using that by (simp add: spin_inv_def SpinLock_mk_def)
  show "spin_inv s'" if "spin_inv s" "spin_step s s'" for s s'
    using that(2,1)
    by (induction rule: spin_step.induct) (auto simp: spin_inv_def spin_goto_def spin_exchange_def split: if_splits, (metis spin_pc.distinct)+)
qed

text \<open>
  C35. The spin lock. In every interleaving of calls of \<open>lock\<close>, \<open>try_lock\<close> and \<open>unlock\<close> by any
  number of threads, at most one thread holds the lock; and the flag is set exactly while
  one does, so a thread that finds it set waits for a thread that will clear it.
\<close>

theorem spin_lock_exclusive:
  assumes "spin_step\<^sup>*\<^sup>* SpinLock_mk s"
  shows "(lock_flag s \<longleftrightarrow> (\<exists>t. spin_pcs s t = Holding)) \<and> (spin_pcs s t = Holding \<and> spin_pcs s u = Holding \<longrightarrow> t = u)"
  using spin.reach_inv [OF refl assms] by (auto simp: spin_inv_def)

theorem spin_lock_exclusive_witness:
  "\<exists>s. spin_step\<^sup>*\<^sup>* SpinLock_mk s \<and> spin_pcs s 1 = Holding \<and> spin_pcs s 2 = AtExchange \<and> lock_flag s"
proof -
  let ?a = "spin_goto 1 AtExchange SpinLock_mk"
  let ?b = "spin_exchange 1 AtPause ?a" and ?c = "spin_goto 2 AtExchange (spin_exchange 1 AtPause ?a)"
  have "spin_step SpinLock_mk ?a" "spin_step ?a ?b" "spin_step ?b ?c"
    by (rule spin_step.intros, simp add: SpinLock_mk_def spin_goto_def spin_exchange_def)+
  then have r: "spin_step\<^sup>*\<^sup>* SpinLock_mk ?c" by (meson r_into_rtranclp rtranclp_trans)
  have h: "spin_pcs ?c 1 = Holding" "spin_pcs ?c 2 = AtExchange" by (simp_all add: SpinLock_mk_def spin_goto_def spin_exchange_def)
  with spin_lock_exclusive [OF r] r show ?thesis by blast
qed

section \<open>The reusable barrier\<close>

text \<open>
  A thread in \<open>wait\<close>: the last to arrive resets \<open>enter_ct\<close>, the others spin on it; \<open>Middle\<close>
  (of the last one or not) precedes the call of the middle function, then the same
  happens with \<open>exit_ct\<close>. \<open>entered\<close> and \<open>finished\<close> count the calls and returns of \<open>wait\<close>
  by each thread, \<open>mf_calls\<close> the calls of the middle function; the code has no such counters.
\<close>

datatype rb_pc = Outside | EnterReset | EnterSpin | Middle bool | AtExit | ExitReset | ExitSpin

record rb_conf =
  n_threads :: u32
  single :: bool

record rb_state =
  enter_ct :: u32
  exit_ct :: u32
  rb_pcs :: "nat \<Rightarrow> rb_pc"
  entered :: "nat \<Rightarrow> nat"
  finished :: "nat \<Rightarrow> nat"
  mf_calls :: nat

definition rb_mk :: rb_state where
  "rb_mk = \<lparr>enter_ct = 0, exit_ct = 0, rb_pcs = (\<lambda>_. Outside), entered = (\<lambda>_. 0), finished = (\<lambda>_. 0), mf_calls = 0\<rparr>"

definition rb_goto :: "nat \<Rightarrow> rb_pc \<Rightarrow> rb_state \<Rightarrow> rb_state" where
  "rb_goto t p s = s\<lparr>rb_pcs := (rb_pcs s)(t := p)\<rparr>"

definition rb_return :: "nat \<Rightarrow> rb_state \<Rightarrow> rb_state" where
  "rb_return t s = rb_goto t Outside (s\<lparr>finished := (finished s)(t := Suc (finished s t))\<rparr>)"

text \<open>The next step of a thread; \<open>None\<close> while it spins.\<close>

definition rb_wait :: "rb_conf \<Rightarrow> nat \<Rightarrow> rb_state \<Rightarrow> rb_state option" where
  "rb_wait B t s =
     (case rb_pcs s t of
        Outside \<Rightarrow>
          (let c = enter_ct s + 1 in
           Some (rb_goto t (if c = n_threads B then EnterReset else EnterSpin)
             (s\<lparr>enter_ct := c, entered := (entered s)(t := Suc (entered s t))\<rparr>)))
      | EnterReset \<Rightarrow> Some (rb_goto t (Middle True) (s\<lparr>enter_ct := 0\<rparr>))
      | EnterSpin \<Rightarrow> if enter_ct s \<noteq> 0 then None else Some (rb_goto t (Middle False) s)
      | Middle l \<Rightarrow> Some (rb_goto t AtExit (if \<not> single B \<or> l then s\<lparr>mf_calls := Suc (mf_calls s)\<rparr> else s))
      | AtExit \<Rightarrow>
          (let c = exit_ct s + 1 in
           Some (rb_goto t (if c = n_threads B then ExitReset else ExitSpin) (s\<lparr>exit_ct := c\<rparr>)))
      | ExitReset \<Rightarrow> Some (rb_return t (s\<lparr>exit_ct := 0\<rparr>))
      | ExitSpin \<Rightarrow> if exit_ct s \<noteq> 0 then None else Some (rb_return t s))"

definition rb_step :: "rb_conf \<Rightarrow> rb_state \<Rightarrow> rb_state \<Rightarrow> bool" where
  "rb_step B s s' \<longleftrightarrow> (\<exists>t < unat (n_threads B). rb_wait B t s = Some s')"

text \<open>The four phases of round \<open>r\<close>.\<close>

definition rb_at :: "rb_conf \<Rightarrow> rb_pc \<Rightarrow> rb_state \<Rightarrow> nat set" where
  "rb_at B p s = {t. t < unat (n_threads B) \<and> rb_pcs s t = p}"

definition all_in_round :: "rb_conf \<Rightarrow> nat \<Rightarrow> rb_state \<Rightarrow> bool" where
  "all_in_round B r s \<longleftrightarrow> (\<forall>t < unat (n_threads B). entered s t = Suc r \<and> finished s t = r)"

definition gather_ok :: "nat \<Rightarrow> rb_pc \<Rightarrow> nat \<Rightarrow> nat \<Rightarrow> bool" where
  "gather_ok r p e f \<longleftrightarrow> p = Outside \<and> e = r \<and> f = r \<or> p = EnterSpin \<and> e = Suc r \<and> f = r \<or> p = ExitSpin \<and> e = r \<and> Suc f = r"

definition gathering :: "rb_conf \<Rightarrow> nat \<Rightarrow> rb_state \<Rightarrow> bool" where
  "gathering B r s \<longleftrightarrow>
     (\<forall>t < unat (n_threads B). gather_ok r (rb_pcs s t) (entered s t) (finished s t)) \<and>
     enter_ct s = word_of_nat (card (rb_at B EnterSpin s)) \<and> card (rb_at B EnterSpin s) < unat (n_threads B) \<and>
     exit_ct s = 0 \<and> (single B \<longrightarrow> mf_calls s = r)"

definition complete :: "rb_conf \<Rightarrow> nat \<Rightarrow> rb_state \<Rightarrow> bool" where
  "complete B r s \<longleftrightarrow> all_in_round B r s \<and>
     (\<exists>l < unat (n_threads B). rb_pcs s l = EnterReset \<and> (\<forall>t < unat (n_threads B). t \<noteq> l \<longrightarrow> rb_pcs s t = EnterSpin)) \<and>
     enter_ct s = n_threads B \<and> exit_ct s = 0 \<and> (single B \<longrightarrow> mf_calls s = r)"

definition draining :: "rb_conf \<Rightarrow> nat \<Rightarrow> rb_state \<Rightarrow> bool" where
  "draining B r s \<longleftrightarrow> all_in_round B r s \<and>
     (\<forall>t < unat (n_threads B). rb_pcs s t \<in> {EnterSpin, Middle False, Middle True, AtExit, ExitSpin}) \<and>
     enter_ct s = 0 \<and> exit_ct s = word_of_nat (card (rb_at B ExitSpin s)) \<and> card (rb_at B ExitSpin s) < unat (n_threads B) \<and>
     (single B \<longrightarrow> (\<exists>l. rb_at B (Middle True) s = {l}) \<and> mf_calls s = r \<or> rb_at B (Middle True) s = {} \<and> mf_calls s = Suc r)"

definition leaving :: "rb_conf \<Rightarrow> nat \<Rightarrow> rb_state \<Rightarrow> bool" where
  "leaving B r s \<longleftrightarrow> all_in_round B r s \<and>
     (\<exists>l < unat (n_threads B). rb_pcs s l = ExitReset \<and> (\<forall>t < unat (n_threads B). t \<noteq> l \<longrightarrow> rb_pcs s t = ExitSpin)) \<and>
     enter_ct s = 0 \<and> exit_ct s = n_threads B \<and> (single B \<longrightarrow> mf_calls s = Suc r)"

definition rb_inv :: "rb_conf \<Rightarrow> rb_state \<Rightarrow> bool" where
  "rb_inv B s \<longleftrightarrow> n_threads B \<noteq> 0 \<and> (\<exists>r. gathering B r s \<or> complete B r s \<or> draining B r s \<or> leaving B r s)"

lemma rb_sel [simp]:
  "rb_pcs (rb_goto t p s) = (rb_pcs s)(t := p)" "enter_ct (rb_goto t p s) = enter_ct s" "exit_ct (rb_goto t p s) = exit_ct s"
  "entered (rb_goto t p s) = entered s" "finished (rb_goto t p s) = finished s" "mf_calls (rb_goto t p s) = mf_calls s"
  by (simp_all add: rb_goto_def)

text \<open>One more thread at a program point, and the case of all threads but one being there.\<close>

lemma rb_at_new:
  assumes "t < N" "f t \<noteq> p"
  shows "card {u. u < N \<and> (f(t := p)) u = p} = Suc (card {u. u < N \<and> f u = p})"
    and "Suc (card {u. u < N \<and> f u = p}) = N \<Longrightarrow> u < N \<Longrightarrow> u \<noteq> t \<Longrightarrow> f u = p"
    and "Suc (card {u. u < N \<and> f u = p}) \<le> N"
proof -
  have "{u. u < N \<and> (f(t := p)) u = p} = insert t {u. u < N \<and> f u = p}" using assms(1) by auto
  then show "card {u. u < N \<and> (f(t := p)) u = p} = Suc (card {u. u < N \<and> f u = p})" using assms(2) by simp
  have sub: "{u. u < N \<and> f u = p} \<subseteq> {..<N} - {t}" and fin: "finite ({..<N} - {t})" using assms(2) by auto
  have cd: "card ({..<N} - {t}) = N - 1" using assms(1) by simp
  from card_mono [OF fin sub] cd assms(1) show "Suc (card {u. u < N \<and> f u = p}) \<le> N" by linarith
  show "f u = p" if "Suc (card {u. u < N \<and> f u = p}) = N" "u < N" "u \<noteq> t"
  proof -
    have "{u. u < N \<and> f u = p} = {..<N} - {t}" using card_subset_eq [OF fin sub] cd that(1) by simp
    then show ?thesis using that(2,3) by blast
  qed
qed

lemma rb_unat:
  fixes n :: u32
  assumes "c \<le> unat n"
  shows "unat (word_of_nat c :: u32) = c"
proof (rule of_nat_inverse [OF refl])
  have "unat n < 2 ^ LENGTH(32)" by (rule unsigned_less)
  with assms show "c < 2 ^ LENGTH(32)" by (rule le_less_trans)
qed

lemma rb_count:
  fixes n :: u32
  assumes "Suc c \<le> unat n"
  shows "word_of_nat c + 1 = n \<longleftrightarrow> Suc c = unat n"
proof -
  have e: "word_of_nat c + 1 = (word_of_nat (Suc c) :: u32)" by simp
  have "unat n = Suc c" if "word_of_nat (Suc c) = n" using rb_unat [OF assms] that by (simp only:)
  moreover have "word_of_nat (Suc c) = n" if "Suc c = unat n" unfolding that by simp
  ultimately show ?thesis unfolding e by (auto simp only:)
qed

lemma rb_count0:
  fixes n :: u32
  assumes "c \<le> unat n"
  shows "(word_of_nat c :: u32) = 0 \<longleftrightarrow> c = 0"
proof
  assume "(word_of_nat c :: u32) = 0"
  with rb_unat [OF assms] show "c = 0" by (simp only: unsigned_0)
qed simp

lemma gathering_step:
  assumes g: "gathering B r s" and n: "n_threads B \<noteq> 0" and t: "t < unat (n_threads B)" and w: "rb_wait B t s = Some s'"
  shows "gathering B r s' \<or> complete B r s'"
proof -
  let ?N = "unat (n_threads B)" and ?c = "card (rb_at B EnterSpin s)"
  have all: "\<And>u. u < ?N \<Longrightarrow> gather_ok r (rb_pcs s u) (entered s u) (finished s u)"
    and ct: "enter_ct s = word_of_nat ?c" "?c < ?N" "exit_ct s = 0" "single B \<longrightarrow> mf_calls s = r"
    using g unfolding gathering_def by blast+
  from all [OF t] consider (out) "rb_pcs s t = Outside" "entered s t = r" "finished s t = r"
    | (spin) "rb_pcs s t = EnterSpin" | (ex) "rb_pcs s t = ExitSpin" "entered s t = r" "Suc (finished s t) = r"
    by (auto simp: gather_ok_def)
  then show ?thesis
  proof cases
    case out
    have new: "card {u. u < ?N \<and> ((rb_pcs s)(t := EnterSpin)) u = EnterSpin} = Suc ?c" "Suc ?c \<le> ?N"
      unfolding rb_at_def by (rule rb_at_new(1,3) [OF t], simp add: out(1))+
    show ?thesis
    proof (cases "Suc ?c = ?N")
      case True
      have others: "\<And>u. u < ?N \<Longrightarrow> u \<noteq> t \<Longrightarrow> rb_pcs s u = EnterSpin"
        by (rule rb_at_new(2) [OF t _ True [unfolded rb_at_def]]) (simp_all add: out(1))
      have "enter_ct s + 1 = n_threads B" unfolding ct(1) rb_count [OF new(2)] by (rule True)
      then have s': "s' = rb_goto t EnterReset (s\<lparr>enter_ct := n_threads B, entered := (entered s)(t := Suc (entered s t))\<rparr>)"
        using w out(1) by (simp add: rb_wait_def Let_def)
      have "entered s u = Suc r \<and> finished s u = r" if "u < ?N" "u \<noteq> t" for u
        using all [OF that(1)] others [OF that] by (simp add: gather_ok_def)
      then have "all_in_round B r s'" using out(2,3) by (auto simp: all_in_round_def s')
      moreover have "rb_pcs s' t = EnterReset" "\<And>u. u < ?N \<Longrightarrow> u \<noteq> t \<Longrightarrow> rb_pcs s' u = EnterSpin" using others by (simp_all add: s')
      moreover have "enter_ct s' = n_threads B" "exit_ct s' = 0" "single B \<longrightarrow> mf_calls s' = r" using ct(3,4) by (simp_all add: s')
      ultimately have "complete B r s'" unfolding complete_def using t by blast
      then show ?thesis ..
    next
      case False
      have "enter_ct s + 1 \<noteq> n_threads B" unfolding ct(1) rb_count [OF new(2)] by (rule False)
      then have s': "s' = rb_goto t EnterSpin (s\<lparr>enter_ct := enter_ct s + 1, entered := (entered s)(t := Suc (entered s t))\<rparr>)"
        using w out(1) by (simp add: rb_wait_def Let_def)
      have "gather_ok r (rb_pcs s' u) (entered s' u) (finished s' u)" if "u < ?N" for u
        using all [OF that] out(2,3) by (simp add: s' gather_ok_def)
      moreover have "card (rb_at B EnterSpin s') = Suc ?c" using new(1) by (simp add: s' rb_at_def)
      moreover have "enter_ct s' = word_of_nat (Suc ?c)" "exit_ct s' = 0" "single B \<longrightarrow> mf_calls s' = r" "Suc ?c < ?N"
        using ct new(2) False by (simp_all add: s')
      ultimately have "gathering B r s'" unfolding gathering_def by simp
      then show ?thesis ..
    qed
  next
    case spin
    have "enter_ct s = 0" and s': "s' = rb_goto t (Middle False) s" using w spin by (simp_all add: rb_wait_def split: if_splits)
    moreover have "0 < ?c" using spin t by (subst card_gt_0_iff) (auto simp: rb_at_def)
    ultimately have False using ct(1) rb_count0 [OF less_imp_le [OF ct(2)]] by (simp only: less_irrefl)
    then show ?thesis ..
  next
    case ex
    have s': "s' = rb_return t s" using w ex(1) ct(3) by (simp add: rb_wait_def)
    have "rb_at B EnterSpin s' = rb_at B EnterSpin s" using ex(1) by (auto simp: s' rb_return_def rb_at_def)
    moreover have "gather_ok r (rb_pcs s' u) (entered s' u) (finished s' u)" if "u < ?N" for u
      using all [OF that] ex by (simp add: s' rb_return_def gather_ok_def)
    moreover have "enter_ct s' = enter_ct s" "exit_ct s' = 0" "mf_calls s' = mf_calls s" using ct(3) by (simp_all add: s' rb_return_def)
    ultimately have "gathering B r s'" unfolding gathering_def using ct by simp
    then show ?thesis ..
  qed
qed

lemma complete_step:
  assumes c: "complete B r s" and n: "n_threads B \<noteq> 0" and t: "t < unat (n_threads B)" and w: "rb_wait B t s = Some s'"
  shows "draining B r s'"
proof -
  let ?N = "unat (n_threads B)"
  obtain l where l: "l < ?N" "rb_pcs s l = EnterReset" "\<And>u. u < ?N \<Longrightarrow> u \<noteq> l \<Longrightarrow> rb_pcs s u = EnterSpin"
    and ct: "enter_ct s = n_threads B" "exit_ct s = 0" "single B \<longrightarrow> mf_calls s = r" "all_in_round B r s"
    using c unfolding complete_def by blast
  have "t = l"
  proof (rule ccontr)
    assume "t \<noteq> l"
    with l(3) [OF t] w ct(1) n show False by (simp add: rb_wait_def)
  qed
  then have s': "s' = rb_goto l (Middle True) (s\<lparr>enter_ct := 0\<rparr>)" using w l(2) by (simp add: rb_wait_def)
  have at: "rb_pcs s' u = (if u = l then Middle True else EnterSpin)" if "u < ?N" for u using l(3) [OF that] by (simp add: s')
  then have z: "rb_at B ExitSpin s' = {}" "rb_at B (Middle True) s' = {l}"
    using l(1) by (auto simp: rb_at_def split: if_splits)
  have "0 < ?N" using l(1) by linarith
  then show ?thesis
    unfolding draining_def z using ct at by (simp add: s' all_in_round_def)
qed

lemma last_only:
  "(b \<longrightarrow> (\<exists>l. A = {l}) \<and> k = r \<or> A = {} \<and> k = Suc r) \<Longrightarrow> t \<in> A \<Longrightarrow> b \<longrightarrow> A = {t} \<and> k = r"
  by (cases b; cases "A = {}") auto

lemma draining_step:
  assumes d: "draining B r s" and n: "n_threads B \<noteq> 0" and t: "t < unat (n_threads B)" and w: "rb_wait B t s = Some s'"
  shows "draining B r s' \<or> leaving B r s'"
proof -
  let ?N = "unat (n_threads B)" and ?c = "card (rb_at B ExitSpin s)"
  let ?mid = "\<lambda>s. single B \<longrightarrow> (\<exists>l. rb_at B (Middle True) s = {l}) \<and> mf_calls s = r \<or> rb_at B (Middle True) s = {} \<and> mf_calls s = Suc r"
  have all: "\<And>u. u < ?N \<Longrightarrow> rb_pcs s u \<in> {EnterSpin, Middle False, Middle True, AtExit, ExitSpin}"
    and ct: "enter_ct s = 0" "exit_ct s = word_of_nat ?c" "?c < ?N" and air: "all_in_round B r s" and mid: "?mid s"
    using d unfolding draining_def by blast+
  have keep: "draining B r s'"
    if "s' = rb_goto t p (s\<lparr>mf_calls := k\<rparr>)" "rb_pcs s t \<noteq> ExitSpin" "p \<in> {Middle False, AtExit}" "?mid s'" for p k
  proof -
    have "rb_at B ExitSpin s' = rb_at B ExitSpin s" using that(1-3) by (auto simp: rb_at_def)
    moreover have "rb_pcs s' u \<in> {EnterSpin, Middle False, Middle True, AtExit, ExitSpin}" if "u < ?N" for u
      using all [OF that] \<open>s' = _\<close> \<open>p \<in> _\<close> by auto
    moreover have "all_in_round B r s'" "enter_ct s' = 0" "exit_ct s' = exit_ct s" using air ct(1) that(1) by (simp_all add: all_in_round_def)
    ultimately show ?thesis unfolding draining_def using ct(2,3) \<open>?mid s'\<close> by simp
  qed
  from all [OF t] consider (spin) "rb_pcs s t = EnterSpin" | (mid) l where "rb_pcs s t = Middle l"
    | (exit) "rb_pcs s t = AtExit" | (xspin) "rb_pcs s t = ExitSpin" by auto
  then show ?thesis
  proof cases
    case spin
    have s': "s' = rb_goto t (Middle False) (s\<lparr>mf_calls := mf_calls s\<rparr>)" using w spin ct(1) by (simp add: rb_wait_def)
    have "rb_at B (Middle True) s' = rb_at B (Middle True) s" using spin by (auto simp: s' rb_at_def)
    with mid have "?mid s'" by (simp add: s')
    with keep [OF s'] spin show ?thesis by simp
  next
    case (mid l)
    let ?k = "if \<not> single B \<or> l then Suc (mf_calls s) else mf_calls s"
    have s': "s' = rb_goto t AtExit (s\<lparr>mf_calls := ?k\<rparr>)" using w mid by (auto simp: rb_wait_def)
    have "?mid s'"
    proof (cases l)
      case True
      then have "t \<in> rb_at B (Middle True) s" using mid t by (simp add: rb_at_def)
      then have one: "single B \<longrightarrow> rb_at B (Middle True) s = {t} \<and> mf_calls s = r" by (rule last_only [OF \<open>?mid s\<close>])
      have eq: "rb_at B (Middle True) s' = rb_at B (Middle True) s - {t}" by (auto simp: s' rb_at_def)
      have k: "mf_calls s' = Suc (mf_calls s)" using True by (simp add: s')
      show ?thesis
      proof
        assume "single B"
        with one have "rb_at B (Middle True) s' = {}" "mf_calls s' = Suc r" unfolding eq k by (simp_all only: Diff_cancel simp_thms)
        then show "(\<exists>l. rb_at B (Middle True) s' = {l}) \<and> mf_calls s' = r \<or> rb_at B (Middle True) s' = {} \<and> mf_calls s' = Suc r"
          by (simp only: simp_thms)
      qed
    next
      case False
      then have eq: "rb_at B (Middle True) s' = rb_at B (Middle True) s" using mid by (auto simp: s' rb_at_def)
      have k: "single B \<longrightarrow> mf_calls s' = mf_calls s" using False by (simp add: s')
      show ?thesis
      proof
        assume sb: "single B"
        with k have "mf_calls s' = mf_calls s" by blast
        then show "(\<exists>l. rb_at B (Middle True) s' = {l}) \<and> mf_calls s' = r \<or> rb_at B (Middle True) s' = {} \<and> mf_calls s' = Suc r"
          using \<open>?mid s\<close> sb unfolding eq by (simp only: simp_thms)
      qed
    qed
    with keep [OF s'] mid show ?thesis by simp
  next
    case exit
    have new: "card {u. u < ?N \<and> ((rb_pcs s)(t := ExitSpin)) u = ExitSpin} = Suc ?c" "Suc ?c \<le> ?N"
      unfolding rb_at_def by (rule rb_at_new(1,3) [OF t], simp add: exit)+
    have same: "rb_at B (Middle True) (rb_goto t p x) = rb_at B (Middle True) s" if "p \<noteq> Middle True" "rb_pcs x = rb_pcs s" for p x
      using exit that by (auto simp: rb_at_def)
    show ?thesis
    proof (cases "Suc ?c = ?N")
      case True
      have others: "\<And>u. u < ?N \<Longrightarrow> u \<noteq> t \<Longrightarrow> rb_pcs s u = ExitSpin"
        by (rule rb_at_new(2) [OF t _ True [unfolded rb_at_def]]) (simp_all add: exit)
      have "exit_ct s + 1 = n_threads B" unfolding ct(2) rb_count [OF new(2)] by (rule True)
      then have s': "s' = rb_goto t ExitReset (s\<lparr>exit_ct := n_threads B\<rparr>)" using w exit by (simp add: rb_wait_def Let_def)
      have "rb_pcs s u \<noteq> Middle True" if "u < ?N" for u using others [OF that] exit by (cases "u = t") simp_all
      then have "rb_at B (Middle True) s = {}" by (simp add: rb_at_def)
      then have "single B \<longrightarrow> mf_calls s' = Suc r" using mid by (simp add: s')
      moreover have "rb_pcs s' t = ExitReset" "\<And>u. u < ?N \<Longrightarrow> u \<noteq> t \<Longrightarrow> rb_pcs s' u = ExitSpin" using others by (simp_all add: s')
      moreover have "enter_ct s' = 0" "exit_ct s' = n_threads B" "all_in_round B r s'" using ct(1) air by (simp_all add: s' all_in_round_def)
      ultimately have "leaving B r s'" unfolding leaving_def using t by blast
      then show ?thesis ..
    next
      case False
      have "exit_ct s + 1 \<noteq> n_threads B" unfolding ct(2) rb_count [OF new(2)] by (rule False)
      then have s': "s' = rb_goto t ExitSpin (s\<lparr>exit_ct := exit_ct s + 1\<rparr>)" using w exit by (simp add: rb_wait_def Let_def)
      have "rb_pcs s' u \<in> {EnterSpin, Middle False, Middle True, AtExit, ExitSpin}" if "u < ?N" for u using all [OF that] by (auto simp: s')
      moreover have "card (rb_at B ExitSpin s') = Suc ?c" using new(1) by (simp add: s' rb_at_def)
      moreover have "enter_ct s' = 0" "exit_ct s' = word_of_nat (Suc ?c)" "Suc ?c < ?N" "all_in_round B r s'"
        using ct new(2) False air by (simp_all add: s' all_in_round_def)
      moreover have "?mid s'" using mid same [of ExitSpin "s\<lparr>exit_ct := exit_ct s + 1\<rparr>"] by (simp add: s')
      ultimately have "draining B r s'" unfolding draining_def by simp
      then show ?thesis ..
    qed
  next
    case xspin
    then have "0 < ?c" using t by (subst card_gt_0_iff) (auto simp: rb_at_def)
    moreover have "exit_ct s = 0" using w xspin by (simp add: rb_wait_def split: if_splits)
    ultimately have False using ct(2) rb_count0 [OF less_imp_le [OF ct(3)]] by (simp only: less_irrefl)
    then show ?thesis ..
  qed
qed

lemma leaving_step:
  assumes c: "leaving B r s" and n: "n_threads B \<noteq> 0" and t: "t < unat (n_threads B)" and w: "rb_wait B t s = Some s'"
  shows "gathering B (Suc r) s'"
proof -
  let ?N = "unat (n_threads B)"
  obtain l where l: "l < ?N" "rb_pcs s l = ExitReset" "\<And>u. u < ?N \<Longrightarrow> u \<noteq> l \<Longrightarrow> rb_pcs s u = ExitSpin"
    and ct: "enter_ct s = 0" "exit_ct s = n_threads B" "single B \<longrightarrow> mf_calls s = Suc r" "all_in_round B r s"
    using c unfolding leaving_def by blast
  have "t = l"
  proof (rule ccontr)
    assume "t \<noteq> l"
    with l(3) [OF t] w ct(2) n show False by (simp add: rb_wait_def)
  qed
  then have s': "s' = rb_return l (s\<lparr>exit_ct := 0\<rparr>)" using w l(2) by (simp add: rb_wait_def)
  have "gather_ok (Suc r) (rb_pcs s' u) (entered s' u) (finished s' u)" if "u < ?N" for u
    using l(3) [OF that] ct(4) that by (simp add: s' rb_return_def gather_ok_def all_in_round_def)
  moreover have z: "rb_at B EnterSpin s' = {}" using l by (auto simp: s' rb_return_def rb_at_def)
  moreover have "0 < ?N" using l(1) by linarith
  ultimately show ?thesis unfolding gathering_def z using ct by (simp add: s' rb_return_def)
qed

interpretation rb: inv_system "\<lambda>s. s = rb_mk \<and> n_threads B \<noteq> 0" "rb_step B" "rb_inv B" for B
proof
  show "rb_inv B s" if "s = rb_mk \<and> n_threads B \<noteq> 0" for s
  proof -
    have "0 < unat (n_threads B)" using that by (simp add: unat_gt_0)
    then have "gathering B 0 rb_mk" by (simp add: gathering_def gather_ok_def rb_mk_def rb_at_def)
    then show ?thesis using that unfolding rb_inv_def by blast
  qed
  show "rb_inv B s'" if inv: "rb_inv B s" and step: "rb_step B s s'" for s s'
  proof -
    obtain t where t: "t < unat (n_threads B)" "rb_wait B t s = Some s'" using step by (auto simp: rb_step_def)
    have n: "n_threads B \<noteq> 0" using inv by (simp add: rb_inv_def)
    note steps = gathering_step [OF _ n t] complete_step [OF _ n t] draining_step [OF _ n t] leaving_step [OF _ n t]
    from inv steps show ?thesis unfolding rb_inv_def by blast
  qed
qed

text \<open>What the invariant says of the counters.\<close>

lemma rb_inv_counts:
  assumes "rb_inv B s" "t < unat (n_threads B)" "u < unat (n_threads B)"
  shows "finished s t \<le> entered s u" "single B \<Longrightarrow> finished s t \<le> mf_calls s \<and> mf_calls s \<le> entered s u"
proof -
  from assms(1) obtain r where "gathering B r s \<or> complete B r s \<or> draining B r s \<or> leaving B r s" unfolding rb_inv_def by blast
  then have "finished s t \<le> r \<and> r \<le> entered s u \<and> (single B \<longrightarrow> r \<le> mf_calls s \<and> mf_calls s \<le> entered s u)"
  proof (elim disjE)
    assume "gathering B r s"
    then have "gather_ok r (rb_pcs s t) (entered s t) (finished s t)" "gather_ok r (rb_pcs s u) (entered s u) (finished s u)"
      "single B \<longrightarrow> mf_calls s = r" using assms(2,3) unfolding gathering_def by blast+
    then show ?thesis by (auto simp: gather_ok_def)
  next
    assume "complete B r s"
    then have "all_in_round B r s" "single B \<longrightarrow> mf_calls s = r" unfolding complete_def by blast+
    then show ?thesis using assms(2,3) by (auto simp: all_in_round_def)
  next
    assume "draining B r s"
    then have "all_in_round B r s" "single B \<longrightarrow> mf_calls s = r \<or> mf_calls s = Suc r" unfolding draining_def by blast+
    then show ?thesis using assms(2,3) by (auto simp: all_in_round_def)
  next
    assume "leaving B r s"
    then have "all_in_round B r s" "single B \<longrightarrow> mf_calls s = Suc r" unfolding leaving_def by blast+
    then show ?thesis using assms(2,3) by (auto simp: all_in_round_def)
  qed
  then show "finished s t \<le> entered s u" "single B \<Longrightarrow> finished s t \<le> mf_calls s \<and> mf_calls s \<le> entered s u" by auto
qed

text \<open>
  C13. The reusable barrier holds back. In every interleaving of any number of rounds, no thread has
  returned from \<open>wait\<close> more often than every other thread has called it; and with
  \<open>single\<close> the middle function has been called for a round only after all threads have
  entered it and before any thread has left it, once per round.
\<close>

theorem barrier_safe:
  assumes "(rb_step B)\<^sup>*\<^sup>* rb_mk s" "n_threads B \<noteq> 0" "t < unat (n_threads B)" "u < unat (n_threads B)"
  shows "finished s t \<le> entered s u \<and> (single B \<longrightarrow> finished s t \<le> mf_calls s \<and> mf_calls s \<le> entered s u)"
  using rb_inv_counts [OF rb.reach_inv [OF conjI [OF refl assms(2)] assms(1)] assms(3,4)] by blast

definition rb_demo :: rb_conf where
  "rb_demo = \<lparr>n_threads = 2, single = True\<rparr>"

text \<open>The state after the steps of the given threads, spinning threads left where they are.\<close>

primrec rb_exec :: "rb_conf \<Rightarrow> nat list \<Rightarrow> rb_state \<Rightarrow> rb_state" where
  "rb_exec B [] s = s"
| "rb_exec B (t # ts) s = rb_exec B ts (case rb_wait B t s of None \<Rightarrow> s | Some s' \<Rightarrow> s')"

lemma rb_exec_reach:
  "\<forall>t \<in> set ts. t < unat (n_threads B) \<Longrightarrow> (rb_step B)\<^sup>*\<^sup>* s (rb_exec B ts s)"
proof (induction ts arbitrary: s)
  case (Cons t ts)
  show ?case
  proof (cases "rb_wait B t s")
    case None
    with Cons show ?thesis by simp
  next
    case (Some s')
    then have "rb_step B s s'" using Cons.prems by (auto simp: rb_step_def)
    moreover have "(rb_step B)\<^sup>*\<^sup>* s' (rb_exec B ts s')" by (rule Cons.IH) (use Cons.prems in simp)
    ultimately show ?thesis using Some by (simp add: converse_rtranclp_into_rtranclp)
  qed
qed simp

theorem barrier_safe_witness:
  "\<exists>s. (rb_step rb_demo)\<^sup>*\<^sup>* rb_mk s \<and> finished s 1 = 1 \<and> mf_calls s = 1 \<and> entered s 0 = 1 \<and> finished s 1 \<le> entered s 0"
proof -
  let ?s = "rb_exec rb_demo [0, 1, 1, 0, 1, 0, 1, 0, 0, 1] rb_mk"
  have r: "(rb_step rb_demo)\<^sup>*\<^sup>* rb_mk ?s" by (rule rb_exec_reach) (simp add: rb_demo_def)
  have "finished ?s 1 = 1" "mf_calls ?s = 1" "entered ?s 0 = 1" by code_simp+
  moreover have "finished ?s 1 \<le> entered ?s 0" using barrier_safe [OF r, of 1 0] by (simp add: rb_demo_def)
  ultimately show ?thesis using r by blast
qed

text \<open>Threads that call \<open>wait\<close> at most \<open>k\<close> times each, and how far a thread has come.\<close>

definition rb_run :: "rb_conf \<Rightarrow> nat \<Rightarrow> rb_state \<Rightarrow> rb_state \<Rightarrow> bool" where
  "rb_run B k s s' \<longleftrightarrow> (\<exists>t < unat (n_threads B). rb_wait B t s = Some s' \<and> (rb_pcs s t = Outside \<longrightarrow> entered s t < k))"

definition rb_progress :: "rb_state \<Rightarrow> nat \<Rightarrow> nat" where
  "rb_progress s t = 5 * finished s t +
     (case rb_pcs s t of Outside \<Rightarrow> 0 | EnterReset \<Rightarrow> 1 | EnterSpin \<Rightarrow> 1 | Middle l \<Rightarrow> 2 | AtExit \<Rightarrow> 3 | ExitReset \<Rightarrow> 4 | ExitSpin \<Rightarrow> 4)"

definition rb_calls :: "nat \<Rightarrow> rb_state \<Rightarrow> bool" where
  "rb_calls k s \<longleftrightarrow> (\<forall>t. entered s t = finished s t + (if rb_pcs s t = Outside then 0 else 1) \<and> entered s t \<le> k)"

lemma rb_wait_progress:
  assumes "rb_wait B t s = Some s'"
  shows "rb_progress s' u = rb_progress s u + (if u = t then 1 else 0)"
  by (cases "rb_pcs s t"; use assms in \<open>auto simp: rb_wait_def rb_return_def rb_progress_def Let_def split: if_splits\<close>)

lemma rb_wait_calls:
  assumes "rb_wait B t s = Some s'" "rb_calls k s" "rb_pcs s t = Outside \<longrightarrow> entered s t < k"
  shows "rb_calls k s'"
  unfolding rb_calls_def
proof
  fix u
  have "entered s u = finished s u + (if rb_pcs s u = Outside then 0 else 1) \<and> entered s u \<le> k" using assms(2) unfolding rb_calls_def by blast
  then show "entered s' u = finished s' u + (if rb_pcs s' u = Outside then 0 else 1) \<and> entered s' u \<le> k"
    by (cases "rb_pcs s t"; use assms(1,3) in \<open>auto simp: rb_wait_def rb_return_def Let_def split: if_splits\<close>)
qed

lemma rb_progress_bound: "rb_calls k s \<Longrightarrow> rb_progress s t \<le> 5 * k"
proof -
  assume "rb_calls k s"
  then have "entered s t = finished s t + (if rb_pcs s t = Outside then 0 else 1) \<and> entered s t \<le> k" unfolding rb_calls_def by blast
  then show "rb_progress s t \<le> 5 * k" by (cases "rb_pcs s t") (simp_all add: rb_progress_def)
qed

lemma rb_enabled:
  assumes inv: "rb_inv B s" and c: "rb_calls k s" and t: "t < unat (n_threads B)" "finished s t < k"
  shows "\<exists>s'. rb_run B k s s'"
proof -
  let ?N = "unat (n_threads B)"
  have can: ?thesis if "u < ?N" "rb_wait B u s \<noteq> None" "rb_pcs s u = Outside \<longrightarrow> entered s u < k" for u
    using that unfolding rb_run_def by auto
  from inv obtain r where "gathering B r s \<or> complete B r s \<or> draining B r s \<or> leaving B r s" unfolding rb_inv_def by blast
  then show ?thesis
  proof (elim disjE)
    assume g: "gathering B r s"
    have all: "\<And>u. u < ?N \<Longrightarrow> gather_ok r (rb_pcs s u) (entered s u) (finished s u)" and x: "exit_ct s = 0"
      and lt: "card (rb_at B EnterSpin s) < ?N" using g unfolding gathering_def by blast+
    have "rb_at B EnterSpin s \<noteq> {..<?N}" using lt by (metis card_lessThan less_irrefl)
    then obtain u where u: "u < ?N" "rb_pcs s u \<noteq> EnterSpin" by (auto simp: rb_at_def)
    from all [OF u(1)] u(2) have "rb_pcs s u = ExitSpin \<or> rb_pcs s u = Outside \<and> entered s u = r" by (auto simp: gather_ok_def)
    moreover have "r < k \<or> rb_pcs s t = ExitSpin" using all [OF t(1)] t(2) by (auto simp: gather_ok_def)
    ultimately consider "rb_pcs s u = ExitSpin" | "rb_pcs s t = ExitSpin" | "rb_pcs s u = Outside \<and> entered s u = r" "r < k" by blast
    then show ?thesis
    proof cases
      assume "rb_pcs s u = ExitSpin"
      then show ?thesis using can [OF u(1)] x by (simp add: rb_wait_def)
    next
      assume "rb_pcs s t = ExitSpin"
      then show ?thesis using can [OF t(1)] x by (simp add: rb_wait_def)
    next
      assume "rb_pcs s u = Outside \<and> entered s u = r" "r < k"
      then show ?thesis using can [OF u(1)] by (simp add: rb_wait_def Let_def)
    qed
  next
    assume "complete B r s"
    then obtain l where "l < ?N" "rb_pcs s l = EnterReset" unfolding complete_def by blast
    then show ?thesis using can [of l] by (simp add: rb_wait_def)
  next
    assume d: "draining B r s"
    then have "rb_at B ExitSpin s \<noteq> {..<?N}" unfolding draining_def by (metis card_lessThan less_irrefl)
    then obtain u where u: "u < ?N" "rb_pcs s u \<noteq> ExitSpin" by (auto simp: rb_at_def)
    with d have "rb_pcs s u \<in> {EnterSpin, Middle False, Middle True, AtExit}" "enter_ct s = 0" unfolding draining_def by blast+
    then show ?thesis using can [OF u(1)] by (auto simp: rb_wait_def Let_def)
  next
    assume "leaving B r s"
    then obtain l where "l < ?N" "rb_pcs s l = ExitReset" unfolding leaving_def by blast
    then show ?thesis using can [of l] by (simp add: rb_wait_def)
  qed
qed

text \<open>
  C15. The reusable barrier lets go. When all threads call \<open>wait\<close> \<open>k\<close> times each, every run of
  the threads, in any interleaving, ends after at most \<open>5 k\<close> steps of each, and it can only
  end with all threads having returned from all their calls: there is no deadlock, and no signal
  of one round is lost in the next.
\<close>

theorem barrier_live:
  assumes "(rb_run B k ^^ m) rb_mk s" "n_threads B \<noteq> 0"
  shows "m \<le> 5 * k * unat (n_threads B) \<and>
    ((\<forall>s'. \<not> rb_run B k s s') \<longrightarrow> (\<forall>t < unat (n_threads B). entered s t = k \<and> finished s t = k \<and> rb_pcs s t = Outside))"
proof -
  let ?N = "unat (n_threads B)"
  have "rb_inv B s \<and> rb_calls k s \<and> (\<Sum>t < ?N. rb_progress s t) = m"
    using assms(1)
  proof (induction m arbitrary: s)
    case 0
    then have "s = rb_mk" by simp
    moreover have "rb_inv B rb_mk" by (rule rb.init_inv) (use assms(2) in simp)
    ultimately show ?case by (simp add: rb_calls_def rb_progress_def rb_mk_def)
  next
    case (Suc m)
    then obtain p where p: "(rb_run B k ^^ m) rb_mk p" "rb_run B k p s" by auto
    note IH = Suc.IH [OF p(1)]
    from p(2) obtain t where t: "t < ?N" "rb_wait B t p = Some s" "rb_pcs p t = Outside \<longrightarrow> entered p t < k" unfolding rb_run_def by blast
    have "rb_inv B s" by (rule rb.step_inv [of B p]) (use IH t(1,2) in \<open>auto simp: rb_step_def\<close>)
    moreover have "(\<Sum>u < ?N. rb_progress s u) = (\<Sum>u < ?N. rb_progress p u + (if u = t then 1 else 0))"
      using rb_wait_progress [OF t(2)] by simp
    then have "(\<Sum>u < ?N. rb_progress s u) = Suc (\<Sum>u < ?N. rb_progress p u)" using t(1) by (simp add: sum.distrib sum.delta)
    ultimately show ?case using IH rb_wait_calls [OF t(2) _ t(3)] by simp
  qed
  then have s: "rb_inv B s" "rb_calls k s" "(\<Sum>t < ?N. rb_progress s t) = m" by auto
  have "(\<Sum>t < ?N. rb_progress s t) \<le> (\<Sum>t < ?N. 5 * k)" by (rule sum_mono) (rule rb_progress_bound [OF s(2)])
  then have "m \<le> 5 * k * ?N" using s(3) by (simp add: mult.commute)
  moreover have "entered s t = k \<and> finished s t = k \<and> rb_pcs s t = Outside" if "\<forall>s'. \<not> rb_run B k s s'" "t < ?N" for t
  proof -
    have "k \<le> finished s t" using rb_enabled [OF s(1,2) that(2)] that(1) by (metis not_le)
    then show ?thesis using s(2) unfolding rb_calls_def by (drule_tac spec [of _ t]) (auto split: if_splits)
  qed
  ultimately show ?thesis by blast
qed

text \<open>The run of two threads through one round.\<close>

lemma rb_exec_run:
  assumes "rb_wait B t s = Some s'" "t < unat (n_threads B)" "rb_pcs s t = Outside \<longrightarrow> entered s t < k" "(rb_run B k ^^ m) s' s''"
  shows "(rb_run B k ^^ Suc m) s s''"
  by (rule relpowp_Suc_I2 [OF _ assms(4)]) (use assms(1-3) in \<open>auto simp: rb_run_def\<close>)

theorem barrier_live_witness:
  "(rb_run rb_demo 1 ^^ 2) rb_mk (rb_exec rb_demo [0, 1] rb_mk) \<and> (\<exists>s'. rb_run rb_demo 1 (rb_exec rb_demo [0, 1] rb_mk) s')"
proof -
  let ?a = "rb_exec rb_demo [0] rb_mk" and ?b = "rb_exec rb_demo [0, 1] rb_mk"
  have w: "rb_wait rb_demo 0 rb_mk = Some ?a" "rb_wait rb_demo 1 ?a = Some ?b"
    by (simp_all add: rb_wait_def rb_mk_def rb_demo_def rb_goto_def)
  have "(rb_run rb_demo 1 ^^ Suc (Suc 0)) rb_mk ?b"
    by (rule rb_exec_run [OF w(1)], simp add: rb_demo_def, simp add: rb_mk_def, rule rb_exec_run [OF w(2)])
      (simp_all add: rb_wait_def rb_mk_def rb_demo_def rb_goto_def)
  then have r: "(rb_run rb_demo 1 ^^ 2) rb_mk ?b" by (simp only: numeral_2_eq_2)
  have "rb_pcs ?b 0 \<noteq> Outside" by code_simp
  with barrier_live [OF r] have "\<exists>s'. rb_run rb_demo 1 ?b s'" by (auto simp: rb_demo_def)
  with r show ?thesis by blast
qed

section \<open>The barrier between nodes\<close>

text \<open>
  \<open>my_wait\<close> and \<open>critical_wait\<close> of node \<open>n\<close>: the loop that sends (at its \<open>i\<close>th turn), the spin on
  \<open>received\<close>, and the decrement. \<open>wire\<close> counts the barrier messages in flight by sender and
  receiver, \<open>started\<close> and \<open>passed\<close> the calls and returns of each node.
\<close>

datatype nb_pc = NodeOut | Sending nat | Waiting | Passing

record nb_state =
  nb_received :: "nat \<Rightarrow> u32"
  nb_pcs :: "nat \<Rightarrow> nb_pc"
  wire :: "nat \<Rightarrow> nat \<Rightarrow> nat"
  started :: "nat \<Rightarrow> nat"
  passed :: "nat \<Rightarrow> nat"

definition nb_mk :: nb_state where
  "nb_mk = \<lparr>nb_received = (\<lambda>_. 0), nb_pcs = (\<lambda>_. NodeOut), wire = (\<lambda>_ _. 0), started = (\<lambda>_. 0), passed = (\<lambda>_. 0)\<rparr>"

definition nb_goto :: "nat \<Rightarrow> nb_pc \<Rightarrow> nb_state \<Rightarrow> nb_state" where
  "nb_goto n p s = s\<lparr>nb_pcs := (nb_pcs s)(n := p)\<rparr>"

definition nb_send :: "nat \<Rightarrow> nat \<Rightarrow> nb_state \<Rightarrow> nb_state" where
  "nb_send n i s = s\<lparr>wire := (wire s)(n := (wire s n)(i := Suc (wire s n i)))\<rparr>"

text \<open>The next step of a node in \<open>critical_wait\<close>, \<open>None\<close> while it spins; and the handler's step.\<close>

definition nb_wait :: "nat \<Rightarrow> nat \<Rightarrow> nb_state \<Rightarrow> nb_state option" where
  "nb_wait N n s =
     (case nb_pcs s n of
        NodeOut \<Rightarrow> Some (nb_goto n (Sending 0) (s\<lparr>started := (started s)(n := Suc (started s n))\<rparr>))
      | Sending i \<Rightarrow>
          if i < N then Some (nb_goto n (Sending (Suc i)) (if i \<noteq> n then nb_send n i s else s))
          else Some (nb_goto n Waiting s)
      | Waiting \<Rightarrow> if nb_received s n \<noteq> word_of_nat N - 1 then None else Some (nb_goto n Passing s)
      | Passing \<Rightarrow>
          Some (nb_goto n NodeOut (s\<lparr>nb_received := (nb_received s)(n := nb_received s n - 1),
            passed := (passed s)(n := Suc (passed s n))\<rparr>)))"

definition nb_deliver :: "nat \<Rightarrow> nat \<Rightarrow> nb_state \<Rightarrow> nb_state" where
  "nb_deliver m n s = s\<lparr>wire := (wire s)(m := (wire s m)(n := wire s m n - 1)), nb_received := (nb_received s)(n := nb_received s n + 1)\<rparr>"

inductive nb_step :: "nat \<Rightarrow> nb_state \<Rightarrow> nb_state \<Rightarrow> bool" for N where
  wait: "n < N \<Longrightarrow> nb_wait N n s = Some s' \<Longrightarrow> nb_step N s s'"
| arrive: "m < N \<Longrightarrow> n < N \<Longrightarrow> 0 < wire s m n \<Longrightarrow> nb_step N s (nb_deliver m n s)"

text \<open>Messages node \<open>m\<close> has sent to node \<open>n\<close>, and the account of them for two nodes.\<close>

primrec sent_at :: "nb_pc \<Rightarrow> nat \<Rightarrow> nat \<Rightarrow> nat" where
  "sent_at NodeOut k n = k"
| "sent_at (Sending i) k n = (if i \<le> n then k - 1 else k)"
| "sent_at Waiting k n = k"
| "sent_at Passing k n = k"

definition sent :: "nb_state \<Rightarrow> nat \<Rightarrow> nat \<Rightarrow> nat" where
  "sent s m n = sent_at (nb_pcs s m) (started s m) n"

definition nb_ok :: "nb_state \<Rightarrow> nat \<Rightarrow> nat \<Rightarrow> bool" where
  "nb_ok s m n \<longleftrightarrow> unat (nb_received s n) + wire s m n + passed s n = sent s m n \<and>
     (nb_pcs s n = Passing \<longrightarrow> 0 < unat (nb_received s n)) \<and>
     started s n = passed s n + (if nb_pcs s n = NodeOut then 0 else 1) \<and> wire s n n = 0"

definition nb_inv :: "nb_state \<Rightarrow> bool" where
  "nb_inv s \<longleftrightarrow> nb_ok s 0 1 \<and> nb_ok s 1 0"

lemma sent_le: "sent s m n \<le> started s m"
  by (cases "nb_pcs s m") (simp_all add: sent_def)

lemma nb_inv_bound:
  assumes "nb_inv s" "{m, n} = {0, 1}"
  shows "passed s n \<le> started s m" "unat (nb_received s n) \<le> 2"
proof -
  from assms have k: "nb_ok s m n" "nb_ok s n m" by (auto simp: nb_inv_def doubleton_eq_iff)
  show "passed s n \<le> started s m" using k(1) sent_le [of s m n] by (simp add: nb_ok_def)
  have "started s m \<le> Suc (passed s m)" "started s n \<le> Suc (passed s n)" using k by (simp_all add: nb_ok_def split: if_splits)
  then show "unat (nb_received s n) \<le> 2" using k sent_le [of s m n] sent_le [of s n m] by (simp add: nb_ok_def)
qed

lemma nb_wait_ok:
  assumes "nb_wait 2 n s = Some s'" and k: "nb_ok s m n" "nb_ok s n m" and mn: "m < 2" "n < 2" "m \<noteq> n"
  shows "nb_ok s' m n \<and> nb_ok s' n m"
proof (cases "nb_pcs s n")
  case NodeOut
  then have s': "s' = nb_goto n (Sending 0) (s\<lparr>started := (started s)(n := Suc (started s n))\<rparr>)" using assms(1) by (simp add: nb_wait_def)
  show ?thesis using k mn(3) NodeOut by (simp add: s' nb_ok_def nb_goto_def sent_def)
next
  case (Sending i)
  have pos: "0 < started s n" using k(1) Sending by (simp add: nb_ok_def)
  show ?thesis
  proof (cases "i < 2")
    case True
    then have s': "s' = nb_goto n (Sending (Suc i)) (if i \<noteq> n then nb_send n i s else s)" using assms(1) Sending by (simp add: nb_wait_def)
    have "i = m \<or> i = n" using True mn by linarith
    then show ?thesis
    proof
      assume "i = m"
      then show ?thesis using k mn(3) Sending pos by (simp add: s' nb_ok_def nb_goto_def nb_send_def sent_def)
    next
      assume "i = n"
      moreover have "Suc n \<le> m \<longleftrightarrow> n \<le> m" using mn(3) by linarith
      ultimately show ?thesis using k mn(3) Sending by (simp add: s' nb_ok_def nb_goto_def sent_def)
    qed
  next
    case False
    then have s': "s' = nb_goto n Waiting s" using assms(1) Sending by (simp add: nb_wait_def)
    show ?thesis using k mn False Sending by (simp add: s' nb_ok_def nb_goto_def sent_def)
  qed
next
  case Waiting
  then have r: "nb_received s n = 1" and s': "s' = nb_goto n Passing s" using assms(1) by (simp_all add: nb_wait_def split: if_splits)
  show ?thesis using k mn(3) Waiting r by (simp add: s' nb_ok_def nb_goto_def sent_def)
next
  case Passing
  then have s': "s' = nb_goto n NodeOut (s\<lparr>nb_received := (nb_received s)(n := nb_received s n - 1), passed := (passed s)(n := Suc (passed s n))\<rparr>)"
    using assms(1) by (simp add: nb_wait_def)
  have p: "0 < unat (nb_received s n)" using k(1) Passing by (simp add: nb_ok_def)
  then have "unat (nb_received s n - 1) = unat (nb_received s n) - 1" by (subst unat_sub) (simp_all add: word_le_nat_alt)
  then show ?thesis using k mn(3) Passing p by (simp add: s' nb_ok_def nb_goto_def sent_def)
qed

lemma nb_deliver_ok:
  assumes k: "nb_ok s m n" "nb_ok s n m" and mn: "m \<noteq> n" and w: "0 < wire s m n" and b: "unat (nb_received s n) \<le> 2"
  shows "nb_ok (nb_deliver m n s) m n \<and> nb_ok (nb_deliver m n s) n m"
proof -
  have "unat (nb_received s n + 1) = Suc (unat (nb_received s n))" using b by (simp add: unat_word_ariths)
  then show ?thesis using k mn w by (simp add: nb_ok_def nb_deliver_def sent_def)
qed

interpretation nb: inv_system "\<lambda>s. s = nb_mk" "nb_step 2" nb_inv
proof
  show "nb_inv s" if "s = nb_mk" for s using that by (simp add: nb_inv_def nb_ok_def nb_mk_def sent_def)
  show "nb_inv s'" if inv: "nb_inv s" and step: "nb_step 2 s s'" for s s'
    using step
  proof cases
    case (wait n)
    then consider "n = 0" | "n = 1" by linarith
    then show ?thesis
      using nb_wait_ok [OF wait(2), of "1 - n"] inv by cases (simp_all add: nb_inv_def)
  next
    case (arrive m n)
    have "m \<noteq> n" using inv arrive by (auto simp: nb_inv_def nb_ok_def less_2_cases_iff)
    then consider "m = 0 \<and> n = 1" | "m = 1 \<and> n = 0" using arrive(2,3) by linarith
    then show ?thesis
    proof cases
      case 1
      then show ?thesis using nb_deliver_ok [of s 0 1] nb_inv_bound(2) [OF inv, of 0 1] inv arrive(1,4) by (simp add: nb_inv_def)
    next
      case 2
      then show ?thesis using nb_deliver_ok [of s 1 0] nb_inv_bound(2) [OF inv, of 1 0] inv arrive(1,4) by (simp add: nb_inv_def insert_commute)
    qed
  qed
qed

text \<open>
  C21. The barrier of two nodes holds back. However the messages are delayed, a node has passed the
  barrier no more often than the other has come to it; and the counter \<open>received\<close> stays
  between 0 and 2, so its unsigned arithmetic never wraps.
\<close>

theorem node_barrier_safe:
  assumes "(nb_step 2)\<^sup>*\<^sup>* nb_mk s" "{m, n} = {0, 1}"
  shows "passed s n \<le> started s m \<and> unat (nb_received s n) \<le> 2"
  using nb_inv_bound [OF nb.reach_inv [OF refl assms(1)] assms(2)] by simp

text \<open>Steps by name, and the state after a sequence of them.\<close>

datatype nb_move = Run nat | Arrive nat nat

primrec nb_apply :: "nat \<Rightarrow> nb_move \<Rightarrow> nb_state \<Rightarrow> nb_state option" where
  "nb_apply N (Run n) s = (if n < N then nb_wait N n s else None)"
| "nb_apply N (Arrive m n) s = (if m < N \<and> n < N \<and> 0 < wire s m n then Some (nb_deliver m n s) else None)"

primrec nb_exec :: "nat \<Rightarrow> nb_move list \<Rightarrow> nb_state \<Rightarrow> nb_state option" where
  "nb_exec N [] s = Some s"
| "nb_exec N (x # xs) s = (case nb_apply N x s of None \<Rightarrow> None | Some s' \<Rightarrow> nb_exec N xs s')"

lemma nb_exec_reach: "nb_exec N xs s = Some s' \<Longrightarrow> (nb_step N)\<^sup>*\<^sup>* s s'"
proof (induction xs arbitrary: s)
  case (Cons x xs)
  then obtain s1 where s1: "nb_apply N x s = Some s1" "nb_exec N xs s1 = Some s'" by (auto split: option.splits)
  have "nb_step N s s1" using s1(1) by (cases x) (auto intro: nb_step.intros split: if_splits)
  with Cons.IH [OF s1(2)] show ?case by (simp add: converse_rtranclp_into_rtranclp)
qed simp

text \<open>Node 1 runs ahead: both its messages arrive before node 0 looks at its counter.\<close>

definition nb_ahead :: "nb_move list" where
  "nb_ahead = replicate 4 (Run 0) @ replicate 4 (Run 1) @ [Arrive 0 1, Run 1, Run 1] @ replicate 4 (Run 1) @ [Arrive 1 0, Arrive 1 0]"

theorem node_barrier_safe_witness:
  "\<exists>s. (nb_step 2)\<^sup>*\<^sup>* nb_mk s \<and> passed s 1 = 1 \<and> passed s 1 \<le> started s 0"
proof -
  have "map_option (\<lambda>s. passed s 1) (nb_exec 2 nb_ahead nb_mk) = Some 1" by code_simp
  then obtain s where s: "nb_exec 2 nb_ahead nb_mk = Some s" "passed s 1 = 1" by (auto simp: map_option_eq_Some)
  from node_barrier_safe [OF nb_exec_reach [OF s(1)], of 0 1] nb_exec_reach [OF s(1)] s(2) show ?thesis by blast
qed

text \<open>
  C26. The barrier of two nodes can lock up. There is a run in which node 1 passes the barrier, comes
  to the next one and its second message arrives before node 0 has seen its counter at 1.
  Node 0 then waits for the counter, which is 2, to be 1, node 1 waits for a message of node
  0, no message is in flight, and neither node has a step.
\<close>

theorem node_barrier_deadlock:
  "\<exists>s. (nb_step 2)\<^sup>*\<^sup>* nb_mk s \<and> nb_pcs s 0 = Waiting \<and> nb_pcs s 1 = Waiting \<and> passed s 0 = 0 \<and> passed s 1 = 1 \<and>
     nb_received s 0 = 2 \<and> (\<forall>s'. \<not> nb_step 2 s s')"
proof -
  have "map_option (\<lambda>s. (nb_pcs s 0, nb_pcs s 1, passed s 0, passed s 1, nb_received s 0, nb_received s 1)) (nb_exec 2 nb_ahead nb_mk) =
      Some (Waiting, Waiting, 0, 1, 2, 0)"
    and "map_option (\<lambda>s. (wire s 0 0, wire s 0 1, wire s 1 0, wire s 1 1)) (nb_exec 2 nb_ahead nb_mk) = Some (0, 0, 0, 0)"
    by code_simp+
  then obtain s where s: "nb_exec 2 nb_ahead nb_mk = Some s" "nb_pcs s 0 = Waiting" "nb_pcs s 1 = Waiting" "passed s 0 = 0" "passed s 1 = 1"
    "nb_received s 0 = 2" "nb_received s 1 = 0" "wire s 0 0 = 0" "wire s 0 1 = 0" "wire s 1 0 = 0" "wire s 1 1 = 0"
    by (auto simp: map_option_eq_Some)
  have "\<not> nb_step 2 s s'" for s'
  proof
    assume "nb_step 2 s s'"
    then show False
    proof cases
      case (wait n)
      then have "n = 0 \<or> n = 1" by linarith
      then show False using wait(2) s by (auto simp: nb_wait_def)
    next
      case (arrive m n)
      then have "(m = 0 \<or> m = 1) \<and> (n = 0 \<or> n = 1)" by linarith
      then show False using arrive(4) s by auto
    qed
  qed
  with s nb_exec_reach [OF s(1)] show ?thesis by blast
qed

definition nb_three :: "nb_move list" where
  "nb_three = replicate 5 (Run 0) @ replicate 5 (Run 1) @ replicate 5 (Run 2) @
     [Arrive 1 0, Arrive 2 0, Arrive 0 1, Arrive 2 1, Arrive 0 2, Arrive 1 2] @
     [Run 0, Run 0, Run 1, Run 1, Run 2, Run 2] @ replicate 5 (Run 2) @ [Arrive 2 0] @ replicate 7 (Run 0)"

text \<open>
  The barrier of three nodes does not hold back. A node takes only one off its counter when it
  passes, so one message is left over from each round: there is a run in which node 0 has
  passed the barrier twice while node 1 has come to it only once.
\<close>

lemma node_barrier_three:
  "\<exists>s. (nb_step 3)\<^sup>*\<^sup>* nb_mk s \<and> passed s 0 = 2 \<and> started s 1 = 1"
proof -
  have "map_option (\<lambda>s. (passed s 0, started s 1)) (nb_exec 3 nb_three nb_mk) = Some (2, 1)" by code_simp
  then obtain s where "nb_exec 3 nb_three nb_mk = Some s" "passed s 0 = 2" "started s 1 = 1" by (auto simp: map_option_eq_Some)
  with nb_exec_reach show ?thesis by blast
qed

end
