(* ===== verification/P4_Tcp.thy ===== *)
theory P4_Tcp
  imports P4_Node
begin

text \<open>
  The TCP transport of \<open>comm/tcp.cpp\<close>: setting up one connection per pair of nodes, sending messages
  of \<open>MSG_SIZE\<close> bytes, and cutting the byte stream of the other node into messages again.
\<close>

definition N_RECV_BUFFERS :: nat where "N_RECV_BUFFERS = 10"
definition MAX_NODES :: nat where "MAX_NODES = 10"

text \<open>A socket is its descriptor, a packet buffer its number in the order of allocation.\<close>

record TCPCommunicator =
  tcp_node_id :: nat
  node_sockfds :: "int list"
  recv_buffers :: "nat list"
  next_buf :: nat

section \<open>Connecting\<close>

text \<open>\<open>realloc_bufs\<close> replaces all receive buffers by fresh ones.\<close>

definition realloc_bufs :: "TCPCommunicator \<Rightarrow> TCPCommunicator" where
  "realloc_bufs c = c\<lparr>recv_buffers := [next_buf c..<next_buf c + N_RECV_BUFFERS], next_buf := next_buf c + N_RECV_BUFFERS\<rparr>"

text \<open>The search for the address of a client among the servers; \<open>length servers\<close> when it is none.\<close>

primrec find_server :: "string \<Rightarrow> string list \<Rightarrow> nat" where
  "find_server ip [] = 0"
| "find_server ip (srv # servers) = (if ip = srv then 0 else Suc (find_server ip servers))"

text \<open>
  The loop that accepts: \<open>incoming\<close> are the clients' addresses and sockets in the order in which
  they connect.
\<close>

fun accept_loop :: "string list \<Rightarrow> nat \<Rightarrow> nat \<Rightarrow> (string \<times> int) list \<Rightarrow> int list \<Rightarrow> int list result" where
  "accept_loop servers me 0 incoming fds = ok fds"
| "accept_loop servers me (Suc n) [] fds = fail Blocked"
| "accept_loop servers me (Suc n) ((ip, client_sock) # incoming) fds =
     bind_res (assert_res (client_sock \<ge> 0)) (\<lambda>_.
     let j = find_server ip servers; fds = (if j < length servers then fds[j := client_sock] else fds) in
     bind_res (assert_res (me < j \<and> j < length servers)) (\<lambda>_. accept_loop servers me n incoming fds))"

text \<open>The outcomes of \<open>connect\<close> on one socket, and the loop that retries.\<close>

datatype connect_rc = Connected | Refused | ConnectError

primrec connect_retry :: "connect_rc list \<Rightarrow> unit result" where
  "connect_retry [] = fail Blocked"
| "connect_retry (rc # rcs) =
     (case rc of Connected \<Rightarrow> ok () | Refused \<Rightarrow> connect_retry rcs | ConnectError \<Rightarrow> fail AssertFailed)"

primrec connect_loop :: "nat \<Rightarrow> (int \<times> connect_rc list) list \<Rightarrow> int list \<Rightarrow> int list result" where
  "connect_loop n [] fds = ok fds"
| "connect_loop n (x # xs) fds =
     bind_res (assert_res (fst x \<ge> 0)) (\<lambda>_.
     bind_res (connect_retry (snd x)) (\<lambda>_. connect_loop (Suc n) xs (fds[n := fst x])))"

text \<open>
  The constructor on node \<open>me\<close>: \<open>servers\<close> are the nodes' addresses, \<open>outgoing\<close> the sockets and the
  outcomes of \<open>connect\<close> for the nodes below.
\<close>

definition TCPCommunicator_mk ::
  "string list \<Rightarrow> nat \<Rightarrow> (string \<times> int) list \<Rightarrow> (int \<times> connect_rc list) list \<Rightarrow> TCPCommunicator result" where
  "TCPCommunicator_mk servers me incoming outgoing =
     (let c = realloc_bufs \<lparr>tcp_node_id = me, node_sockfds = replicate (length servers) 0, recv_buffers = [], next_buf = 0\<rparr> in
      bind_res (assert_res (length servers \<le> MAX_NODES)) (\<lambda>_.
      bind_res (accept_loop servers me (length servers - Suc me) incoming (node_sockfds c)) (\<lambda>fds.
      bind_res (connect_loop 0 (take me outgoing) fds) (\<lambda>fds.
        ok (c\<lparr>node_sockfds := fds\<rparr>)))))"

lemma find_server_nth:
  "distinct servers \<Longrightarrow> j < length servers \<Longrightarrow> find_server (servers ! j) servers = j"
proof (induction servers arbitrary: j)
  case (Cons a servers)
  show ?case
  proof (cases j)
    case (Suc k)
    then have "servers ! k \<noteq> a" using Cons.prems by auto
    then show ?thesis using Cons Suc by simp
  qed simp
qed simp

lemma accept_loop_ok:
  assumes "distinct servers" "distinct (map fst xs)" "\<forall>(j, s) \<in> set xs. me < j \<and> j < length servers \<and> s \<ge> 0"
    and "length fds = length servers"
  shows "\<exists>fds'. accept_loop servers me (length xs) (map (\<lambda>(j, s). (servers ! j, s)) xs) fds = Inr fds' \<and> length fds' = length servers \<and>
    (\<forall>(j, s) \<in> set xs. fds' ! j = s) \<and> (\<forall>j. j \<notin> fst ` set xs \<longrightarrow> fds' ! j = fds ! j)"
  using assms(2-)
proof (induction xs arbitrary: fds)
  case (Cons x xs)
  obtain j s where x: "x = (j, s)" by (cases x)
  have j: "me < j" "j < length servers" "s \<ge> 0" using Cons.prems(2) by (auto simp: x)
  have nj: "j \<notin> fst ` set xs" using Cons.prems(1) by (simp add: x)
  obtain fds' where f: "accept_loop servers me (length xs) (map (\<lambda>(j, s). (servers ! j, s)) xs) (fds[j := s]) = Inr fds'"
    "length fds' = length servers" "\<forall>(j, s) \<in> set xs. fds' ! j = s" "\<And>i. i \<notin> fst ` set xs \<Longrightarrow> fds' ! i = fds[j := s] ! i"
    using Cons.IH [of "fds[j := s]"] Cons.prems by (auto simp: x)
  have "fds' ! j = s" using f(4) [OF nj] j(2) Cons.prems(3) by simp
  moreover have "fds' ! i = fds ! i" if "i \<notin> fst ` set (x # xs)" for i using f(4) [of i] that by (simp add: x)
  ultimately show ?case using f(1-3) j by (simp add: x find_server_nth [OF assms(1)] Let_def)
qed simp

lemma connect_retry_ok: "connect_retry (replicate k Refused @ Connected # rcs) = Inr ()"
  by (induction k) simp_all

lemma connect_loop_ok:
  assumes "\<forall>x \<in> set xs. fst x \<ge> 0 \<and> (\<exists>k rcs. snd x = replicate k Refused @ Connected # rcs)" "n + length xs \<le> length fds"
  shows "\<exists>fds'. connect_loop n xs fds = Inr fds' \<and> length fds' = length fds \<and> (\<forall>j < length xs. fds' ! (n + j) = fst (xs ! j)) \<and>
    (\<forall>j. j < n \<or> n + length xs \<le> j \<longrightarrow> fds' ! j = fds ! j)"
  using assms
proof (induction xs arbitrary: n fds)
  case (Cons x xs)
  have "\<exists>fds'. connect_loop (Suc n) xs (fds[n := fst x]) = Inr fds' \<and> length fds' = length (fds[n := fst x]) \<and>
    (\<forall>j < length xs. fds' ! (Suc n + j) = fst (xs ! j)) \<and> (\<forall>j. j < Suc n \<or> Suc n + length xs \<le> j \<longrightarrow> fds' ! j = fds[n := fst x] ! j)"
    by (rule Cons.IH) (use Cons.prems in auto)
  then obtain fds' where f: "connect_loop (Suc n) xs (fds[n := fst x]) = Inr fds'" "length fds' = length fds"
    "\<And>j. j < length xs \<Longrightarrow> fds' ! (Suc n + j) = fst (xs ! j)"
    "\<And>j. j < Suc n \<or> Suc n + length xs \<le> j \<Longrightarrow> fds' ! j = fds[n := fst x] ! j"
    unfolding length_list_update by blast
  have "connect_retry (snd x) = Inr ()" "fst x \<ge> 0" using Cons.prems(1) connect_retry_ok by auto
  moreover have "fds' ! (n + j) = fst ((x # xs) ! j)" if "j < length (x # xs)" for j
    using that f(3) [of "j - 1"] f(4) [of n] Cons.prems(2) by (cases j) simp_all
  ultimately show ?case using f(1,2,4) by auto
qed simp

text \<open>
  C36. One socket per pair of nodes. With at most ten nodes of distinct addresses, whatever the order
  in which the higher nodes connect and however often the lower ones refuse before they listen, the
  constructor ends with the socket of every other node in that node's place.
\<close>

theorem tcp_mesh:
  assumes "distinct servers" "me < length servers" "length servers \<le> MAX_NODES"
    and "distinct (map fst xs)" "set (map fst xs) = {me<..<length servers}" "\<forall>x \<in> set xs. snd x \<ge> 0"
    and "length ys = me" "\<forall>y \<in> set ys. fst y \<ge> 0 \<and> (\<exists>k. snd y = replicate k Refused @ [Connected])"
  shows "\<exists>c. TCPCommunicator_mk servers me (map (\<lambda>(j, s). (servers ! j, s)) xs) ys = Inr c \<and> length (node_sockfds c) = length servers \<and>
    (\<forall>(j, s) \<in> set xs. node_sockfds c ! j = s) \<and> (\<forall>j < me. node_sockfds c ! j = fst (ys ! j)) \<and>
    length (recv_buffers c) = N_RECV_BUFFERS"
proof -
  have "card (set (map fst xs)) = length (map fst xs)" by (rule distinct_card [OF assms(4)])
  then have len: "length xs = length servers - Suc me" using assms(5) by simp
  let ?f0 = "replicate (length servers) (0 :: int)"
  have "\<forall>(j, s) \<in> set xs. me < j \<and> j < length servers \<and> s \<ge> 0"
  proof safe
    fix j s assume "(j, s) \<in> set xs"
    then have "j \<in> set (map fst xs)" by force
    then show "me < j" "j < length servers" unfolding assms(5) by auto
    show "s \<ge> 0" using assms(6) \<open>(j, s) \<in> set xs\<close> by force
  qed
  from accept_loop_ok [OF assms(1,4) this, of ?f0] obtain f1 where
    f1: "accept_loop servers me (length xs) (map (\<lambda>(j, s). (servers ! j, s)) xs) ?f0 = Inr f1" "length f1 = length servers"
    "\<forall>(j, s) \<in> set xs. f1 ! j = s" by auto
  have "\<forall>y \<in> set ys. fst y \<ge> 0 \<and> (\<exists>k rcs. snd y = replicate k Refused @ Connected # rcs)" using assms(8) by blast
  from connect_loop_ok [OF this, of 0 f1] assms(2,7) f1(2) obtain f2 where
    f2: "connect_loop 0 ys f1 = Inr f2" "length f2 = length servers" "\<And>j. j < me \<Longrightarrow> f2 ! j = fst (ys ! j)" "\<And>j. me \<le> j \<Longrightarrow> f2 ! j = f1 ! j"
    by auto
  have "f2 ! j = s" if "(j, s) \<in> set xs" for j s
  proof -
    have "j \<in> set (map fst xs)" using that by force
    then have "me \<le> j" unfolding assms(5) by simp
    with f2(4) f1(3) that show ?thesis by auto
  qed
  then show ?thesis
    using f1(1) f2 assms(3,7) by (auto simp: TCPCommunicator_mk_def realloc_bufs_def len [symmetric] split: prod.splits)
qed

theorem tcp_mesh_witness:
  "\<exists>c. TCPCommunicator_mk [''a'', ''b'', ''c''] 1 [(''c'', 7)] [(5, [Refused, Connected])] = Inr c \<and>
     node_sockfds c ! 2 = 7 \<and> node_sockfds c ! 0 = 5"
proof -
  have "[Refused, Connected] = replicate 1 Refused @ [Connected]" by simp
  then have "\<forall>y \<in> set [(5 :: int, [Refused, Connected])]. fst y \<ge> 0 \<and> (\<exists>k. snd y = replicate k Refused @ [Connected])"
    unfolding list.set by (metis empty_iff fst_conv insert_iff snd_conv zero_le_numeral)
  moreover have "{1<..<length [''a'', ''b'', ''c'']} = {2 :: nat}" by (auto simp: numeral_eq_Suc)
  ultimately show ?thesis
    using tcp_mesh [of "[''a'', ''b'', ''c'']" 1 "[(2, 7)]" "[(5, [Refused, Connected])]"] by (auto simp: MAX_NODES_def)
qed

section \<open>Receiving\<close>

text \<open>
  What the socket of the other node holds for the next calls of \<open>recv\<close>: bytes that have arrived
  together, an error return, or the end of the stream. \<open>sock_recv n\<close> is \<open>recv\<close> for at most \<open>n\<close> bytes:
  it blocks when there is nothing, gives the first bytes of what has arrived, and returns no bytes at the
  end of the stream, again and again.
\<close>

datatype sock_event = Segment "u8 list" | RecvError | PeerClosed

fun sock_recv :: "nat \<Rightarrow> sock_event list \<Rightarrow> (u8 list option \<times> sock_event list) option" where
  "sock_recv n [] = None"
| "sock_recv n (Segment bs # evs) = Some (Some (take n bs), if length bs \<le> n then evs else Segment (drop n bs) # evs)"
| "sock_recv n (RecvError # evs) = Some (None, evs)"
| "sock_recv n (PeerClosed # evs) = Some (Some [], PeerClosed # evs)"

text \<open>The loop of \<open>receive\<close>; no value when it does not end.\<close>

partial_function (option) recv_loop :: "u8 list \<Rightarrow> sock_event list \<Rightarrow> (u8 list \<times> sock_event list) option" where
  "recv_loop buf evs =
     (case sock_recv (N_RECV_BUFFERS * MSG_SIZE - length buf) evs of
        None \<Rightarrow> None
      | Some (None, evs) \<Rightarrow> recv_loop buf evs
      | Some (Some bs, evs) \<Rightarrow>
          if (length buf + length bs) mod MSG_SIZE = 0 then Some (buf @ bs, evs) else recv_loop (buf @ bs) evs)"

definition cut_msgs :: "nat list \<Rightarrow> u8 list \<Rightarrow> (nat \<times> u8 list) list" where
  "cut_msgs bufs buf = map (\<lambda>i. (bufs ! i, take MSG_SIZE (drop (MSG_SIZE * i) buf))) [0..<length buf div MSG_SIZE]"

definition receive ::
  "TCPCommunicator \<Rightarrow> sock_event list \<Rightarrow> ((nat \<times> u8 list) list \<times> TCPCommunicator \<times> sock_event list) result option" where
  "receive c evs =
     (if length (node_sockfds c) \<noteq> 2 then Some (fail AssertFailed)
      else map_option (\<lambda>(buf, evs). ok (cut_msgs (recv_buffers c) buf, realloc_bufs c, evs)) (recv_loop [] evs))"

text \<open>The first \<open>k\<close> turns of the loop of the network thread, with the packets handed to the handler.\<close>

primrec receive_rounds ::
  "nat \<Rightarrow> TCPCommunicator \<Rightarrow> sock_event list \<Rightarrow> ((nat \<times> u8 list) list \<times> TCPCommunicator \<times> sock_event list) result option" where
  "receive_rounds 0 c evs = Some (ok ([], c, evs))"
| "receive_rounds (Suc k) c evs =
     (case receive c evs of
        None \<Rightarrow> None
      | Some (Inl e) \<Rightarrow> Some (Inl e)
      | Some (Inr (pkts, c, evs)) \<Rightarrow>
          map_option (\<lambda>r. bind_res r (\<lambda>(pkts', c, evs). ok (pkts @ pkts', c, evs))) (receive_rounds k c evs))"

text \<open>The bytes still to come, and a stream of any segmentation that stays open.\<close>

fun payload :: "sock_event list \<Rightarrow> u8 list" where
  "payload [] = []"
| "payload (Segment bs # evs) = bs @ payload evs"
| "payload (RecvError # evs) = payload evs"
| "payload (PeerClosed # evs) = []"

definition open_stream :: "sock_event list \<Rightarrow> bool" where
  "open_stream evs \<longleftrightarrow> PeerClosed \<notin> set evs \<and> Segment [] \<notin> set evs"

lemma open_stream_simps [simp]:
  "open_stream []" "open_stream (Segment bs # evs) \<longleftrightarrow> bs \<noteq> [] \<and> open_stream evs" "open_stream (RecvError # evs) \<longleftrightarrow> open_stream evs"
  "\<not> open_stream (PeerClosed # evs)"
  by (auto simp: open_stream_def)

lemma recv_loop_ok:
  assumes "open_stream evs" "(length buf + length (payload evs)) mod MSG_SIZE = 0" "payload evs \<noteq> []" "length buf < N_RECV_BUFFERS * MSG_SIZE"
  shows "\<exists>buf' evs'. recv_loop buf evs = Some (buf', evs') \<and> buf' @ payload evs' = buf @ payload evs \<and> open_stream evs' \<and>
    length buf' mod MSG_SIZE = 0 \<and> length buf' \<le> N_RECV_BUFFERS * MSG_SIZE \<and> length (payload evs') < length (payload evs)"
  using assms
proof (induction "length evs + length (payload evs)" arbitrary: buf evs rule: less_induct)
  case less
  let ?n = "N_RECV_BUFFERS * MSG_SIZE - length buf"
  show ?case
  proof (cases evs)
    case Nil
    then show ?thesis using less.prems(3) by simp
  next
    case (Cons ev evs0)
    show ?thesis
    proof (cases ev)
      case RecvError
      have "recv_loop buf evs = recv_loop buf evs0" unfolding Cons RecvError by (subst recv_loop.simps) simp
      then show ?thesis using less.hyps [of evs0 buf] less.prems unfolding Cons RecvError by simp
    next
      case PeerClosed
      then show ?thesis using less.prems(1) Cons by simp
    next
      case (Segment bs)
      let ?evs = "if length bs \<le> ?n then evs0 else Segment (drop ?n bs) # evs0" and ?bs = "take ?n bs"
      have bs: "bs \<noteq> []" "open_stream evs0" using less.prems(1) unfolding Cons Segment by simp_all
      have n: "0 < ?n" using less.prems(4) by simp
      have pl: "?bs @ payload ?evs = payload evs" and op: "open_stream ?evs" using bs unfolding Cons Segment by simp_all
      have ne: "?bs \<noteq> []" using bs(1) n by simp
      have len: "length ?bs + length (payload ?evs) = length (payload evs)" using arg_cong [OF pl, of length] by (simp only: length_append)
      then have dec: "length (payload ?evs) < length (payload evs)" using ne by (metis add_less_same_cancel2 length_greater_0_conv less_add_same_cancel2)
      have step: "recv_loop buf evs = (if (length buf + length ?bs) mod MSG_SIZE = 0 then Some (buf @ ?bs, ?evs) else recv_loop (buf @ ?bs) ?evs)"
        unfolding Cons Segment by (subst recv_loop.simps) simp
      show ?thesis
      proof (cases "(length buf + length ?bs) mod MSG_SIZE = 0")
        case True
        then show ?thesis using step pl op dec less.prems(4) by simp
      next
        case False
        have "length (buf @ ?bs) \<le> N_RECV_BUFFERS * MSG_SIZE" using less.prems(4) by simp
        moreover have "length (buf @ ?bs) \<noteq> N_RECV_BUFFERS * MSG_SIZE" using False by auto
        ultimately have room: "length (buf @ ?bs) < N_RECV_BUFFERS * MSG_SIZE" by (rule le_neq_implies_less)
        have sum: "(length (buf @ ?bs) + length (payload ?evs)) mod MSG_SIZE = 0"
          using less.prems(2) len by (metis add.assoc length_append)
        have pne: "payload ?evs \<noteq> []" using sum False by (metis add.right_neutral length_append list.size(3))
        have "length ?evs + length (payload ?evs) < length evs + length (payload evs)" using dec unfolding Cons by auto
        from less.hyps [OF this op sum pne room] obtain buf' evs' where h: "recv_loop (buf @ ?bs) ?evs = Some (buf', evs')" "buf' @ payload evs' = (buf @ ?bs) @ payload ?evs"
          "open_stream evs'" "length buf' mod MSG_SIZE = 0" "length buf' \<le> N_RECV_BUFFERS * MSG_SIZE" "length (payload evs') < length (payload ?evs)"
          by (elim exE conjE)
        have "recv_loop buf evs = Some (buf', evs')" unfolding step using False h(1) by (simp only: if_False)
        moreover have "buf' @ payload evs' = buf @ payload evs" unfolding h(2) append.assoc pl ..
        ultimately show ?thesis using h(3-5) less_trans [OF h(6) dec] by (intro exI conjI)
      qed
    qed
  qed
qed

text \<open>Cutting whole messages out of the buffer.\<close>

lemma concat_equal_lengths:
  assumes "\<forall>m \<in> set ms. length m = k"
  shows "length (concat ms) = k * length ms" "i < length ms \<Longrightarrow> take k (drop (k * i) (concat ms)) = ms ! i"
    "take (k * j) (concat ms) = concat (take j ms)" "drop (k * j) (concat ms) = concat (drop j ms)"
proof -
  show "length (concat ms) = k * length ms" using assms by (induction ms) simp_all
  show "i < length ms \<Longrightarrow> take k (drop (k * i) (concat ms)) = ms ! i"
    using assms by (induction ms arbitrary: i) (auto simp: nth_Cons split: nat.splits)
  show "take (k * j) (concat ms) = concat (take j ms)" "drop (k * j) (concat ms) = concat (drop j ms)"
    using assms by (induction ms arbitrary: j) (auto simp: take_Cons drop_Cons split: nat.splits)
qed

lemma cut_msgs_concat:
  assumes "\<forall>m \<in> set ms. length m = MSG_SIZE"
  shows "map snd (cut_msgs bufs (concat ms)) = ms" "map fst (cut_msgs bufs (concat ms)) = map (\<lambda>i. bufs ! i) [0..<length ms]"
proof -
  have n: "length (concat ms) div MSG_SIZE = length ms" using concat_equal_lengths(1) [OF assms] by (simp add: MSG_SIZE_def)
  show "map snd (cut_msgs bufs (concat ms)) = ms"
    by (rule nth_equalityI) (simp_all add: cut_msgs_def n concat_equal_lengths(2) [OF assms])
  show "map fst (cut_msgs bufs (concat ms)) = map (\<lambda>i. bufs ! i) [0..<length ms]" by (simp add: cut_msgs_def n)
qed

lemma receive_ok:
  assumes "length (node_sockfds c) = 2" "open_stream evs" "payload evs = concat ms" "\<forall>m \<in> set ms. length m = MSG_SIZE" "ms \<noteq> []"
  obtains j evs' where "receive c evs = Some (Inr (cut_msgs (recv_buffers c) (concat (take j ms)), realloc_bufs c, evs'))" "0 < j" "j \<le> length ms"
    "j \<le> N_RECV_BUFFERS" "open_stream evs'" "payload evs' = concat (drop j ms)"
proof -
  have M: "0 < MSG_SIZE" by (simp add: MSG_SIZE_def)
  have len: "length (payload evs) = MSG_SIZE * length ms" using concat_equal_lengths(1) [OF assms(4)] assms(3) by simp
  then have "payload evs \<noteq> []" "length (payload evs) mod MSG_SIZE = 0" using assms(5) M by auto
  then obtain buf evs' where r: "recv_loop [] evs = Some (buf, evs')" "buf @ payload evs' = concat ms" "open_stream evs'"
    "length buf mod MSG_SIZE = 0" "length buf \<le> N_RECV_BUFFERS * MSG_SIZE" "length (payload evs') < length (payload evs)"
    using recv_loop_ok [of evs "[]"] assms(2,3) M by (auto simp: N_RECV_BUFFERS_def)
  define j where "j = length buf div MSG_SIZE"
  have lb: "length buf = MSG_SIZE * j" using r(4) unfolding j_def by (metis add.right_neutral mult_div_mod_eq)
  have b: "buf = concat (take j ms)" "payload evs' = concat (drop j ms)"
  proof -
    have "take (MSG_SIZE * j) (buf @ payload evs') = buf" "drop (MSG_SIZE * j) (buf @ payload evs') = payload evs'"
      unfolding lb [symmetric] by simp_all
    then show "buf = concat (take j ms)" "payload evs' = concat (drop j ms)"
      unfolding r(2) concat_equal_lengths(3,4) [OF assms(4)] by simp_all
  qed
  have sum: "MSG_SIZE * j + length (payload evs') = MSG_SIZE * length ms" using arg_cong [OF r(2), of length] len assms(3) lb by simp
  then have "j \<le> length ms" using M by (metis le_add1 mult_le_cancel1 not_gr_zero)
  moreover have "0 < j" using sum r(6) len by (cases j) simp_all
  moreover have "j \<le> N_RECV_BUFFERS" using r(5) lb M by (metis mult.commute mult_le_cancel1 not_gr_zero)
  moreover have "receive c evs = Some (Inr (cut_msgs (recv_buffers c) (concat (take j ms)), realloc_bufs c, evs'))"
    using r(1) assms(1) b(1) by (simp add: receive_def)
  ultimately show thesis using that r(3) b(2) by blast
qed

text \<open>
  C18. Messages survive the stream. On a cluster of two nodes, whatever way TCP cuts the bytes of a sequence of messages
  into segments and wherever calls of \<open>recv\<close> fail in between, the network thread hands exactly
  those messages to the handler, whole and in order, after finitely many turns of its loop.
\<close>

theorem tcp_stream_roundtrip:
  assumes "length (node_sockfds c) = 2" "\<forall>m \<in> set ms. length m = MSG_SIZE" "open_stream evs" "payload evs = concat ms"
  shows "\<exists>k pkts c' evs'. receive_rounds k c evs = Some (Inr (pkts, c', evs')) \<and> map snd pkts = ms \<and> payload evs' = []"
  using assms
proof (induction "length ms" arbitrary: ms c evs rule: less_induct)
  case less
  show ?case
  proof (cases "ms = []")
    case True
    then show ?thesis using less.prems(4) by (intro exI [of _ 0] exI [of _ "[]"]) simp
  next
    case False
    obtain j evs1 where j: "receive c evs = Some (Inr (cut_msgs (recv_buffers c) (concat (take j ms)), realloc_bufs c, evs1))" "0 < j" "j \<le> length ms"
      "open_stream evs1" "payload evs1 = concat (drop j ms)"
      using receive_ok [OF less.prems(1,3,4,2) False] by metis
    have t: "\<forall>m \<in> set (take j ms). length m = MSG_SIZE" "\<forall>m \<in> set (drop j ms). length m = MSG_SIZE"
      using less.prems(2) by (auto dest: in_set_takeD in_set_dropD)
    have "length (drop j ms) < length ms" using j(2) False by simp
    moreover have "length (node_sockfds (realloc_bufs c)) = 2" using less.prems(1) by (simp add: realloc_bufs_def)
    ultimately obtain k pkts c' evs' where "receive_rounds k (realloc_bufs c) evs1 = Some (Inr (pkts, c', evs'))" "map snd pkts = drop j ms" "payload evs' = []"
      using less.hyps [OF _ _ t(2) j(4,5)] by blast
    then show ?thesis
      using j(1) cut_msgs_concat(1) [OF t(1)] by (intro exI [of _ "Suc k"]) simp
  qed
qed

definition tcp_demo :: TCPCommunicator where
  "tcp_demo = \<lparr>tcp_node_id = 0, node_sockfds = [0, 4], recv_buffers = [0..<10], next_buf = 10\<rparr>"

definition tcp_demo_events :: "sock_event list" where
  "tcp_demo_events = [Segment (replicate 72 1 @ replicate 28 2), RecvError, Segment (replicate 44 2)]"

lemma tcp_demo_stream:
  "open_stream tcp_demo_events" "payload tcp_demo_events = concat [replicate 72 1, replicate 72 2]"
  "\<forall>m \<in> set [replicate 72 (1 :: u8), replicate 72 2]. length m = MSG_SIZE"
proof -
  show "open_stream tcp_demo_events" by (simp add: tcp_demo_events_def)
  have "replicate 28 (2 :: u8) @ replicate 44 2 = replicate 72 2" by (simp flip: replicate_add)
  then show "payload tcp_demo_events = concat [replicate 72 1, replicate 72 2]" by (simp add: tcp_demo_events_def)
  show "\<forall>m \<in> set [replicate 72 (1 :: u8), replicate 72 2]. length m = MSG_SIZE" by (simp add: MSG_SIZE_def)
qed

theorem tcp_stream_roundtrip_witness:
  "\<exists>k pkts c' evs'. receive_rounds k tcp_demo tcp_demo_events = Some (Inr (pkts, c', evs')) \<and>
     map snd pkts = [replicate 72 1, replicate 72 2] \<and> payload evs' = []"
  by (rule tcp_stream_roundtrip [OF _ tcp_demo_stream(3,1,2)]) (simp add: tcp_demo_def)

text \<open>
  Receive buffers leak. Each call of \<open>receive\<close> replaces all ten receive buffers, though it handed
  only those of the messages to the handler: the others are reachable from nowhere
  afterwards and are never freed.
\<close>

lemma receive_leaks:
  assumes "length (node_sockfds c) = 2" "recv_buffers c = [n..<n + N_RECV_BUFFERS]" "n + N_RECV_BUFFERS \<le> next_buf c"
    and "open_stream evs" "payload evs = concat ms" "\<forall>m \<in> set ms. length m = MSG_SIZE" "ms \<noteq> []"
  shows "\<exists>pkts c' evs'. receive c evs = Some (Inr (pkts, c', evs')) \<and>
    card (set (recv_buffers c) - set (map fst pkts) - set (recv_buffers c')) = N_RECV_BUFFERS - length pkts"
proof -
  obtain j evs' where j: "receive c evs = Some (Inr (cut_msgs (recv_buffers c) (concat (take j ms)), realloc_bufs c, evs'))" "j \<le> length ms" "j \<le> N_RECV_BUFFERS"
    using receive_ok [OF assms(1,4-7)] by metis
  let ?p = "cut_msgs (recv_buffers c) (concat (take j ms))"
  have t: "\<forall>m \<in> set (take j ms). length m = MSG_SIZE" using assms(6) by (auto dest: in_set_takeD)
  have "map fst ?p = map (\<lambda>i. [n..<n + N_RECV_BUFFERS] ! i) [0..<j]" using cut_msgs_concat(2) [OF t] assms(2) j(2) by simp
  also have "\<dots> = [n..<n + j]" using j(3) by (intro nth_equalityI) simp_all
  finally have f: "map fst ?p = [n..<n + j]" .
  then have "length ?p = j" by (metis diff_add_inverse length_map length_upt)
  moreover have "set (recv_buffers c) - set (map fst ?p) - set (recv_buffers (realloc_bufs c)) = {n + j..<n + N_RECV_BUFFERS}"
    unfolding f using assms(2,3) by (auto simp: realloc_bufs_def)
  ultimately show ?thesis using j(1) by auto
qed

lemma receive_leaks_witness:
  "\<exists>pkts c' evs'. receive tcp_demo tcp_demo_events = Some (Inr (pkts, c', evs')) \<and>
     card (set (recv_buffers tcp_demo) - set (map fst pkts) - set (recv_buffers c')) = N_RECV_BUFFERS - length pkts"
  by (rule receive_leaks [OF _ _ _ tcp_demo_stream, of _ 0]) (simp_all add: tcp_demo_def N_RECV_BUFFERS_def)

text \<open>
  A message cut short. When the other node closes the connection in the middle of a message, the
  loop of \<open>receive\<close> never ends: \<open>recv\<close> returns no bytes and no error from then on.
\<close>

lemma receive_closed_midway:
  assumes "length (node_sockfds c) = 2" "0 < length bs" "length bs < MSG_SIZE"
  shows "receive c [Segment bs, PeerClosed] = None"
proof -
  have stuck: "recv_loop bs [PeerClosed] = None"
  proof (rule ccontr)
    assume "recv_loop bs [PeerClosed] \<noteq> None"
    then obtain r where r: "recv_loop bs [PeerClosed] = Some r" by auto
    have "evs = [PeerClosed] \<longrightarrow> buf = bs \<longrightarrow> False" if "recv_loop buf evs = Some r" for buf evs
    proof (rule recv_loop.raw_induct [where P = "\<lambda>buf evs r. evs = [PeerClosed] \<longrightarrow> buf = bs \<longrightarrow> False", OF _ that], intro impI)
      fix f :: "u8 list \<Rightarrow> sock_event list \<Rightarrow> (u8 list \<times> sock_event list) option" and buf evs r
      assume IH: "\<And>buf evs r. f buf evs = Some r \<Longrightarrow> evs = [PeerClosed] \<longrightarrow> buf = bs \<longrightarrow> False"
        and body: "(case sock_recv (N_RECV_BUFFERS * MSG_SIZE - length buf) evs of
            None \<Rightarrow> None
          | Some (None, evs) \<Rightarrow> f buf evs
          | Some (Some bs, evs) \<Rightarrow>
              if (length buf + length bs) mod MSG_SIZE = 0 then Some (buf @ bs, evs) else f (buf @ bs) evs) = Some r"
        and s: "evs = [PeerClosed]" "buf = bs"
      have "length bs mod MSG_SIZE \<noteq> 0" using assms(2,3) by simp
      then have "f bs [PeerClosed] = Some r" using body s by simp
      with IH show False by blast
    qed
    with r show False by blast
  qed
  have "recv_loop [] [Segment bs, PeerClosed] = recv_loop bs [PeerClosed]"
    using assms(2,3) by (subst recv_loop.simps) (simp add: N_RECV_BUFFERS_def)
  with stuck assms(1) show ?thesis by (simp add: receive_def)
qed

lemma receive_closed_midway_witness:
  "receive tcp_demo [Segment [1, 2, 3], PeerClosed] = None"
  by (rule receive_closed_midway) (simp_all add: tcp_demo_def MSG_SIZE_def)

end
