(* ===== verification/P4_Alloc.thy ===== *)
theory P4_Alloc
  imports P4_Layout
begin

text \<open>
  The block scheduler of the switch's control plane, which shares the register blocks of the
  switch among tenants (\<open>switch_src/01_control_plane/handle.cpp\<close>, \<open>sched.cpp\<close>), and its client
  in the engine (\<open>ee/sched_intf.cpp\<close>).

  The allocator keeps the blocks ordered by the time they are expected to be free, and a queue
  of tenants per block. The server answers the requests of the nodes of all tenants: the first
  request of a tenant for a batch frees the block of the last batch and allocates the next one,
  the others get the same answer; a tenant is told to start once it is at the head of its
  block's queue and all its nodes have their answer. The client asks for a block at start-up and
  after every hot period, and waits for the start message before the next hot period.
\<close>

section \<open>The allocator\<close>

definition N_UNIFIED_SLOTS :: nat where "N_UNIFIED_SLOTS = 2048"
definition SLOTS_PER_BLOCK :: nat where "SLOTS_PER_BLOCK = 64"
definition N_BLOCKS :: nat where "N_BLOCKS = N_UNIFIED_SLOTS div SLOTS_PER_BLOCK"
definition N_MAX_TENANTS :: nat where "N_MAX_TENANTS = 150"
definition NO_TENANT :: nat where "NO_TENANT = 0"
definition INIT_TS :: u64 where "INIT_TS = 0"

lemma N_BLOCKS_eq [simp]: "N_BLOCKS = 32"
  by (simp add: N_BLOCKS_def N_UNIFIED_SLOTS_def SLOTS_PER_BLOCK_def)

lemma N_MAX_TENANTS_eq [simp]: "N_MAX_TENANTS = 150"
  by (simp add: N_MAX_TENANTS_def)

lemma NO_TENANT_eq [simp]: "NO_TENANT = 0"
  by (simp add: NO_TENANT_def)

datatype blk_meta = Blk_meta (blk_id: nat) (est_finish_ts: u64)

definition blk_meta_cmp :: "blk_meta \<Rightarrow> blk_meta \<Rightarrow> bool" where
  "blk_meta_cmp lhs rhs =
     (if est_finish_ts lhs = est_finish_ts rhs then blk_id lhs < blk_id rhs
      else est_finish_ts lhs < est_finish_ts rhs)"

text \<open>The comparison is a strict total order, as its comment says: the blocks form a linear
  order, and a \<open>std::set\<close> of them is a sorted list without repetitions, with \<open>insort_insert\<close> of
  the library as its insertion.\<close>

instantiation blk_meta :: linorder
begin

definition less_blk_meta :: "blk_meta \<Rightarrow> blk_meta \<Rightarrow> bool" where
  "less_blk_meta = blk_meta_cmp"

definition less_eq_blk_meta :: "blk_meta \<Rightarrow> blk_meta \<Rightarrow> bool" where
  "less_eq_blk_meta a b = (a = b \<or> blk_meta_cmp a b)"

instance
  by standard
    (auto simp: less_blk_meta_def less_eq_blk_meta_def blk_meta_cmp_def blk_meta.expand
       split: if_splits)

end

record tenant_reqs =
  started :: bool
  n_waiting :: u64

definition tenant_reqs_mk :: tenant_reqs where
  "tenant_reqs_mk = \<lparr>started = False, n_waiting = 0\<rparr>"

record alloc_state =
  blocks_sorted :: "blk_meta list"
  block_queue :: "nat list list"
  tenant_req :: "tenant_reqs list"
  to_notify :: "nat set"

text \<open>The clock is a parameter: the two fields of the \<open>timespec\<close> that \<open>clock_gettime\<close> fills in.\<close>

definition get_real_ts :: "u64 \<times> u64 \<Rightarrow> u64" where
  "get_real_ts ts = fst ts * 1000000000 + snd ts"

text \<open>The state before \<open>main\<close> (static storage) and the blocks \<open>handle_init\<close> puts in.\<close>

definition alloc_static :: alloc_state where
  "alloc_static = \<lparr>blocks_sorted = [], block_queue = replicate N_BLOCKS [],
     tenant_req = replicate N_MAX_TENANTS tenant_reqs_mk, to_notify = {}\<rparr>"

definition handle_init :: "alloc_state \<Rightarrow> alloc_state" where
  "handle_init s = foldl (\<lambda>s i. s\<lparr>blocks_sorted := insort_insert (Blk_meta i INIT_TS) (blocks_sorted s)\<rparr>)
     s [0..<N_BLOCKS]"

text \<open>\<open>upper_bound(query)\<close>, then one step back unless at the beginning.\<close>

definition pick_block :: "blk_meta list \<Rightarrow> blk_meta \<Rightarrow> nat" where
  "pick_block bs query = length (takeWhile (\<lambda>m. m \<le> query) bs) - 1"

definition handle_alloc ::
  "u64 \<times> u64 \<Rightarrow> nat \<Rightarrow> u64 \<Rightarrow> u64 \<Rightarrow> alloc_state \<Rightarrow> (alloc_state \<times> nat) result" where
  "handle_alloc clock tenant start_delay duration s =
     bind_res (assert_res (tenant \<noteq> NO_TENANT)) (\<lambda>_.
     bind_res (assert_res (length (blocks_sorted s) = N_BLOCKS)) (\<lambda>_.
     bind_res (at_res (tenant_req s) tenant) (\<lambda>r.
     let reqs = (tenant_req s)[tenant := r\<lparr>started := True\<rparr>];
         usecs_ts = get_real_ts clock;
         my_start_ts = usecs_ts + start_delay;
         my_finish_ts = usecs_ts + start_delay + duration;
         it = pick_block (blocks_sorted s) (Blk_meta 0 my_start_ts)
     in
     bind_res (at_res (blocks_sorted s) it) (\<lambda>found.
     let bs = take it (blocks_sorted s) @ drop (Suc it) (blocks_sorted s);
         b = blk_id found;
         found = Blk_meta b (my_finish_ts +
           (if est_finish_ts found \<ge> my_start_ts then est_finish_ts found - my_start_ts else 0))
     in
     bind_res (assert_res (n_waiting (reqs ! tenant) = 0)) (\<lambda>_.
     bind_res (at_res (block_queue s) b) (\<lambda>q.
     let s = (if q \<noteq> [] then s\<lparr>tenant_req := reqs[tenant := (reqs ! tenant)\<lparr>n_waiting := 1\<rparr>]\<rparr>
              else s\<lparr>tenant_req := reqs, to_notify := insert tenant (to_notify s)\<rparr>)
     in ok (s\<lparr>block_queue := (block_queue s)[b := q @ [tenant]],
              blocks_sorted := insort_insert found bs\<rparr>, b)))))))"

definition handle_free :: "nat \<Rightarrow> nat \<Rightarrow> alloc_state \<Rightarrow> alloc_state result" where
  "handle_free tenant block s =
     bind_res (assert_res (tenant \<noteq> NO_TENANT)) (\<lambda>_.
     bind_res (at_res (block_queue s) block) (\<lambda>q.
     bind_res (at_res q 0) (\<lambda>f.
     bind_res (assert_res (f = tenant)) (\<lambda>_.
     let s = s\<lparr>block_queue := (block_queue s)[block := tl q]\<rparr>
     in
     if tl q = [] then ok s
     else
       let next = hd (tl q) in
       bind_res (at_res (tenant_req s) next) (\<lambda>r.
       let r = r\<lparr>n_waiting := n_waiting r - 1\<rparr>;
           s = s\<lparr>tenant_req := (tenant_req s)[next := r]\<rparr>
       in ok (if n_waiting r = 0 then s\<lparr>to_notify := insert next (to_notify s)\<rparr> else s))))))"

definition get_ready :: "alloc_state \<Rightarrow> nat set" where
  "get_ready s = to_notify s"

section \<open>The server\<close>

definition SCHED_NO_BLOCK :: u32 where "SCHED_NO_BLOCK = - 1"

record alloc_req =
  start_delay_ns :: u64
  duration_ns :: u64
  blk_to_free :: u32
  req_tenant_id :: nat
  tenant_num_nodes :: nat
  req_batch_num :: u32

record alloc_resp =
  resp_batch_num :: u32
  alloced_blk_id :: u32

record tenant_info =
  cached :: alloc_resp
  n_cached_uses :: nat
  expected_n_fds :: nat
  sock_fds :: "nat set"

text \<open>A value-initialised \<open>tenant_info_t\<close>. The \<open>unordered_map\<close> of the server, in which
  \<open>operator[]\<close> creates missing entries this way, is a total function.\<close>

definition tenant_info_mk :: tenant_info where
  "tenant_info_mk = \<lparr>cached = \<lparr>resp_batch_num = 0, alloced_blk_id = 0\<rparr>,
     n_cached_uses = 0, expected_n_fds = 0, sock_fds = {}\<rparr>"

record sched_srv =
  handle :: alloc_state
  infos :: "nat \<Rightarrow> tenant_info"

definition sched_srv_mk :: sched_srv where
  "sched_srv_mk = \<lparr>handle = handle_init alloc_static, infos = (\<lambda>_. tenant_info_mk)\<rparr>"

text \<open>The answer to one request, read from the socket \<open>fd\<close>.\<close>

definition sched_reply ::
  "u64 \<times> u64 \<Rightarrow> nat \<Rightarrow> alloc_req \<Rightarrow> sched_srv \<Rightarrow> (sched_srv \<times> alloc_resp) result" where
  "sched_reply clock fd req s =
     (let t = req_tenant_id req;
          info = (infos s t)\<lparr>sock_fds := insert fd (sock_fds (infos s t)),
                   expected_n_fds := tenant_num_nodes req\<rparr>
      in
      bind_res
        (if resp_batch_num (cached info) \<noteq> req_batch_num req then
           bind_res (if blk_to_free req \<noteq> SCHED_NO_BLOCK then handle_free t (unat (blk_to_free req)) (handle s)
                     else ok (handle s)) (\<lambda>h.
           bind_res (handle_alloc clock t (start_delay_ns req) (duration_ns req) h) (\<lambda>(h, b).
           ok (h, info\<lparr>cached := \<lparr>resp_batch_num = req_batch_num req, alloced_blk_id = of_nat b\<rparr>,
                 n_cached_uses := 0\<rparr>)))
         else ok (handle s, info)) (\<lambda>(h, info).
      ok (\<lparr>handle = h, infos = (infos s)(t := info\<lparr>n_cached_uses := n_cached_uses info + 1\<rparr>)\<rparr>,
          cached info)))"

definition info_complete :: "tenant_info \<Rightarrow> bool" where
  "info_complete info \<longleftrightarrow> card (sock_fds info) = expected_n_fds info \<and>
     n_cached_uses info = expected_n_fds info"

text \<open>The scan of the tenants to notify, after a request of tenant \<open>t\<close>; the second component is
  the set of sockets the start message is sent to.\<close>

definition sched_notify :: "nat \<Rightarrow> sched_srv \<Rightarrow> sched_srv \<times> nat set" where
  "sched_notify t s =
     (if expected_n_fds (infos s t) = card (sock_fds (infos s t)) then
        let ready = {u \<in> get_ready (handle s). info_complete (infos s u)}
        in (s\<lparr>handle := (handle s)\<lparr>to_notify := to_notify (handle s) - ready\<rparr>\<rparr>,
            \<Union>u \<in> ready. sock_fds (infos s u))
      else (s, {}))"

definition sched_serve ::
  "u64 \<times> u64 \<Rightarrow> nat \<Rightarrow> alloc_req \<Rightarrow> sched_srv \<Rightarrow> (sched_srv \<times> alloc_resp \<times> nat set) result" where
  "sched_serve clock fd req s =
     bind_res (sched_reply clock fd req s) (\<lambda>(s, resp).
     let (s, fds) = sched_notify (req_tenant_id req) s in ok (s, resp, fds))"

section \<open>The client\<close>

definition COLD_BATCH_DUR_EST_NS :: u64 where "COLD_BATCH_DUR_EST_NS = 1000000"
definition HOT_BATCH_DUR_EST_NS :: u64 where "HOT_BATCH_DUR_EST_NS = 1000000"

definition update_alloc_req :: "nat \<Rightarrow> nat \<Rightarrow> u32 \<Rightarrow> u32 \<Rightarrow> alloc_req" where
  "update_alloc_req n_nodes tenant blk batch_num =
     \<lparr>start_delay_ns = COLD_BATCH_DUR_EST_NS, duration_ns = HOT_BATCH_DUR_EST_NS,
      blk_to_free = blk, req_tenant_id = 1 + tenant, tenant_num_nodes = n_nodes,
      req_batch_num = 1 + batch_num\<rparr>"

definition update_alloc_fill :: "alloc_req \<Rightarrow> alloc_resp \<Rightarrow> u32 result" where
  "update_alloc_fill req resp =
     bind_res (assert_res (resp_batch_num resp = req_batch_num req)) (\<lambda>_. ok (alloced_blk_id resp))"

text \<open>
  A node: how many calls of \<open>update_alloc\<close> it has made, how many start messages
  (\<open>wait_sched_ready\<close>) it has been sent, and the block number of its layout.
\<close>

record sched_client =
  cl_calls :: nat
  cl_ready :: nat
  cl_blk :: u32

definition sched_client_mk :: sched_client where
  "sched_client_mk = \<lparr>cl_calls = 0, cl_ready = 0, cl_blk = of_nat NO_BLOCK\<rparr>"

lemma no_block_eq: "SCHED_NO_BLOCK = of_nat NO_BLOCK"
  by (simp add: SCHED_NO_BLOCK_def NO_BLOCK_def)

lemma sched_client_mk_code [code]:
  "sched_client_mk = \<lparr>cl_calls = 0, cl_ready = 0, cl_blk = SCHED_NO_BLOCK\<rparr>"
  by (simp add: sched_client_mk_def no_block_eq)

record sched_sys =
  srv :: sched_srv
  clients :: "nat \<Rightarrow> sched_client"

definition sched_sys_mk :: sched_sys where
  "sched_sys_mk = \<lparr>srv = sched_srv_mk, clients = (\<lambda>_. sched_client_mk)\<rparr>"

text \<open>The connections of the server: the socket of each node with the \<open>tenant_id\<close> of its
  configuration.\<close>

type_synonym conns = "(nat \<times> nat) list"

definition nodes_of :: "conns \<Rightarrow> nat \<Rightarrow> nat set" where
  "nodes_of conns t = fst ` {c \<in> set conns. snd c = t}"

definition cl_notify :: "nat set \<Rightarrow> nat \<Rightarrow> sched_client \<Rightarrow> sched_client" where
  "cl_notify fds g c = (if g \<in> fds then c\<lparr>cl_ready := cl_ready c + 1\<rparr> else c)"

text \<open>One call of \<open>update_alloc\<close> by the node behind \<open>fd\<close>, from the request to its answer; its
  n-th call has the argument n - 1 (0 in \<open>main\<close>, 1 plus the batch number in the batch loop).\<close>

definition update_alloc ::
  "conns \<Rightarrow> u64 \<times> u64 \<Rightarrow> nat \<Rightarrow> nat \<Rightarrow> sched_sys \<Rightarrow> sched_sys result" where
  "update_alloc conns clock fd tenant s =
     (let c = clients s fd;
          req = update_alloc_req (card (nodes_of conns tenant)) tenant (cl_blk c) (of_nat (cl_calls c))
      in
      bind_res (sched_serve clock fd req (srv s)) (\<lambda>(srv', resp, fds).
      bind_res (update_alloc_fill req resp) (\<lambda>blk.
      ok \<lparr>srv = srv', clients = (\<lambda>g. cl_notify fds g
        (((clients s)(fd := c\<lparr>cl_calls := cl_calls c + 1, cl_blk := blk\<rparr>)) g))\<rparr>)))"

text \<open>
  When a node may make its next call: it calls \<open>update_alloc\<close> for the (n+1)-st time after n
  hot periods, each of which ends with a barrier of all nodes of the tenant, so all of them have
  got n start messages.
\<close>

definition may_call :: "conns \<Rightarrow> nat \<Rightarrow> nat \<Rightarrow> sched_sys \<Rightarrow> bool" where
  "may_call conns fd tenant s \<longleftrightarrow> (fd, tenant) \<in> set conns \<and>
     (\<forall>g \<in> nodes_of conns tenant. cl_calls (clients s fd) \<le> cl_ready (clients s g))"

inductive sched_step :: "conns \<Rightarrow> sched_sys \<Rightarrow> sched_sys \<Rightarrow> bool" for conns where
  call: "may_call conns fd t s \<Longrightarrow> update_alloc conns clock fd t s = Inr s' \<Longrightarrow> sched_step conns s s'"

text \<open>The configuration of the cluster: every socket once, tenant numbers that fit the server's
  table.\<close>

definition conns_ok :: "conns \<Rightarrow> bool" where
  "conns_ok conns \<longleftrightarrow> distinct (map fst conns) \<and> (\<forall>(fd, t) \<in> set conns. t + 1 < N_MAX_TENANTS)"

section \<open>Well-formed allocator states\<close>

text \<open>How often a tenant stands in the queues, and how often behind another.\<close>

definition occ :: "alloc_state \<Rightarrow> nat \<Rightarrow> nat" where
  "occ a t = sum_list (map (\<lambda>q. count_list q t) (block_queue a))"

definition waits :: "alloc_state \<Rightarrow> nat \<Rightarrow> nat" where
  "waits a t = sum_list (map (\<lambda>q. count_list (tl q) t) (block_queue a))"

definition alloc_wf :: "alloc_state \<Rightarrow> bool" where
  "alloc_wf a \<longleftrightarrow>
     sorted (blocks_sorted a) \<and> distinct (map blk_id (blocks_sorted a)) \<and>
     blk_id ` set (blocks_sorted a) = {..<N_BLOCKS} \<and>
     length (block_queue a) = N_BLOCKS \<and> length (tenant_req a) = N_MAX_TENANTS \<and>
     (\<forall>q \<in> set (block_queue a). \<forall>t \<in> set q. 0 < t \<and> t < N_MAX_TENANTS) \<and>
     (\<forall>t < N_MAX_TENANTS. unat (n_waiting (tenant_req a ! t)) = waits a t)"

lemma sum_map_update:
  fixes f :: "'a \<Rightarrow> nat"
  assumes "i < length qs"
  shows "sum_list (map f (qs[i := q])) + f (qs ! i) = sum_list (map f qs) + f q"
proof -
  have "f (qs ! i) \<le> sum_list (map f qs)"
    using assms by (simp add: member_le_sum_list)
  then show ?thesis
    using assms by (simp add: map_update sum_list_update)
qed

lemma occ_zero: "occ a t = 0 \<longleftrightarrow> (\<forall>q \<in> set (block_queue a). t \<notin> set q)"
  by (auto simp: occ_def count_list_0_iff)

lemma waits_zero: "waits a t = 0 \<longleftrightarrow> (\<forall>q \<in> set (block_queue a). t \<notin> set (tl q))"
  by (auto simp: waits_def count_list_0_iff)

lemma waits_le_occ: "waits a t \<le> occ a t"
proof -
  have "count_list (tl q) t \<le> count_list q t" for q :: "nat list" by (cases q) auto
  then show ?thesis by (simp add: waits_def occ_def sum_list_mono)
qed

lemma wf_lengths:
  assumes "alloc_wf a"
  shows "length (blocks_sorted a) = N_BLOCKS" "length (block_queue a) = N_BLOCKS"
    "length (tenant_req a) = N_MAX_TENANTS"
proof -
  have d: "distinct (map blk_id (blocks_sorted a))" "blk_id ` set (blocks_sorted a) = {..<N_BLOCKS}"
    using assms by (simp_all add: alloc_wf_def)
  then show "length (blocks_sorted a) = N_BLOCKS"
    by (metis card_lessThan distinct_card length_map list.set_map)
qed (use assms in \<open>simp_all add: alloc_wf_def\<close>)

lemma wf_waiting: "alloc_wf a \<Longrightarrow> t < N_MAX_TENANTS \<Longrightarrow> n_waiting (tenant_req a ! t) = 0 \<longleftrightarrow> waits a t = 0"
  unfolding alloc_wf_def by (metis unat_eq_zero)

lemma handle_init_blocks:
  "n \<le> 32 \<Longrightarrow> let a = foldl (\<lambda>s i. s\<lparr>blocks_sorted := insort_insert (Blk_meta i INIT_TS) (blocks_sorted s)\<rparr>)
       alloc_static [0..<n]
     in blocks_sorted a = map (\<lambda>i. Blk_meta i INIT_TS) [0..<n] \<and> block_queue a = block_queue alloc_static \<and>
       tenant_req a = tenant_req alloc_static \<and> to_notify a = {}"
proof (induction n)
  case 0
  then show ?case by (simp add: alloc_static_def)
next
  case (Suc n)
  have "insort x xs = xs @ [x]" if "\<forall>y \<in> set xs. y < x" for x :: blk_meta and xs
    using that by (induction xs) auto
  moreover have "Blk_meta i INIT_TS < Blk_meta n INIT_TS \<longleftrightarrow> i < n" for i n
    by (simp add: less_blk_meta_def blk_meta_cmp_def)
  moreover have "Blk_meta n INIT_TS \<notin> set (map (\<lambda>i. Blk_meta i INIT_TS) [0..<n])" by auto
  ultimately have "insort_insert (Blk_meta n INIT_TS) (map (\<lambda>i. Blk_meta i INIT_TS) [0..<n]) =
      map (\<lambda>i. Blk_meta i INIT_TS) [0..<n] @ [Blk_meta n INIT_TS]"
    by (subst insort_insert_insort) auto
  then show ?case
    using Suc by (simp add: Let_def)
qed

lemma handle_init_simps [simp]:
  "blocks_sorted (handle_init alloc_static) = map (\<lambda>i. Blk_meta i INIT_TS) [0..<N_BLOCKS]"
  "block_queue (handle_init alloc_static) = replicate N_BLOCKS []"
  "tenant_req (handle_init alloc_static) = replicate N_MAX_TENANTS tenant_reqs_mk"
  "to_notify (handle_init alloc_static) = {}"
  using handle_init_blocks [of 32]
  by (simp_all add: handle_init_def Let_def alloc_static_def del: upt_Suc upt_rec_numeral)

lemma handle_init_wf: "alloc_wf (handle_init alloc_static)"
proof -
  have "sorted (map (\<lambda>i. Blk_meta i INIT_TS) [0..<n])" for n
    by (auto simp: sorted_iff_nth_mono less_eq_blk_meta_def blk_meta_cmp_def)
  then show ?thesis
    by (auto simp: alloc_wf_def waits_def tenant_reqs_mk_def comp_def sum_list_replicate lessThan_atLeast0 image_image
       simp del: upt_Suc upt_rec_numeral)
qed

section \<open>What the allocator does\<close>

lemma insort_insert_set [simp]: "set (insort_insert x xs) = insert x (set xs)"
  by (simp add: set_insort_insert)

text \<open>The set after a block was moved: it keeps its number and every block is still there once.\<close>

lemma move_block:
  fixes bs :: "blk_meta list" and ts :: u64
  assumes "i < length bs" "sorted bs" "distinct (map blk_id bs)"
  defines "bs' \<equiv> insort_insert (Blk_meta (blk_id (bs ! i)) ts) (take i bs @ drop (Suc i) bs)"
  shows "sorted bs'" "distinct (map blk_id bs')" "blk_id ` set bs' = blk_id ` set bs"
proof -
  let ?r = "take i bs @ drop (Suc i) bs" and ?x = "Blk_meta (blk_id (bs ! i)) ts"
  have split: "bs = take i bs @ bs ! i # drop (Suc i) bs" using assms(1) by (simp add: id_take_nth_drop)
  have m: "mset bs = add_mset (bs ! i) (mset ?r)" by (subst split) simp
  have "sorted (take i bs @ bs ! i # drop (Suc i) bs)" using assms(2) split by simp
  then have s: "sorted ?r" by (simp add: sorted_append)
  have "distinct (map blk_id (take i bs @ bs ! i # drop (Suc i) bs))" using assms(3) split by simp
  then have d: "distinct (map blk_id ?r)" "blk_id (bs ! i) \<notin> blk_id ` set ?r"
    by (simp_all add: image_Un)
  have x: "?x \<notin> set ?r"
    using d(2) by (metis blk_meta.sel(1) image_eqI)
  show "sorted bs'" unfolding bs'_def using s by (rule sorted_insort_insert)
  have m': "mset bs' = add_mset ?x (mset ?r)"
    unfolding bs'_def by (simp only: insort_insert_insort [OF x] mset_insort)
  have "mset (map blk_id bs') = mset (blk_id (bs ! i) # map blk_id ?r)"
    using m' by (simp only: mset_map image_mset_add_mset blk_meta.sel mset.simps)
  then show "distinct (map blk_id bs')"
    by (rule mset_eq_imp_distinct_iff [THEN iffD2]) (use d in \<open>simp add: image_Un\<close>)
  show "blk_id ` set bs' = blk_id ` set bs"
    unfolding bs'_def by (subst (3) split) (simp add: image_Un)
qed

lemma pick_block_less: "bs \<noteq> [] \<Longrightarrow> pick_block bs query < length bs"
  using length_takeWhile_le [of "\<lambda>m. m \<le> query" bs] unfolding pick_block_def
  by (cases bs) (auto simp del: takeWhile.simps)

text \<open>What a successful \<open>handle_alloc\<close> changes.\<close>

lemma handle_alloc_ok:
  assumes "alloc_wf a" "handle_alloc clock t delay dur a = Inr (a', b)"
  shows "0 < t \<and> t < N_MAX_TENANTS \<and> b < N_BLOCKS \<and> n_waiting (tenant_req a ! t) = 0"
    and "block_queue a' = (block_queue a)[b := block_queue a ! b @ [t]]"
    and "to_notify a' = (if block_queue a ! b = [] then insert t (to_notify a) else to_notify a)"
    and "length (tenant_req a') = length (tenant_req a)"
    and "\<forall>u < N_MAX_TENANTS. n_waiting (tenant_req a' ! u) =
           (if u = t \<and> block_queue a ! b \<noteq> [] then 1 else n_waiting (tenant_req a ! u))"
    and "sorted (blocks_sorted a') \<and> distinct (map blk_id (blocks_sorted a')) \<and>
         blk_id ` set (blocks_sorted a') = {..<N_BLOCKS}"
proof -
  note l = wf_lengths [OF assms(1)]
  have "blocks_sorted a \<noteq> []" using l(1) by auto
  define i where "i = pick_block (blocks_sorted a) (Blk_meta 0 (get_real_ts clock + delay))"
  have i: "i < N_BLOCKS" unfolding i_def using pick_block_less [OF \<open>blocks_sorted a \<noteq> []\<close>] l(1) by simp
  note r = assms(2) [unfolded handle_alloc_def Let_def, folded i_def]
  show t: "0 < t \<and> t < N_MAX_TENANTS \<and> b < N_BLOCKS \<and> n_waiting (tenant_req a ! t) = 0"
    using r l by (auto simp: res_elims split: if_splits)
  have b: "b = blk_id (blocks_sorted a ! i)"
    using r l by (auto simp: res_elims split: if_splits)
  show "block_queue a' = (block_queue a)[b := block_queue a ! b @ [t]]"
    "to_notify a' = (if block_queue a ! b = [] then insert t (to_notify a) else to_notify a)"
    "length (tenant_req a') = length (tenant_req a)"
    using r b by (auto simp: res_elims split: if_splits)
  show "\<forall>u < N_MAX_TENANTS. n_waiting (tenant_req a' ! u) =
           (if u = t \<and> block_queue a ! b \<noteq> [] then 1 else n_waiting (tenant_req a ! u))"
    using r b l by (auto simp: res_elims nth_list_update split: if_splits)
  obtain ts where bs: "blocks_sorted a' =
      insort_insert (Blk_meta (blk_id (blocks_sorted a ! i)) ts)
        (take i (blocks_sorted a) @ drop (Suc i) (blocks_sorted a))"
    using r by (auto simp: res_elims split: if_splits)
  show "sorted (blocks_sorted a') \<and> distinct (map blk_id (blocks_sorted a')) \<and>
         blk_id ` set (blocks_sorted a') = {..<N_BLOCKS}"
    unfolding bs using move_block [of i "blocks_sorted a" ts] assms(1) i l
    by (simp add: alloc_wf_def)
qed

lemma handle_alloc_total:
  assumes "alloc_wf a" "0 < t" "t < N_MAX_TENANTS" "n_waiting (tenant_req a ! t) = 0"
  shows "\<exists>a' b. handle_alloc clock t delay dur a = Inr (a', b)"
proof -
  note l = wf_lengths [OF assms(1)]
  have "blocks_sorted a \<noteq> []" using l(1) by auto
  note i = pick_block_less [OF this, of "Blk_meta 0 (get_real_ts clock + delay)"]
  then have "blk_id (blocks_sorted a ! pick_block (blocks_sorted a)
      (Blk_meta 0 (get_real_ts clock + delay))) \<in> blk_id ` set (blocks_sorted a)" by simp
  also have "\<dots> = {..<N_BLOCKS}" using assms(1) by (simp add: alloc_wf_def)
  finally show ?thesis
    using assms(2-4) l i by (simp add: handle_alloc_def Let_def at_res_lt)
qed

lemma handle_alloc_wf:
  assumes "alloc_wf a" "handle_alloc clock t delay dur a = Inr (a', b)"
  shows "alloc_wf a'"
    and "occ a' u = occ a u + (if u = t then 1 else 0)"
    and "waits a' u = waits a u + (if u = t \<and> block_queue a ! b \<noteq> [] then 1 else 0)"
proof -
  note r = handle_alloc_ok [OF assms] and l = wf_lengths [OF assms(1)]
  have b: "b < length (block_queue a)" using r(1) l(2) by simp
  show "occ a' u = occ a u + (if u = t then 1 else 0)" for u
    using sum_map_update [OF b, of "\<lambda>q. count_list q u" "block_queue a ! b @ [t]"]
    unfolding occ_def r(2) by simp
  show w: "waits a' u = waits a u + (if u = t \<and> block_queue a ! b \<noteq> [] then 1 else 0)" for u
    using sum_map_update [OF b, of "\<lambda>q. count_list (tl q) u" "block_queue a ! b @ [t]"]
    unfolding waits_def r(2) by (cases "block_queue a ! b") auto
  have "\<forall>q \<in> set (block_queue a'). \<forall>t \<in> set q. 0 < t \<and> t < N_MAX_TENANTS"
  proof
    fix q assume "q \<in> set (block_queue a')"
    then have "q = block_queue a ! b @ [t] \<or> q \<in> set (block_queue a)"
      unfolding r(2) using set_update_subset_insert by fastforce
    moreover have "\<forall>q \<in> set (block_queue a). \<forall>t \<in> set q. 0 < t \<and> t < N_MAX_TENANTS"
      using assms(1) unfolding alloc_wf_def by blast
    ultimately show "\<forall>t \<in> set q. 0 < t \<and> t < N_MAX_TENANTS"
      using r(1) nth_mem [OF b] by auto
  qed
  moreover have "unat (n_waiting (tenant_req a' ! u)) = waits a' u" if "u < N_MAX_TENANTS" for u
  proof (cases "u = t \<and> block_queue a ! b \<noteq> []")
    case True
    then have "waits a t = 0" using wf_waiting [OF assms(1)] r(1) by blast
    then show ?thesis using r(5) that w True by simp
  next
    case False
    then show ?thesis using r(5) that w assms(1) by (auto simp: alloc_wf_def)
  qed
  ultimately show "alloc_wf a'"
    using r(2,4,6) l unfolding alloc_wf_def by simp
qed

text \<open>What a successful \<open>handle_free\<close> changes.\<close>

lemma handle_free_ok:
  assumes "handle_free t b a = Inr a'"
  shows "0 < t \<and> b < length (block_queue a) \<and> (\<exists>q. block_queue a ! b = t # q)"
    and "block_queue a' = (block_queue a)[b := tl (block_queue a ! b)]"
    and "blocks_sorted a' = blocks_sorted a"
    and "length (tenant_req a') = length (tenant_req a)"
    and "tl (block_queue a ! b) = [] \<Longrightarrow> tenant_req a' = tenant_req a \<and> to_notify a' = to_notify a"
    and "tl (block_queue a ! b) = u # q \<Longrightarrow>
           (\<forall>v < length (tenant_req a). n_waiting (tenant_req a' ! v) =
              (if v = u then n_waiting (tenant_req a ! v) - 1 else n_waiting (tenant_req a ! v))) \<and>
           to_notify a' = (if n_waiting (tenant_req a ! u) = 1 then insert u (to_notify a) else to_notify a)"
proof -
  note r = assms [unfolded handle_free_def Let_def]
  have n: "x \<noteq> [] \<Longrightarrow> x = x ! 0 # tl x" for x :: "nat list" by (cases x) auto
  show "0 < t \<and> b < length (block_queue a) \<and> (\<exists>q. block_queue a ! b = t # q)"
    using r n by (auto simp: res_elims split: if_splits)
  show "block_queue a' = (block_queue a)[b := tl (block_queue a ! b)]"
    "blocks_sorted a' = blocks_sorted a" "length (tenant_req a') = length (tenant_req a)"
    using r by (auto simp: res_elims split: if_splits)
  show "tl (block_queue a ! b) = [] \<Longrightarrow> tenant_req a' = tenant_req a \<and> to_notify a' = to_notify a"
    using r by (auto simp: res_elims)
  show "tl (block_queue a ! b) = u # q \<Longrightarrow>
           (\<forall>v < length (tenant_req a). n_waiting (tenant_req a' ! v) =
              (if v = u then n_waiting (tenant_req a ! v) - 1 else n_waiting (tenant_req a ! v))) \<and>
           to_notify a' = (if n_waiting (tenant_req a ! u) = 1 then insert u (to_notify a) else to_notify a)"
    using r by (auto simp: res_elims nth_list_update split: if_splits)
qed

lemma queue_mem:
  "alloc_wf a \<Longrightarrow> b < N_BLOCKS \<Longrightarrow> t \<in> set (block_queue a ! b) \<Longrightarrow> 0 < t \<and> t < N_MAX_TENANTS"
  unfolding alloc_wf_def by (metis nth_mem)

lemma queue_waits:
  assumes "alloc_wf a" "b < N_BLOCKS" "waits a t = 0"
  shows "t \<notin> set (tl (block_queue a ! b))"
proof -
  have "block_queue a ! b \<in> set (block_queue a)" using wf_lengths(2) [OF assms(1)] assms(2) by simp
  then show ?thesis using assms(3) waits_zero by blast
qed

lemma handle_free_wf:
  assumes "alloc_wf a" "handle_free t b a = Inr a'"
  shows "alloc_wf a'"
    and "occ a' u = occ a u - (if u = t then 1 else 0)"
    and "waits a u = waits a' u + (if \<exists>q. tl (block_queue a ! b) = u # q then 1 else 0)"
proof -
  note r = handle_free_ok [OF assms(2)] and l = wf_lengths [OF assms(1)]
  have b: "b < length (block_queue a)" using r(1) by blast
  obtain q where q: "block_queue a ! b = t # q" using r(1) by blast
  show "occ a' u = occ a u - (if u = t then 1 else 0)" for u
    using sum_map_update [OF b, of "\<lambda>q. count_list q u" q]
    unfolding occ_def r(2) by (simp add: q split: if_splits)
  show w: "waits a u = waits a' u + (if \<exists>q. tl (block_queue a ! b) = u # q then 1 else 0)" for u
    using sum_map_update [OF b, of "\<lambda>q. count_list (tl q) u" q]
    unfolding waits_def r(2) by (cases q) (auto simp: q split: if_splits)
  have "\<forall>q \<in> set (block_queue a'). \<forall>t \<in> set q. 0 < t \<and> t < N_MAX_TENANTS"
  proof
    fix x assume "x \<in> set (block_queue a')"
    then have "x = q \<or> x \<in> set (block_queue a)"
      unfolding r(2) q using set_update_subset_insert by fastforce
    moreover have "\<forall>q \<in> set (block_queue a). \<forall>t \<in> set q. 0 < t \<and> t < N_MAX_TENANTS"
      using assms(1) unfolding alloc_wf_def by blast
    ultimately show "\<forall>t \<in> set x. 0 < t \<and> t < N_MAX_TENANTS"
      using nth_mem [OF b] q by auto
  qed
  moreover have "unat (n_waiting (tenant_req a' ! u)) = waits a' u" if u: "u < N_MAX_TENANTS" for u
  proof (cases q)
    case Nil
    then show ?thesis using r(5) w [of u] q assms(1) u by (simp add: alloc_wf_def)
  next
    case (Cons v q')
    then have "n_waiting (tenant_req a' ! u) =
        (if u = v then n_waiting (tenant_req a ! u) - 1 else n_waiting (tenant_req a ! u))"
      using r(6) [of v q'] q u l by simp
    moreover have "unat (n_waiting (tenant_req a ! u)) = waits a u"
      using assms(1) u by (simp add: alloc_wf_def)
    ultimately show ?thesis
      using w [of u] Cons q by (auto simp: unat_minus_one unat_eq_zero [symmetric])
  qed
  ultimately show "alloc_wf a'"
    using r(2,3,4) l assms(1) unfolding alloc_wf_def by simp
qed

lemma handle_free_total:
  assumes "alloc_wf a" "b < N_BLOCKS" "block_queue a ! b = t # q"
  shows "\<exists>a'. handle_free t b a = Inr a'"
proof -
  note l = wf_lengths [OF assms(1)]
  have m: "\<forall>u \<in> set (t # q). 0 < u \<and> u < N_MAX_TENANTS"
    using queue_mem [OF assms(1,2)] assms(3) by simp
  then show ?thesis
    using l assms(2,3) by (cases q) (simp_all add: handle_free_def Let_def at_res_lt)
qed

section \<open>The allocator under any caller\<close>

datatype alloc_call = Alloc "u64 \<times> u64" nat u64 u64 | Free nat nat

primrec alloc_call_run :: "alloc_call \<Rightarrow> alloc_state \<Rightarrow> alloc_state result" where
  "alloc_call_run (Alloc clock t delay dur) a = bind_res (handle_alloc clock t delay dur a) (\<lambda>(a, b). ok a)"
| "alloc_call_run (Free t b) a = handle_free t b a"

primrec alloc_calls :: "alloc_call list \<Rightarrow> alloc_state \<Rightarrow> alloc_state result" where
  "alloc_calls [] a = ok a"
| "alloc_calls (c # cs) a = bind_res (alloc_call_run c a) (alloc_calls cs)"

definition alloc_next :: "alloc_state \<Rightarrow> alloc_state \<Rightarrow> bool" where
  "alloc_next a a' \<longleftrightarrow> (\<exists>c. alloc_call_run c a = Inr a')"

interpretation alloc_sys: inv_system "\<lambda>a. a = handle_init alloc_static" alloc_next alloc_wf
proof
  fix a a'
  assume wf: "alloc_wf a" and "alloc_next a a'"
  then obtain c where c: "alloc_call_run c a = Inr a'" by (auto simp: alloc_next_def)
  show "alloc_wf a'"
    using c handle_alloc_wf(1) [OF wf] handle_free_wf(1) [OF wf]
    by (cases c) (auto simp: res_elims)
qed (simp add: handle_init_wf)

lemma alloc_calls_wf: "alloc_calls cs a = Inr a' \<Longrightarrow> alloc_wf a \<Longrightarrow> alloc_wf a'"
proof (induction cs arbitrary: a)
  case (Cons c cs)
  then obtain x where "alloc_call_run c a = Inr x" "alloc_calls cs x = Inr a'" by (auto simp: res_elims)
  then show ?case using Cons alloc_sys.step_inv [of a x] by (auto simp: alloc_next_def)
qed simp

text \<open>
  C33. Blocks are handed over first come, first served, whatever the callers do: after any calls
  of \<open>handle_alloc\<close> and \<open>handle_free\<close> that pass the assertions, \<open>n_waiting\<close> of a tenant is the
  number of places it has in queues that are not at the head, and a tenant for which it is 0 is at the head of
  every queue it is in.
\<close>

theorem alloc_fifo:
  assumes "alloc_calls cs (handle_init alloc_static) = Inr a" "t < N_MAX_TENANTS"
  shows "unat (n_waiting (tenant_req a ! t)) = waits a t \<and>
    (n_waiting (tenant_req a ! t) = 0 \<longrightarrow>
       (\<forall>b < N_BLOCKS. t \<in> set (block_queue a ! b) \<longrightarrow> hd (block_queue a ! b) = t))"
proof -
  have wf: "alloc_wf a" using alloc_calls_wf [OF assms(1) handle_init_wf] .
  have "hd (block_queue a ! b) = t"
    if "n_waiting (tenant_req a ! t) = 0" "b < N_BLOCKS" "t \<in> set (block_queue a ! b)" for b
    using queue_waits [OF wf that(2)] wf_waiting [OF wf assms(2)] that
    by (cases "block_queue a ! b") auto
  then show ?thesis using wf assms(2) by (simp add: alloc_wf_def)
qed

definition demo_calls :: "alloc_call list" where
  "demo_calls = [Alloc (0, 0) 1 5 5, Alloc (0, 0) 2 20 5, Free 1 31]"

lemma demo_calls_run:
  "case alloc_calls demo_calls (handle_init alloc_static) of Inl _ \<Rightarrow> False
   | Inr a \<Rightarrow> n_waiting (tenant_req a ! 2) = 0 \<and> block_queue a ! 31 = [2] \<and> to_notify a = {1, 2}"
  by code_simp

theorem alloc_fifo_witness:
  "\<exists>a. alloc_calls demo_calls (handle_init alloc_static) = Inr a \<and> block_queue a ! 31 = [2] \<and> waits a 2 = 0"
proof -
  obtain a where a: "alloc_calls demo_calls (handle_init alloc_static) = Inr a"
      "n_waiting (tenant_req a ! 2) = 0" "block_queue a ! 31 = [2]"
    using demo_calls_run by (cases "alloc_calls demo_calls (handle_init alloc_static)") auto
  then show ?thesis using alloc_fifo [OF a(1), of 2] by auto
qed

text \<open>The block \<open>upper_bound\<close> and the step back lead to: the greatest one not after the query,
  or the first of all.\<close>

lemma pick_block_best:
  fixes bs :: "blk_meta list" and query :: blk_meta
  assumes "sorted bs" "bs \<noteq> []"
  defines "m \<equiv> bs ! pick_block bs query"
  shows "(\<exists>x \<in> set bs. x \<le> query) \<Longrightarrow> m \<le> query \<and> (\<forall>x \<in> set bs. x \<le> query \<longrightarrow> x \<le> m)"
    and "\<not> (\<exists>x \<in> set bs. x \<le> query) \<Longrightarrow> \<forall>x \<in> set bs. m \<le> x"
proof -
  define p where "p = takeWhile (\<lambda>x. x \<le> query) bs"
  define r where "r = dropWhile (\<lambda>x. x \<le> query) bs"
  have bs: "bs = p @ r" by (simp add: p_def r_def)
  have r: "\<forall>x \<in> set r. \<not> x \<le> query"
  proof (cases r)
    case (Cons y ys)
    then have "\<not> y \<le> query" using hd_dropWhile [of "\<lambda>x. x \<le> query" bs] by (auto simp: r_def)
    moreover have "\<forall>x \<in> set ys. y \<le> x" using assms(1) Cons by (simp add: bs sorted_append)
    ultimately show ?thesis using Cons by (auto dest: order_trans)
  qed simp
  have p: "\<forall>x \<in> set p. x \<le> query" unfolding p_def by (auto dest: set_takeWhileD)
  have m: "m = (if p = [] then hd r else last p)"
    using assms(2) unfolding m_def pick_block_def p_def [symmetric]
    by (subst (1) bs) (auto simp: nth_append last_conv_nth hd_conv_nth bs)
  have "\<forall>x \<in> set q. x \<le> last q" if "sorted q" for q :: "blk_meta list"
    using that by (induction q) auto
  then have l: "\<forall>x \<in> set p. x \<le> last p" using assms(1) by (simp add: bs sorted_append)
  show "(\<exists>x \<in> set bs. x \<le> query) \<Longrightarrow> m \<le> query \<and> (\<forall>x \<in> set bs. x \<le> query \<longrightarrow> x \<le> m)"
    using r p l m unfolding bs by (cases "p = []") auto
  assume "\<not> (\<exists>x \<in> set bs. x \<le> query)"
  then have "p = []" using p bs by (cases p) auto
  then show "\<forall>x \<in> set bs. m \<le> x"
    using assms(1,2) m unfolding bs by (cases r) auto
qed

lemma le_query:
  "Blk_meta b ts \<le> Blk_meta 0 start \<longleftrightarrow> ts < start \<or> ts = start \<and> b = 0"
  by (auto simp: less_eq_blk_meta_def blk_meta_cmp_def)

lemma le_ranked:
  "x \<le> y \<longleftrightarrow> est_finish_ts x < est_finish_ts y \<or> est_finish_ts x = est_finish_ts y \<and> blk_id x \<le> blk_id y" for x y :: blk_meta
  by (cases x; cases y) (auto simp: less_eq_blk_meta_def blk_meta_cmp_def)

lemma set_take_drop_nth:
  assumes "i < length xs" "distinct xs"
  shows "set (take i xs @ drop (Suc i) xs) = set xs - {xs ! i}"
proof -
  have "distinct (take i xs @ xs ! i # drop (Suc i) xs)" using assms by (simp flip: id_take_nth_drop)
  moreover have "set xs = set (take i xs @ xs ! i # drop (Suc i) xs)" using assms(1) by (simp flip: id_take_nth_drop)
  ultimately show ?thesis by auto
qed

text \<open>
  C32. The block \<open>handle_alloc\<close> gives out, exactly. Blocks are ranked by their expected finish and then by their number. A block
  is early for a request if it is expected to finish before the requested start; one that finishes at the very start is
  early only if it is block 0. If some block is early, the request gets the last early one in this ranking, and
  otherwise the first block of all. The tenant is appended to the queue of this block and no other queue changes; this
  block alone is booked anew, until the requested finish plus the delay the tenant will suffer.
\<close>

theorem alloc_best_fit:
  assumes "alloc_calls cs (handle_init alloc_static) = Inr a"
    and "handle_alloc clock t delay dur a = Inr (a', b)"
  defines "start \<equiv> get_real_ts clock + delay"
  defines "early \<equiv> \<lambda>x. est_finish_ts x < start \<or> est_finish_ts x = start \<and> blk_id x = 0"
    and "ranked \<equiv> \<lambda>x y. est_finish_ts x < est_finish_ts y \<or> est_finish_ts x = est_finish_ts y \<and> blk_id x \<le> blk_id y"
  shows "\<exists>m \<in> set (blocks_sorted a). blk_id m = b \<and>
    (if \<exists>x \<in> set (blocks_sorted a). early x then early m \<and> (\<forall>x \<in> set (blocks_sorted a). early x \<longrightarrow> ranked x m)
     else \<forall>x \<in> set (blocks_sorted a). ranked m x) \<and>
    set (blocks_sorted a') = insert (Blk_meta b (start + dur + (if est_finish_ts m \<ge> start then est_finish_ts m - start else 0)))
      (set (blocks_sorted a) - {m}) \<and>
    block_queue a' = (block_queue a)[b := block_queue a ! b @ [t]]"
proof -
  have wf: "alloc_wf a" using alloc_calls_wf [OF assms(1) handle_init_wf] .
  then have srt: "sorted (blocks_sorted a)" "distinct (blocks_sorted a)" "blocks_sorted a \<noteq> []"
    using wf_lengths(1) [OF wf] by (auto simp: alloc_wf_def distinct_map)
  define i where "i = pick_block (blocks_sorted a) (Blk_meta 0 start)"
  define m where "m = blocks_sorted a ! i"
  note best = pick_block_best [OF srt(1,3), of "Blk_meta 0 start", folded i_def, folded m_def]
  have i: "i < length (blocks_sorted a)" unfolding i_def using srt by (simp add: pick_block_less)
  then have mem: "m \<in> set (blocks_sorted a)" by (simp add: m_def)
  have e: "x \<le> Blk_meta 0 start \<longleftrightarrow> early x" for x
    using le_query [of "blk_id x" "est_finish_ts x" start] by (simp add: early_def)
  have r: "x \<le> y \<longleftrightarrow> ranked x y" for x y :: blk_meta by (simp add: le_ranked ranked_def)
  have pick: "if \<exists>x \<in> set (blocks_sorted a). early x then early m \<and> (\<forall>x \<in> set (blocks_sorted a). early x \<longrightarrow> ranked x m)
      else \<forall>x \<in> set (blocks_sorted a). ranked m x"
    using best [unfolded e, unfolded r] by simp
  have rest: "set (take i (blocks_sorted a) @ drop (Suc i) (blocks_sorted a)) = set (blocks_sorted a) - {m}"
    using set_take_drop_nth [OF i srt(2)] by (simp add: m_def)
  note run = assms(2) [unfolded handle_alloc_def Let_def, folded assms(3), folded i_def]
  have "blk_id m = b" "block_queue a' = (block_queue a)[b := block_queue a ! b @ [t]]"
    "blocks_sorted a' = insort_insert (Blk_meta b (start + dur + (if est_finish_ts m \<ge> start then est_finish_ts m - start else 0)))
      (take i (blocks_sorted a) @ drop (Suc i) (blocks_sorted a))"
    using run by (auto simp: res_elims m_def split: if_splits)
  then show ?thesis using mem pick rest by (intro bexI [OF _ mem]) (simp add: set_insort_insert)
qed

text \<open>Two blocks finish at 5 and at 10; a request for 10 gets the one that finishes at 5.\<close>

theorem alloc_best_fit_witness:
  "\<exists>a a'. alloc_calls [Alloc (0, 0) 1 0 5, Alloc (0, 0) 2 0 10] (handle_init alloc_static) = Inr a \<and>
     {Blk_meta 0 5, Blk_meta 1 10} \<subseteq> set (blocks_sorted a) \<and> handle_alloc (0, 0) 3 10 5 a = Inr (a', 0) \<and>
     set (blocks_sorted a') = insert (Blk_meta 0 15) (set (blocks_sorted a) - {Blk_meta 0 5})"
proof -
  have "case alloc_calls [Alloc (0, 0) 1 0 5, Alloc (0, 0) 2 0 10] (handle_init alloc_static) of Inl _ \<Rightarrow> False
    | Inr a \<Rightarrow> (case handle_alloc (0, 0) 3 10 5 a of Inl _ \<Rightarrow> False
        | Inr r \<Rightarrow> snd r = 0 \<and> Blk_meta 0 5 \<in> set (blocks_sorted a) \<and> Blk_meta 1 10 \<in> set (blocks_sorted a) \<and>
            (\<forall>m \<in> set (blocks_sorted a). blk_id m = 0 \<longrightarrow> m = Blk_meta 0 5))"
    by code_simp
  then obtain a a' where a: "alloc_calls [Alloc (0, 0) 1 0 5, Alloc (0, 0) 2 0 10] (handle_init alloc_static) = Inr a"
      "handle_alloc (0, 0) 3 10 5 a = Inr (a', 0)" "Blk_meta 0 5 \<in> set (blocks_sorted a)" "Blk_meta 1 10 \<in> set (blocks_sorted a)"
      "\<forall>m \<in> set (blocks_sorted a). blk_id m = 0 \<longrightarrow> m = Blk_meta 0 5"
    by (auto split: sum.splits)
  obtain m where m: "m \<in> set (blocks_sorted a)" "blk_id m = 0"
      "set (blocks_sorted a') = insert (Blk_meta 0 (get_real_ts (0, 0) + 10 + 5 + (if est_finish_ts m \<ge> get_real_ts (0, 0) + 10
         then est_finish_ts m - (get_real_ts (0, 0) + 10) else 0))) (set (blocks_sorted a) - {m})"
    using alloc_best_fit [OF a(1,2)] by blast
  have "m = Blk_meta 0 5" using a(5) m(1,2) by blast
  then have "set (blocks_sorted a') = insert (Blk_meta 0 15) (set (blocks_sorted a) - {Blk_meta 0 5})"
    using m(3) by (simp add: get_real_ts_def)
  then show ?thesis using a by blast
qed

section \<open>Server and tenants together\<close>

abbreviation hnd :: "sched_sys \<Rightarrow> alloc_state" where
  "hnd s \<equiv> handle (srv s)"

abbreviation inf_of :: "sched_sys \<Rightarrow> nat \<Rightarrow> tenant_info" where
  "inf_of s t \<equiv> infos (srv s) (Suc t)"

text \<open>
  A tenant in its \<open>R\<close>-th round: every node has made \<open>R\<close> or \<open>R - 1\<close> calls, and those that have
  made \<open>R\<close> hold the block the server has cached, in whose queue the tenant stands once.
\<close>

definition tenant_base :: "conns \<Rightarrow> sched_sys \<Rightarrow> nat \<Rightarrow> nat \<Rightarrow> bool" where
  "tenant_base conns s t R \<longleftrightarrow>
     (\<forall>g \<in> nodes_of conns t. cl_calls (clients s g) \<le> R \<and> R \<le> Suc (cl_calls (clients s g))) \<and>
     (if R = 0 then occ (hnd s) (Suc t) = 0 \<and> inf_of s t = tenant_info_mk \<and> Suc t \<notin> to_notify (hnd s) \<and>
        (\<forall>g \<in> nodes_of conns t. clients s g = sched_client_mk)
      else (\<exists>g \<in> nodes_of conns t. cl_calls (clients s g) = R) \<and>
        occ (hnd s) (Suc t) = 1 \<and> resp_batch_num (cached (inf_of s t)) = of_nat R \<and>
        unat (alloced_blk_id (cached (inf_of s t))) < N_BLOCKS \<and>
        Suc t \<in> set (block_queue (hnd s) ! unat (alloced_blk_id (cached (inf_of s t)))) \<and>
        n_cached_uses (inf_of s t) = card {g \<in> nodes_of conns t. cl_calls (clients s g) = R} \<and>
        sock_fds (inf_of s t) = {g \<in> nodes_of conns t. 0 < cl_calls (clients s g)} \<and>
        expected_n_fds (inf_of s t) = card (nodes_of conns t) \<and>
        (\<forall>g \<in> nodes_of conns t. cl_calls (clients s g) = R \<longrightarrow>
           cl_blk (clients s g) = alloced_blk_id (cached (inf_of s t))))"

text \<open>The nodes have been told to start, or wait for it.\<close>

definition granted :: "conns \<Rightarrow> sched_sys \<Rightarrow> nat \<Rightarrow> nat \<Rightarrow> bool" where
  "granted conns s t R \<longleftrightarrow>
     (\<forall>g \<in> nodes_of conns t. cl_ready (clients s g) = R \<and> cl_calls (clients s g) = R) \<and>
     Suc t \<notin> to_notify (hnd s) \<and> waits (hnd s) (Suc t) = 0"

definition pending :: "conns \<Rightarrow> sched_sys \<Rightarrow> nat \<Rightarrow> nat \<Rightarrow> bool" where
  "pending conns s t R \<longleftrightarrow> (\<forall>g \<in> nodes_of conns t. Suc (cl_ready (clients s g)) = R) \<and>
     (Suc t \<in> to_notify (hnd s) \<longleftrightarrow> waits (hnd s) (Suc t) = 0)"

definition overdue :: "conns \<Rightarrow> sched_sys \<Rightarrow> nat \<Rightarrow> nat \<Rightarrow> bool" where
  "overdue conns s t R \<longleftrightarrow> waits (hnd s) (Suc t) = 0 \<and>
     (\<forall>g \<in> nodes_of conns t. cl_calls (clients s g) = R)"

definition tenant_mid :: "conns \<Rightarrow> sched_sys \<Rightarrow> nat \<Rightarrow> nat \<Rightarrow> bool" where
  "tenant_mid conns s t R \<longleftrightarrow> tenant_base conns s t R \<and>
     (0 < R \<longrightarrow> granted conns s t R \<or> pending conns s t R)"

definition tenant_ok :: "conns \<Rightarrow> sched_sys \<Rightarrow> nat \<Rightarrow> nat \<Rightarrow> bool" where
  "tenant_ok conns s t R \<longleftrightarrow> tenant_base conns s t R \<and>
     (0 < R \<longrightarrow> granted conns s t R \<or> pending conns s t R \<and> \<not> overdue conns s t R)"

definition sched_inv :: "conns \<Rightarrow> sched_sys \<Rightarrow> bool" where
  "sched_inv conns s \<longleftrightarrow> alloc_wf (hnd s) \<and> 0 \<notin> to_notify (hnd s) \<and> (\<forall>t. \<exists>R. tenant_ok conns s t R)"

lemma tenant_ok_mid: "tenant_ok conns s t R \<Longrightarrow> tenant_mid conns s t R"
  by (auto simp: tenant_ok_def tenant_mid_def)

lemma finite_nodes [simp]: "finite (nodes_of conns t)"
  by (simp add: nodes_of_def)

lemma nodes_disjoint:
  assumes "conns_ok conns" "g \<in> nodes_of conns t" "g \<in> nodes_of conns u"
  shows "t = u"
proof -
  have "(g, t) \<in> set conns" "(g, u) \<in> set conns" using assms(2,3) by (force simp: nodes_of_def)+
  then show ?thesis using assms(1) by (metis conns_ok_def eq_key_imp_eq_value)
qed

lemma sched_inv_init: "sched_inv conns sched_sys_mk"
proof -
  have "tenant_ok conns sched_sys_mk t 0" for t
    by (simp add: tenant_ok_def tenant_base_def sched_sys_mk_def sched_srv_mk_def sched_client_mk_def
      occ_def sum_list_replicate)
  then show ?thesis
    by (auto simp: sched_inv_def sched_sys_mk_def sched_srv_mk_def handle_init_wf)
qed

lemma occ_le1:
  assumes "sched_inv conns s"
  shows "occ (hnd s) x \<le> 1"
proof (cases x)
  case 0
  have "alloc_wf (hnd s)" using assms by (simp add: sched_inv_def)
  then have "occ (hnd s) 0 = 0" by (auto simp: occ_zero alloc_wf_def)
  then show ?thesis using 0 by simp
next
  case (Suc t)
  then show ?thesis
    using assms by (auto simp: sched_inv_def tenant_ok_def tenant_base_def split: if_splits dest!: spec [of _ t])
qed

text \<open>What the calls for one tenant leave of another tenant's place in the queues: it stays, or
  it has become the head of its queue and is to be notified.\<close>

definition same_place :: "alloc_state \<Rightarrow> alloc_state \<Rightarrow> nat \<Rightarrow> bool" where
  "same_place a a' x \<longleftrightarrow> occ a' x = occ a x \<and>
     (\<forall>b < N_BLOCKS. x \<in> set (block_queue a ! b) \<longrightarrow> x \<in> set (block_queue a' ! b)) \<and>
     waits a' x = waits a x \<and> (x \<in> to_notify a' \<longleftrightarrow> x \<in> to_notify a)"

definition moved_up :: "alloc_state \<Rightarrow> alloc_state \<Rightarrow> nat \<Rightarrow> bool" where
  "moved_up a a' x \<longleftrightarrow> occ a' x = occ a x \<and>
     (\<forall>b < N_BLOCKS. x \<in> set (block_queue a ! b) \<longrightarrow> x \<in> set (block_queue a' ! b)) \<and>
     0 < waits a x \<and> waits a' x = 0 \<and> x \<in> to_notify a'"

lemma alloc_same_place:
  assumes "alloc_wf a" "handle_alloc clock t delay dur a = Inr (a', b)" "x \<noteq> t"
  shows "same_place a a' x"
  using handle_alloc_ok(2,3) [OF assms(1,2)] handle_alloc_wf(2,3) [OF assms(1,2), of x] assms(3)
    handle_alloc_ok(1) [OF assms(1,2)] wf_lengths(2) [OF assms(1)]
  by (auto simp: same_place_def nth_list_update)

lemma free_moves:
  assumes "alloc_wf a" "handle_free t b a = Inr a'" "x \<noteq> t" "occ a x \<le> 1"
  shows "same_place a a' x \<or> moved_up a a' x"
proof -
  note r = handle_free_ok [OF assms(2)] and w = handle_free_wf(2,3) [OF assms(1,2), of x]
  obtain q where q: "block_queue a ! b = t # q" using r(1) by blast
  have mem: "\<forall>c < N_BLOCKS. x \<in> set (block_queue a ! c) \<longrightarrow> x \<in> set (block_queue a' ! c)"
    using r(1,2) q assms(3) wf_lengths(2) [OF assms(1)] by (auto simp: nth_list_update)
  show ?thesis
  proof (cases q)
    case Nil
    then show ?thesis using r(5) w q assms(3) mem by (simp add: same_place_def)
  next
    case (Cons v q')
    note n = r(6) [of v q']
    show ?thesis
    proof (cases "x = v")
      case True
      then have "waits a x = Suc (waits a' x)" "x < N_MAX_TENANTS"
        using w(2) q Cons queue_mem [OF assms(1), of b v] r(1) wf_lengths(2) [OF assms(1)] by auto
      moreover have "waits a x \<le> 1" using waits_le_occ assms(4) order_trans by blast
      ultimately have "waits a x = 1" "waits a' x = 0" "unat (n_waiting (tenant_req a ! x)) = 1"
        using assms(1) by (auto simp: alloc_wf_def)
      then have "n_waiting (tenant_req a ! x) = 1" by (metis unat_1 word_unat_eq_iff)
      then show ?thesis
        using True n q Cons w(1) assms(3) mem \<open>waits a x = 1\<close> \<open>waits a' x = 0\<close> by (simp add: moved_up_def)
    next
      case False
      then show ?thesis using n q Cons w assms(3) mem by (simp add: same_place_def)
    qed
  qed
qed

text \<open>The system after the answer and before the start messages.\<close>

definition answered :: "sched_sys \<Rightarrow> nat \<Rightarrow> sched_srv \<Rightarrow> alloc_resp \<Rightarrow> sched_sys" where
  "answered s fd srv' resp = \<lparr>srv = srv', clients = (clients s)(fd := (clients s fd)
     \<lparr>cl_calls := cl_calls (clients s fd) + 1, cl_blk := alloced_blk_id resp\<rparr>)\<rparr>"

lemma answered_simps [simp]:
  "srv (answered s fd srv' resp) = srv'"
  "g \<noteq> fd \<Longrightarrow> clients (answered s fd srv' resp) g = clients s g"
  "clients (answered s fd srv' resp) fd =
     (clients s fd)\<lparr>cl_calls := cl_calls (clients s fd) + 1, cl_blk := alloced_blk_id resp\<rparr>"
  by (simp_all add: answered_def)

lemma base_other:
  assumes "tenant_base conns s u R" "\<forall>g \<in> nodes_of conns u. clients s' g = clients s g"
    "inf_of s' u = inf_of s u"
    "same_place (hnd s) (hnd s') (Suc u) \<or> 0 < R \<and> moved_up (hnd s) (hnd s') (Suc u)"
  shows "tenant_base conns s' u R"
proof -
  have e: "{g \<in> nodes_of conns u. cl_calls (clients s' g) = R} = {g \<in> nodes_of conns u. cl_calls (clients s g) = R}"
    "{g \<in> nodes_of conns u. 0 < cl_calls (clients s' g)} = {g \<in> nodes_of conns u. 0 < cl_calls (clients s g)}"
    using assms(2) by auto
  show ?thesis
    using assms unfolding tenant_base_def e by (auto simp: same_place_def moved_up_def split: if_splits)
qed

lemma ok_other:
  assumes "tenant_ok conns s u R" "\<forall>g \<in> nodes_of conns u. clients s' g = clients s g"
    "inf_of s' u = inf_of s u" "same_place (hnd s) (hnd s') (Suc u)"
  shows "tenant_ok conns s' u R"
  using assms base_other [of conns s u R s'] unfolding tenant_ok_def granted_def pending_def overdue_def same_place_def
  by simp

lemma mid_other:
  assumes "tenant_mid conns s u R" "\<forall>g \<in> nodes_of conns u. clients s' g = clients s g"
    "inf_of s' u = inf_of s u"
    "same_place (hnd s) (hnd s') (Suc u) \<or> moved_up (hnd s) (hnd s') (Suc u)"
  shows "tenant_mid conns s' u R"
proof (cases "same_place (hnd s) (hnd s') (Suc u)")
  case True
  then show ?thesis
    using assms(1-3) base_other [of conns s u R s'] unfolding tenant_mid_def granted_def pending_def same_place_def
    by simp
next
  case False
  then have m: "moved_up (hnd s) (hnd s') (Suc u)" using assms(4) by simp
  then have "occ (hnd s) (Suc u) \<noteq> 0" using waits_le_occ [of "hnd s" "Suc u"] by (auto simp: moved_up_def)
  then have "0 < R" using assms(1) by (cases R) (simp_all add: tenant_mid_def tenant_base_def)
  then show ?thesis
    using assms(1-3) m base_other [of conns s u R s'] unfolding tenant_mid_def granted_def pending_def moved_up_def
    by simp
qed

text \<open>A request for a batch the server has cached.\<close>

lemma reply_cached:
  assumes "tenant_ok conns s t R" "fd \<in> nodes_of conns t" "Suc (cl_calls (clients s fd)) = R"
  defines "req \<equiv> update_alloc_req (card (nodes_of conns t)) t (cl_blk (clients s fd)) (of_nat (cl_calls (clients s fd)))"
  shows "\<exists>srv' resp. sched_reply clock fd req (srv s) = Inr (srv', resp) \<and>
    resp_batch_num resp = req_batch_num req \<and> handle srv' = hnd s \<and>
    (\<forall>x. x \<noteq> Suc t \<longrightarrow> infos srv' x = infos (srv s) x) \<and>
    tenant_mid conns (answered s fd srv' resp) t R"
proof -
  let ?N = "nodes_of conns t" and ?i = "inf_of s t"
  let ?i' = "?i\<lparr>sock_fds := insert fd (sock_fds ?i), expected_n_fds := card ?N, n_cached_uses := n_cached_uses ?i + 1\<rparr>"
  let ?srv = "\<lparr>handle = hnd s, infos = (infos (srv s))(Suc t := ?i')\<rparr>"
  let ?s = "answered s fd ?srv (cached ?i)"
  have R: "0 < R" "R \<noteq> 0" "of_nat R = 1 + (of_nat (cl_calls (clients s fd)) :: u32)"
    by (simp_all add: assms(3) [symmetric])
  have "cl_calls (clients s fd) \<noteq> R" using assms(3) by simp
  then have "\<not> granted conns s t R" using assms(2) unfolding granted_def by blast
  then have base: "tenant_base conns s t R" and pend: "pending conns s t R"
    using assms(1) R(1) unfolding tenant_ok_def by blast+
  have b: "resp_batch_num (cached ?i) = req_batch_num req"
    using base R by (simp add: tenant_base_def req_def update_alloc_req_def)
  have r: "sched_reply clock fd req (srv s) = Inr (?srv, cached ?i)"
    using b by (simp add: sched_reply_def Let_def req_def update_alloc_req_def)
  have "{g \<in> ?N. cl_calls (clients ?s g) = R} = insert fd {g \<in> ?N. cl_calls (clients s g) = R}"
    using assms(2,3) by (auto simp: answered_def)
  then have uses: "card {g \<in> ?N. cl_calls (clients ?s g) = R} = Suc (card {g \<in> ?N. cl_calls (clients s g) = R})"
    using assms(3) by (simp add: card_insert_if)
  have socks: "{g \<in> ?N. 0 < cl_calls (clients ?s g)} = insert fd {g \<in> ?N. 0 < cl_calls (clients s g)}"
    using assms(2) by (auto simp: answered_def)
  have "tenant_base conns ?s t R"
    using base R(2) assms(2,3) unfolding tenant_base_def uses socks
    by (simp add: answered_def) blast
  moreover have "pending conns ?s t R"
    using pend by (simp add: pending_def answered_def)
  ultimately have "tenant_mid conns ?s t R" by (simp add: tenant_mid_def)
  then show ?thesis using r b by (intro exI [of _ ?srv] exI [of _ "cached ?i"]) simp
qed

text \<open>The first request for a batch: the tenant gives its block back, if it has one.\<close>

lemma free_notify_pos: "alloc_wf a \<Longrightarrow> handle_free t b a = Inr a' \<Longrightarrow> 0 \<notin> to_notify a \<Longrightarrow> 0 \<notin> to_notify a'"
  using handle_free_ok(1,5,6) [of t b a a'] queue_mem [of a b] wf_lengths(2) [of a]
  by (cases "tl (block_queue a ! b)") (auto split: if_splits)

lemma fresh_free:
  assumes "sched_inv conns s" "tenant_ok conns s t R" "fd \<in> nodes_of conns t" "cl_calls (clients s fd) = R"
    "R \<le> cl_ready (clients s fd)"
  defines "blk \<equiv> cl_blk (clients s fd)"
  shows "\<exists>h. (if blk \<noteq> SCHED_NO_BLOCK then handle_free (Suc t) (unat blk) (hnd s) else ok (hnd s)) = Inr h \<and>
    alloc_wf h \<and> occ h (Suc t) = 0 \<and> Suc t \<notin> to_notify h \<and> 0 \<notin> to_notify h \<and>
    (\<forall>x. x \<noteq> Suc t \<longrightarrow> same_place (hnd s) h x \<or> 0 < R \<and> moved_up (hnd s) h x)"
proof (cases "R = 0")
  case True
  then have "clients s fd = sched_client_mk" "occ (hnd s) (Suc t) = 0" "Suc t \<notin> to_notify (hnd s)"
    using assms(2,3) by (simp_all add: tenant_ok_def tenant_base_def)
  then show ?thesis
    using assms(1) by (simp add: blk_def sched_client_mk_def no_block_eq sched_inv_def same_place_def)
next
  case False
  have wf: "alloc_wf (hnd s)" "0 \<notin> to_notify (hnd s)" using assms(1) by (simp_all add: sched_inv_def)
  have "\<not> pending conns s t R" using assms(3,5) unfolding pending_def by (metis Suc_n_not_le_n)
  then have g: "granted conns s t R" and base: "tenant_base conns s t R"
    using assms(2) False by (auto simp: tenant_ok_def)
  have b: "unat blk < N_BLOCKS" "Suc t \<in> set (block_queue (hnd s) ! unat blk)" "occ (hnd s) (Suc t) = 1"
    using base False assms(3,4) by (simp_all add: tenant_base_def blk_def)
  moreover have "Suc t \<notin> set (tl (block_queue (hnd s) ! unat blk))"
    using g b(1) queue_waits [OF wf(1)] by (simp add: granted_def)
  ultimately obtain q where q: "block_queue (hnd s) ! unat blk = Suc t # q" "Suc t \<notin> set q"
    by (cases "block_queue (hnd s) ! unat blk") auto
  obtain h where h: "handle_free (Suc t) (unat blk) (hnd s) = Inr h"
    using handle_free_total [OF wf(1) b(1) q(1)] by blast
  have "Suc t \<notin> to_notify h"
    using handle_free_ok(5,6) [OF h] q g by (cases q) (auto simp: granted_def split: if_splits)
  moreover have "blk \<noteq> SCHED_NO_BLOCK" using b(1) by (auto simp: no_block_eq NO_BLOCK_def unat_of_nat)
  moreover have "same_place (hnd s) h x \<or> moved_up (hnd s) h x" if "x \<noteq> Suc t" for x
    using free_moves [OF wf(1) h that] occ_le1 [OF assms(1)] by blast
  ultimately show ?thesis
    using h handle_free_wf [OF wf(1) h] b(3) free_notify_pos [OF wf(1) h wf(2)] False by auto
qed

lemma fresh_all:
  assumes "tenant_ok conns s t R" "fd \<in> nodes_of conns t" "R \<le> cl_ready (clients s fd)"
  shows "\<forall>g \<in> nodes_of conns t. cl_ready (clients s g) = R \<and> cl_calls (clients s g) = R"
proof (cases "R = 0")
  case True
  then show ?thesis using assms(1) by (simp add: tenant_ok_def tenant_base_def sched_client_mk_def)
next
  case False
  have "\<not> pending conns s t R" using assms(2,3) unfolding pending_def by (metis Suc_n_not_le_n)
  then have "granted conns s t R" using assms(1) False unfolding tenant_ok_def by blast
  then show ?thesis unfolding granted_def by blast
qed

lemma place_trans:
  "same_place a b x \<or> 0 < (R::nat) \<and> moved_up a b x \<Longrightarrow> same_place b c x \<Longrightarrow>
   same_place a c x \<or> 0 < R \<and> moved_up a c x"
  unfolding same_place_def moved_up_def by (elim disjE conjE) simp_all

lemma reply_fresh:
  assumes "sched_inv conns s" "tenant_ok conns s t R" "fd \<in> nodes_of conns t" "cl_calls (clients s fd) = R"
    "\<forall>g \<in> nodes_of conns t. R \<le> cl_ready (clients s g)" "Suc t < N_MAX_TENANTS"
  defines "req \<equiv> update_alloc_req (card (nodes_of conns t)) t (cl_blk (clients s fd)) (of_nat (cl_calls (clients s fd)))"
  shows "\<exists>srv' resp. sched_reply clock fd req (srv s) = Inr (srv', resp) \<and>
    resp_batch_num resp = req_batch_num req \<and> alloc_wf (handle srv') \<and> 0 \<notin> to_notify (handle srv') \<and>
    (\<forall>x. x \<noteq> Suc t \<longrightarrow> infos srv' x = infos (srv s) x) \<and>
    (\<forall>x. x \<noteq> Suc t \<longrightarrow> same_place (hnd s) (handle srv') x \<or> 0 < R \<and> moved_up (hnd s) (handle srv') x) \<and>
    tenant_mid conns (answered s fd srv' resp) t (Suc R)"
proof -
  let ?N = "nodes_of conns t" and ?i = "inf_of s t" and ?blk = "cl_blk (clients s fd)"
  obtain h where h: "(if ?blk \<noteq> SCHED_NO_BLOCK then handle_free (Suc t) (unat ?blk) (hnd s) else ok (hnd s)) = Inr h"
      "alloc_wf h" "occ h (Suc t) = 0" "Suc t \<notin> to_notify h" "0 \<notin> to_notify h"
      "\<forall>x. x \<noteq> Suc t \<longrightarrow> same_place (hnd s) h x \<or> 0 < R \<and> moved_up (hnd s) h x"
    using fresh_free [OF assms(1-4)] assms(3,5) by blast
  have w0: "waits h (Suc t) = 0" using waits_le_occ [of h "Suc t"] h(3) by simp
  then have "n_waiting (tenant_req h ! Suc t) = 0" using wf_waiting [OF h(2) assms(6)] by blast
  then obtain h' b where a: "handle_alloc clock (Suc t) COLD_BATCH_DUR_EST_NS HOT_BATCH_DUR_EST_NS h = Inr (h', b)"
    using handle_alloc_total [OF h(2) _ assms(6)] by blast
  note ao = handle_alloc_ok [OF h(2) a] and aw = handle_alloc_wf [OF h(2) a]
  have ub: "unat (of_nat b :: u32) = b" using ao(1) by (simp add: unat_of_nat)
  let ?resp = "\<lparr>resp_batch_num = 1 + of_nat (cl_calls (clients s fd)), alloced_blk_id = of_nat b\<rparr>"
  let ?i' = "?i\<lparr>sock_fds := insert fd (sock_fds ?i), expected_n_fds := card ?N, cached := ?resp, n_cached_uses := 1\<rparr>"
  let ?srv = "\<lparr>handle = h', infos = (infos (srv s))(Suc t := ?i')\<rparr>"
  let ?s = "answered s fd ?srv ?resp"
  have base: "tenant_base conns s t R" using assms(2) by (simp add: tenant_ok_def)
  have "resp_batch_num (cached ?i) = of_nat R"
    using base by (cases "R = 0") (simp_all add: tenant_base_def tenant_info_mk_def)
  then have r: "sched_reply clock fd req (srv s) = Inr (?srv, ?resp)"
    using h(1) a assms(4)
    by (cases "?blk = SCHED_NO_BLOCK") (simp_all add: sched_reply_def Let_def req_def update_alloc_req_def)
  have gr: "\<forall>g \<in> ?N. cl_ready (clients s g) = R \<and> cl_calls (clients s g) = R"
    using fresh_all [OF assms(2,3)] assms(3,5) by blast
  have uses: "{g \<in> ?N. cl_calls (clients ?s g) = Suc R} = {fd}"
    using gr assms(3,4) by (auto simp: answered_def)
  have "sock_fds ?i = {g \<in> ?N. 0 < cl_calls (clients s g)}"
    using base gr by (cases "R = 0") (auto simp: tenant_base_def tenant_info_mk_def)
  then have socks: "{g \<in> ?N. 0 < cl_calls (clients ?s g)} = insert fd (sock_fds ?i)"
    using assms(3) by (auto simp: answered_def)
  have "tenant_base conns ?s t (Suc R)"
    unfolding tenant_base_def uses socks
    using gr assms(3,4) ao(1,2) aw(2) [of "Suc t"] h(3) wf_lengths(2) [OF h(2)] ub by (simp add: answered_def)
  moreover have "pending conns ?s t (Suc R)"
    using gr ao(3) aw(3) [of "Suc t"] h(4) w0 by (simp add: pending_def answered_def)
  ultimately have "tenant_mid conns ?s t (Suc R)" by (simp add: tenant_mid_def)
  moreover have "same_place (hnd s) h' x \<or> 0 < R \<and> moved_up (hnd s) h' x" if "x \<noteq> Suc t" for x
    using h(6) that alloc_same_place [OF h(2) a that] place_trans by blast
  moreover have "0 \<notin> to_notify h'" using ao(3) h(5) by simp
  ultimately show ?thesis
    using r aw(1) by (intro exI [of _ ?srv] exI [of _ ?resp]) (simp add: req_def update_alloc_req_def)
qed

text \<open>The start messages: the scan tells every tenant that is due, and only those.\<close>

definition notified :: "nat \<Rightarrow> sched_sys \<Rightarrow> sched_sys" where
  "notified tid s = \<lparr>srv = fst (sched_notify tid (srv s)),
     clients = (\<lambda>g. cl_notify (snd (sched_notify tid (srv s))) g (clients s g))\<rparr>"

lemma to_notify_irrelevant [simp]:
  "occ (a\<lparr>to_notify := X\<rparr>) x = occ a x" "waits (a\<lparr>to_notify := X\<rparr>) x = waits a x"
  "alloc_wf (a\<lparr>to_notify := X\<rparr>) = alloc_wf a"
  by (simp_all add: occ_def waits_def alloc_wf_def)

lemma mid_complete:
  assumes "tenant_mid conns s t R" "0 < R"
  shows "info_complete (inf_of s t) \<longleftrightarrow> (\<forall>g \<in> nodes_of conns t. cl_calls (clients s g) = R)"
    and "info_complete (inf_of s t) \<Longrightarrow> sock_fds (inf_of s t) = nodes_of conns t"
proof -
  let ?N = "nodes_of conns t"
  have i: "sock_fds (inf_of s t) = {g \<in> ?N. 0 < cl_calls (clients s g)}"
    "expected_n_fds (inf_of s t) = card ?N"
    "n_cached_uses (inf_of s t) = card {g \<in> ?N. cl_calls (clients s g) = R}"
    using assms by (simp_all add: tenant_mid_def tenant_base_def)
  have all: "card {g \<in> ?N. P g} = card ?N \<longleftrightarrow> (\<forall>g \<in> ?N. P g)" for P
  proof
    assume "card {g \<in> ?N. P g} = card ?N"
    then have "{g \<in> ?N. P g} = ?N" by (intro card_subset_eq) auto
    then show "\<forall>g \<in> ?N. P g" by auto
  next
    assume "\<forall>g \<in> ?N. P g"
    then have "{g \<in> ?N. P g} = ?N" by auto
    then show "card {g \<in> ?N. P g} = card ?N" by simp
  qed
  show "info_complete (inf_of s t) \<longleftrightarrow> (\<forall>g \<in> ?N. cl_calls (clients s g) = R)"
    unfolding info_complete_def i all using assms(2) by auto
  show "info_complete (inf_of s t) \<Longrightarrow> sock_fds (inf_of s t) = ?N"
    unfolding info_complete_def i all by auto
qed

lemma notify_due:
  assumes "conns_ok conns" "\<forall>u. \<exists>R. tenant_mid conns s u R" "0 \<notin> to_notify (hnd s)" "g \<in> nodes_of conns u"
  shows "g \<in> (\<Union>x \<in> {x \<in> to_notify (hnd s). info_complete (infos (srv s) x)}. sock_fds (infos (srv s) x)) \<longleftrightarrow>
    Suc u \<in> to_notify (hnd s) \<and> info_complete (inf_of s u)"
proof -
  have socks: "sock_fds (inf_of s t) = nodes_of conns t"
    if "Suc t \<in> to_notify (hnd s)" "info_complete (inf_of s t)" for t
  proof -
    obtain R where R: "tenant_mid conns s t R" using assms(2) by blast
    then have "0 < R" using that(1) by (cases R) (simp_all add: tenant_mid_def tenant_base_def)
    then show ?thesis using mid_complete(2) [OF R] that(2) by blast
  qed
  show ?thesis
  proof
    assume "g \<in> (\<Union>x \<in> {x \<in> to_notify (hnd s). info_complete (infos (srv s) x)}. sock_fds (infos (srv s) x))"
    then obtain x where x: "x \<in> to_notify (hnd s)" "info_complete (infos (srv s) x)" "g \<in> sock_fds (infos (srv s) x)"
      by blast
    obtain t where "x = Suc t" using x(1) assms(3) by (cases x) auto
    then have "g \<in> nodes_of conns t" using socks x by blast
    then have "t = u" using nodes_disjoint [OF assms(1) _ assms(4)] by blast
    then show "Suc u \<in> to_notify (hnd s) \<and> info_complete (inf_of s u)" using x \<open>x = Suc t\<close> by blast
  next
    assume "Suc u \<in> to_notify (hnd s) \<and> info_complete (inf_of s u)"
    then show "g \<in> (\<Union>x \<in> {x \<in> to_notify (hnd s). info_complete (infos (srv s) x)}. sock_fds (infos (srv s) x))"
      using socks assms(4) by blast
  qed
qed

lemma base_notified:
  assumes "tenant_base conns s u R" "\<forall>g. cl_calls (clients s' g) = cl_calls (clients s g) \<and>
      cl_blk (clients s' g) = cl_blk (clients s g)"
    "R = 0 \<Longrightarrow> \<forall>g \<in> nodes_of conns u. clients s' g = clients s g"
    "infos (srv s') = infos (srv s)" "hnd s' = (hnd s)\<lparr>to_notify := X\<rparr>" "X \<subseteq> to_notify (hnd s)"
  shows "tenant_base conns s' u R"
  using assms(1,3,6) by (auto simp: tenant_base_def assms(2,4,5) split: if_splits)

lemma notify_scan:
  assumes "conns_ok conns" "\<forall>u. \<exists>R. tenant_mid conns s u R" "0 \<notin> to_notify (hnd s)" "alloc_wf (hnd s)"
    "expected_n_fds (infos (srv s) tid) = card (sock_fds (infos (srv s) tid))"
  shows "sched_inv conns (notified tid s)"
proof -
  let ?s = "notified tid s" and ?X = "{x \<in> to_notify (hnd s). info_complete (infos (srv s) x)}"
  let ?fds = "\<Union>x \<in> ?X. sock_fds (infos (srv s) x)"
  have n: "hnd ?s = (hnd s)\<lparr>to_notify := to_notify (hnd s) - ?X\<rparr>" "infos (srv ?s) = infos (srv s)"
    "\<And>g. clients ?s g = cl_notify ?fds g (clients s g)"
    using assms(5) by (simp_all add: notified_def sched_notify_def get_ready_def Let_def)
  note due = notify_due [OF assms(1-3)]
  have "\<exists>R. tenant_ok conns ?s u R" for u
  proof -
    obtain R where m: "tenant_mid conns s u R" using assms(2) by blast
    have R0: "Suc u \<in> to_notify (hnd s) \<Longrightarrow> 0 < R"
      using m by (cases R) (simp_all add: tenant_mid_def tenant_base_def)
    have base: "tenant_base conns ?s u R"
    proof (rule base_notified [where s = s])
      show "tenant_base conns s u R" using m by (simp add: tenant_mid_def)
      show "R = 0 \<Longrightarrow> \<forall>g \<in> nodes_of conns u. clients ?s g = clients s g"
        using due [of _ u] R0 by (auto simp: n(3) cl_notify_def)
    qed (auto simp: n cl_notify_def)
    moreover have "granted conns ?s u R \<or> pending conns ?s u R \<and> \<not> overdue conns ?s u R" if "0 < R"
    proof (cases "Suc u \<in> ?X")
      case True
      then have p: "pending conns s u R" using m that by (auto simp: tenant_mid_def granted_def)
      have "\<forall>g \<in> nodes_of conns u. cl_calls (clients s g) = R" using mid_complete(1) [OF m that] True by blast
      then show ?thesis
        using p True due [of _ u] by (simp add: granted_def pending_def n cl_notify_def)
    next
      case False
      then have "clients ?s g = clients s g" if "g \<in> nodes_of conns u" for g
        using due [OF that] by (simp add: n(3) cl_notify_def)
      moreover have "\<not> (Suc u \<in> to_notify (hnd s) \<and> (\<forall>g \<in> nodes_of conns u. cl_calls (clients s g) = R))"
        using mid_complete(1) [OF m that] False by blast
      ultimately show ?thesis
        using m that False by (auto simp: tenant_mid_def granted_def pending_def overdue_def n(1,2))
    qed
    ultimately show ?thesis by (auto simp: tenant_ok_def)
  qed
  then show ?thesis using assms(3,4) by (simp add: sched_inv_def n(1))
qed

lemma notify_skip:
  assumes "expected_n_fds (infos (srv s) tid) \<noteq> card (sock_fds (infos (srv s) tid))"
  shows "notified tid s = s"
  using assms by (simp add: notified_def sched_notify_def cl_notify_def)

lemma update_alloc_split:
  assumes "sched_reply clock fd req (srv s) = Inr (srv', resp)" "resp_batch_num resp = req_batch_num req"
    "req = update_alloc_req (card (nodes_of conns t)) t (cl_blk (clients s fd)) (of_nat (cl_calls (clients s fd)))"
  shows "update_alloc conns clock fd t s = Inr (notified (Suc t) (answered s fd srv' resp))"
  using assms(1,2) unfolding update_alloc_def Let_def assms(3) [symmetric]
  by (simp add: sched_serve_def update_alloc_fill_def notified_def answered_def assms(3)
    update_alloc_req_def fun_upd_def split: prod.splits)

lemma mid_skip_ok:
  assumes "tenant_mid conns s t R" "0 < R"
    "expected_n_fds (inf_of s t) \<noteq> card (sock_fds (inf_of s t))"
  shows "tenant_ok conns s t R"
proof -
  have "\<not> info_complete (inf_of s t)" using assms(3) by (simp add: info_complete_def)
  then have "\<not> (\<forall>g \<in> nodes_of conns t. cl_calls (clients s g) = R)" using mid_complete(1) [OF assms(1,2)] by blast
  then show ?thesis using assms(1) unfolding tenant_mid_def tenant_ok_def overdue_def granted_def by blast
qed

lemma reply_any:
  assumes "conns_ok conns" "sched_inv conns s" "may_call conns fd t s"
  defines "req \<equiv> update_alloc_req (card (nodes_of conns t)) t (cl_blk (clients s fd)) (of_nat (cl_calls (clients s fd)))"
  obtains srv' resp R where "sched_reply clock fd req (srv s) = Inr (srv', resp)"
    "resp_batch_num resp = req_batch_num req" "alloc_wf (handle srv')" "0 \<notin> to_notify (handle srv')"
    "\<forall>x. x \<noteq> Suc t \<longrightarrow> infos srv' x = infos (srv s) x"
    "tenant_mid conns (answered s fd srv' resp) t R" "0 < R"
    "\<forall>x. x \<noteq> Suc t \<longrightarrow> same_place (hnd s) (handle srv') x \<or>
       (\<forall>g \<in> nodes_of conns t. 0 < cl_calls (clients s g)) \<and> moved_up (hnd s) (handle srv') x"
proof -
  obtain R where ok: "tenant_ok conns s t R" using assms(2) by (auto simp: sched_inv_def)
  have fd: "fd \<in> nodes_of conns t" "Suc t < N_MAX_TENANTS"
    using assms(1,3) by (force simp: may_call_def nodes_of_def conns_ok_def)+
  then have "cl_calls (clients s fd) \<le> R" "R \<le> Suc (cl_calls (clients s fd))"
    using ok by (simp_all add: tenant_ok_def tenant_base_def)
  then consider (cached) "Suc (cl_calls (clients s fd)) = R" | (fresh) "cl_calls (clients s fd) = R" by linarith
  then show thesis
  proof cases
    case cached
    obtain srv' resp where c: "sched_reply clock fd req (srv s) = Inr (srv', resp)"
      "resp_batch_num resp = req_batch_num req" "handle srv' = hnd s"
      "\<forall>x. x \<noteq> Suc t \<longrightarrow> infos srv' x = infos (srv s) x" "tenant_mid conns (answered s fd srv' resp) t R"
      unfolding req_def using reply_cached [OF ok fd(1) cached] by blast
    have "alloc_wf (handle srv')" "0 \<notin> to_notify (handle srv')"
      using assms(2) c(3) by (simp_all add: sched_inv_def)
    moreover have "same_place (hnd s) (handle srv') x" for x by (simp add: c(3) same_place_def)
    ultimately show thesis using that [OF c(1,2) _ _ c(4,5)] cached by blast
  next
    case fresh
    have rdy: "\<forall>g \<in> nodes_of conns t. R \<le> cl_ready (clients s g)"
      using assms(3) fresh by (auto simp: may_call_def)
    obtain srv' resp where c: "sched_reply clock fd req (srv s) = Inr (srv', resp)"
      "resp_batch_num resp = req_batch_num req" "alloc_wf (handle srv')" "0 \<notin> to_notify (handle srv')"
      "\<forall>x. x \<noteq> Suc t \<longrightarrow> infos srv' x = infos (srv s) x"
      "\<forall>x. x \<noteq> Suc t \<longrightarrow> same_place (hnd s) (handle srv') x \<or> 0 < R \<and> moved_up (hnd s) (handle srv') x"
      "tenant_mid conns (answered s fd srv' resp) t (Suc R)"
      unfolding req_def using reply_fresh [OF assms(2) ok fd(1) fresh rdy fd(2)] by blast
    have "\<forall>g \<in> nodes_of conns t. cl_calls (clients s g) = R"
      using fresh_all [OF ok fd(1)] rdy fd(1) by blast
    then show thesis using that [OF c(1-5,7)] c(6) by auto
  qed
qed

lemma update_alloc_inv:
  assumes "conns_ok conns" "sched_inv conns s" "may_call conns fd t s"
  shows "\<exists>s'. update_alloc conns clock fd t s = Inr s' \<and> sched_inv conns s'"
proof -
  obtain srv' resp R where r: "sched_reply clock fd (update_alloc_req (card (nodes_of conns t)) t
        (cl_blk (clients s fd)) (of_nat (cl_calls (clients s fd)))) (srv s) = Inr (srv', resp)"
      "resp_batch_num resp = req_batch_num (update_alloc_req (card (nodes_of conns t)) t
        (cl_blk (clients s fd)) (of_nat (cl_calls (clients s fd))))"
      "alloc_wf (handle srv')" "0 \<notin> to_notify (handle srv')"
      "\<forall>x. x \<noteq> Suc t \<longrightarrow> infos srv' x = infos (srv s) x"
      "tenant_mid conns (answered s fd srv' resp) t R" "0 < R"
      "\<forall>x. x \<noteq> Suc t \<longrightarrow> same_place (hnd s) (handle srv') x \<or>
         (\<forall>g \<in> nodes_of conns t. 0 < cl_calls (clients s g)) \<and> moved_up (hnd s) (handle srv') x"
    using reply_any [OF assms] by blast
  let ?s = "answered s fd srv' resp"
  have fd: "fd \<in> nodes_of conns t" using assms(3) by (force simp: may_call_def nodes_of_def)
  have cl: "\<forall>g \<in> nodes_of conns u. clients ?s g = clients s g" if "u \<noteq> t" for u
    using nodes_disjoint [OF assms(1) fd] that by (auto simp: answered_def)
  have inf: "inf_of ?s u = inf_of s u" if "u \<noteq> t" for u using r(5) that by simp
  have inv: "\<exists>Q. tenant_ok conns s u Q" for u using assms(2) by (simp add: sched_inv_def)
  have "sched_inv conns (notified (Suc t) ?s)"
  proof (cases "expected_n_fds (inf_of ?s t) = card (sock_fds (inf_of ?s t))")
    case True
    have "\<exists>Q. tenant_mid conns ?s u Q" for u
    proof (cases "u = t")
      case False
      obtain Q where "tenant_mid conns s u Q" using inv tenant_ok_mid by blast
      then have "tenant_mid conns ?s u Q"
        using mid_other [OF _ cl inf] r(8) False by (metis answered_simps(1) nat.inject)
      then show ?thesis by blast
    qed (use r(6) in blast)
    then show ?thesis using notify_scan [OF assms(1)] r(3,4) True by simp
  next
    case False
    have socks: "sock_fds (inf_of ?s t) = {g \<in> nodes_of conns t. 0 < cl_calls (clients ?s g)}"
      "expected_n_fds (inf_of ?s t) = card (nodes_of conns t)"
      using r(6,7) by (simp_all add: tenant_mid_def tenant_base_def)
    have "\<not> (\<forall>g \<in> nodes_of conns t. 0 < cl_calls (clients s g))"
    proof
      assume "\<forall>g \<in> nodes_of conns t. 0 < cl_calls (clients s g)"
      then have "sock_fds (inf_of ?s t) = nodes_of conns t" unfolding socks by (auto simp: answered_def)
      then show False using False socks(2) by simp
    qed
    then have "same_place (hnd s) (hnd ?s) (Suc u)" if "u \<noteq> t" for u
      using r(8) that by (metis answered_simps(1) nat.inject)
    then have "tenant_ok conns s u Q \<Longrightarrow> tenant_ok conns ?s u Q" if "u \<noteq> t" for u Q
      using ok_other [OF _ cl [OF that] inf [OF that]] that by blast
    then have "\<exists>Q. tenant_ok conns ?s u Q" for u
      using inv [of u] mid_skip_ok [OF r(6,7) False] by (cases "u = t") blast+
    then show ?thesis using r(3,4) by (simp add: notify_skip [OF False] sched_inv_def)
  qed
  then show ?thesis using update_alloc_split [OF r(1,2) refl] by blast
qed

section \<open>The properties of the block scheduler\<close>

interpretation sched_net: inv_system "\<lambda>s. s = sched_sys_mk" "\<lambda>s s'. conns_ok conns \<and> sched_step conns s s'"
  "sched_inv conns" for conns
proof
  fix s s'
  assume inv: "sched_inv conns s" and st: "conns_ok conns \<and> sched_step conns s s'"
  then obtain fd t clock where "may_call conns fd t s" "update_alloc conns clock fd t s = Inr s'"
    by (auto elim: sched_step.cases)
  then show "sched_inv conns s'" using update_alloc_inv [of conns s fd t clock] inv st by auto
qed (simp add: sched_inv_init)

lemma sched_reach_inv:
  assumes "conns_ok conns" "(sched_step conns)\<^sup>*\<^sup>* sched_sys_mk s"
  shows "sched_inv conns s"
  using sched_net.reach_inv [of sched_sys_mk conns s] assms by simp

text \<open>A tenant is in its hot period from the start messages until its first node calls
  \<open>update_alloc\<close> again.\<close>

definition in_hot_period :: "conns \<Rightarrow> sched_sys \<Rightarrow> nat \<Rightarrow> bool" where
  "in_hot_period conns s t \<longleftrightarrow>
     (\<forall>g \<in> nodes_of conns t. 0 < cl_calls (clients s g) \<and> cl_ready (clients s g) = cl_calls (clients s g))"

lemma hot_granted:
  assumes "tenant_ok conns s t R" "in_hot_period conns s t" "g \<in> nodes_of conns t"
  shows "0 < R" "granted conns s t R"
proof -
  have "cl_calls (clients s g) \<le> R" using assms(1,3) by (simp add: tenant_ok_def tenant_base_def)
  then show R: "0 < R" using assms(2,3) by (force simp: in_hot_period_def)
  then obtain h where h: "h \<in> nodes_of conns t" "cl_calls (clients s h) = R"
    using assms(1) by (auto simp: tenant_ok_def tenant_base_def)
  then have "cl_ready (clients s h) = R" using assms(2) by (simp add: in_hot_period_def)
  then have "\<not> pending conns s t R" using h(1) unfolding pending_def by (metis n_not_Suc_n)
  then show "granted conns s t R" using assms(1) R by (auto simp: tenant_ok_def)
qed

lemma granted_head:
  assumes "sched_inv conns s" "tenant_ok conns s t R" "0 < R" "granted conns s t R" "g \<in> nodes_of conns t"
  shows "unat (cl_blk (clients s g)) < N_BLOCKS"
    and "\<exists>q. block_queue (hnd s) ! unat (cl_blk (clients s g)) = Suc t # q"
proof -
  let ?b = "unat (cl_blk (clients s g))"
  have "cl_calls (clients s g) = R" "waits (hnd s) (Suc t) = 0" using assms(4,5) by (simp_all add: granted_def)
  then show b: "?b < N_BLOCKS" using assms(2,3,5) by (simp add: tenant_ok_def tenant_base_def)
  have "Suc t \<in> set (block_queue (hnd s) ! ?b)"
    using assms(2,3,5) \<open>cl_calls (clients s g) = R\<close> by (simp add: tenant_ok_def tenant_base_def)
  moreover have "Suc t \<notin> set (tl (block_queue (hnd s) ! ?b))"
    using queue_waits [OF _ b \<open>waits (hnd s) (Suc t) = 0\<close>] assms(1) by (simp add: sched_inv_def)
  ultimately show "\<exists>q. block_queue (hnd s) ! ?b = Suc t # q"
    by (cases "block_queue (hnd s) ! ?b") auto
qed

text \<open>
  C9. Blocks are exclusive. In every state that the calls of \<open>update_alloc\<close> by the nodes of any
  number of tenants can lead to, two tenants that are in their hot period at the same time have
  different blocks, and the nodes of one such tenant all have the same block.
\<close>

theorem sched_exclusive:
  assumes "conns_ok conns" "(sched_step conns)\<^sup>*\<^sup>* sched_sys_mk s"
    "in_hot_period conns s t" "in_hot_period conns s u" "g \<in> nodes_of conns t" "h \<in> nodes_of conns u"
  shows "cl_blk (clients s g) = cl_blk (clients s h) \<longleftrightarrow> t = u"
proof -
  have inv: "sched_inv conns s" using sched_reach_inv [OF assms(1,2)] .
  obtain R Q where ok: "tenant_ok conns s t R" "tenant_ok conns s u Q" using inv unfolding sched_inv_def by blast
  note a = hot_granted [OF ok(1) assms(3,5)] and b = hot_granted [OF ok(2) assms(4,6)]
  obtain q r where "block_queue (hnd s) ! unat (cl_blk (clients s g)) = Suc t # q"
      "block_queue (hnd s) ! unat (cl_blk (clients s h)) = Suc u # r"
    using granted_head(2) [OF inv ok(1) a assms(5)] granted_head(2) [OF inv ok(2) b assms(6)] by blast
  moreover have "cl_blk (clients s g) = cl_blk (clients s h)" if "t = u"
  proof -
    have "cl_calls (clients s g) = R" "cl_calls (clients s h) = R"
      using a(2) assms(5,6) that by (simp_all add: granted_def)
    then show ?thesis using ok(1) a(1) assms(5,6) that by (simp add: tenant_ok_def tenant_base_def)
  qed
  ultimately show ?thesis by auto
qed

primrec sched_run :: "conns \<Rightarrow> (nat \<times> nat) list \<Rightarrow> sched_sys \<Rightarrow> sched_sys result" where
  "sched_run conns [] s = ok s"
| "sched_run conns (c # cs) s =
     (if may_call conns (fst c) (snd c) s then
        bind_res (update_alloc conns (0, 0) (fst c) (snd c) s) (sched_run conns cs)
      else fail Blocked)"

lemma sched_run_steps: "sched_run conns cs s = Inr s' \<Longrightarrow> (sched_step conns)\<^sup>*\<^sup>* s s'"
proof (induction cs arbitrary: s)
  case (Cons c cs)
  then obtain x where "may_call conns (fst c) (snd c) s"
      "update_alloc conns (0, 0) (fst c) (snd c) s = Inr x" "sched_run conns cs x = Inr s'"
    by (auto simp: res_elims split: if_splits)
  then show ?case using Cons.IH sched_step.call converse_rtranclp_into_rtranclp by metis
qed simp

definition demo_conns :: conns where
  "demo_conns = [(10, 0), (11, 0), (12, 1)]"

lemma demo_conns_ok: "conns_ok demo_conns"
  by (simp add: conns_ok_def demo_conns_def)

lemma demo_nodes [simp]: "nodes_of demo_conns 0 = {10, 11}" "nodes_of demo_conns 1 = {12}"
  "nodes_of demo_conns (Suc 0) = {12}"
  by (auto simp: nodes_of_def demo_conns_def image_iff)

lemma demo_sched_run:
  "case sched_run demo_conns [(10, 0), (12, 1), (11, 0)] sched_sys_mk of Inl _ \<Rightarrow> False
   | Inr s \<Rightarrow> in_hot_period demo_conns s 0 \<and> in_hot_period demo_conns s 1"
  by code_simp

theorem sched_exclusive_witness:
  "\<exists>s. (sched_step demo_conns)\<^sup>*\<^sup>* sched_sys_mk s \<and> in_hot_period demo_conns s 0 \<and> in_hot_period demo_conns s 1 \<and>
     cl_blk (clients s 10) = cl_blk (clients s 11) \<and> cl_blk (clients s 10) \<noteq> cl_blk (clients s 12)"
proof -
  obtain s where "sched_run demo_conns [(10, 0), (12, 1), (11, 0)] sched_sys_mk = Inr s"
      and h: "in_hot_period demo_conns s 0" "in_hot_period demo_conns s 1"
    using demo_sched_run
    by (cases "sched_run demo_conns [(10, 0), (12, 1), (11, 0)] sched_sys_mk") auto
  then have r: "(sched_step demo_conns)\<^sup>*\<^sup>* sched_sys_mk s" using sched_run_steps by blast
  show ?thesis
    using sched_exclusive [OF demo_conns_ok r h(1,1), of 10 11] sched_exclusive [OF demo_conns_ok r h, of 10 12] r h
    by auto
qed

text \<open>A tenant that has not been told to start stands behind another one, or one of its nodes can
  call; so the head of a queue, or one of its nodes, can always go on.\<close>

lemma tenant_may_call:
  assumes "tenant_ok conns s t R" "nodes_of conns t \<noteq> {}" "R = 0 \<or> waits (hnd s) (Suc t) = 0"
  shows "\<exists>g. may_call conns g t s"
proof -
  obtain g where g: "g \<in> nodes_of conns t" using assms(2) by blast
  have base: "\<forall>g \<in> nodes_of conns t. cl_calls (clients s g) \<le> R \<and> R \<le> Suc (cl_calls (clients s g))"
    using assms(1) unfolding tenant_ok_def tenant_base_def by blast
  have mem: "(h, t) \<in> set conns" if "h \<in> nodes_of conns t" for h using that by (force simp: nodes_of_def)
  consider "R = 0" | "granted conns s t R" | "0 < R" "pending conns s t R" "\<not> overdue conns s t R"
    using assms(1) unfolding tenant_ok_def by blast
  then show ?thesis
  proof cases
    case 1
    then have "cl_calls (clients s g) = 0" using g base by simp
    then show ?thesis using g mem unfolding may_call_def by (metis le0)
  next
    case 2
    then have "may_call conns g t s" using g mem by (simp add: may_call_def granted_def)
    then show ?thesis by blast
  next
    case 3
    then obtain h where h: "h \<in> nodes_of conns t" "cl_calls (clients s h) \<noteq> R"
      using assms(3) by (auto simp: overdue_def)
    then have "Suc (cl_calls (clients s h)) = R" using base by fastforce
    then have "\<forall>g \<in> nodes_of conns t. cl_calls (clients s h) \<le> cl_ready (clients s g)"
      using 3(2) unfolding pending_def by (metis Suc_inject order_refl)
    then show ?thesis using h mem by (auto simp: may_call_def)
  qed
qed

lemma waits_lt_occ:
  assumes "h # r \<in> set (block_queue a)"
  shows "waits a h < occ a h"
proof -
  obtain ys zs where bq: "block_queue a = ys @ (h # r) # zs" using split_list [OF assms] by blast
  have "count_list (tl q) h \<le> count_list q h" for q :: "nat list" by (cases q) auto
  then have "sum_list (map (\<lambda>q. count_list (tl q) h) xs) \<le> sum_list (map (\<lambda>q. count_list q h) xs)" for xs
    by (simp add: sum_list_mono)
  from this [of ys] this [of zs] show ?thesis by (simp add: waits_def occ_def bq)
qed

lemma head_ahead:
  assumes "sched_inv conns s" "0 < waits (hnd s) x"
  obtains u where "0 < occ (hnd s) (Suc u)" "waits (hnd s) (Suc u) = 0"
proof -
  have wf: "alloc_wf (hnd s)" using assms(1) by (simp add: sched_inv_def)
  obtain q where q: "q \<in> set (block_queue (hnd s))" "x \<in> set (tl q)"
    using assms(2) waits_zero [of "hnd s" x] by auto
  then obtain h r where hr: "q = h # r" by (metis empty_iff list.exhaust list.sel(2) list.set(1))
  then have "0 < h" using wf q(1) by (auto simp: alloc_wf_def)
  then obtain u where u: "h = Suc u" by (cases h) auto
  have "waits (hnd s) h < occ (hnd s) h" using waits_lt_occ q(1) hr by blast
  then show thesis using that [of u] occ_le1 [OF assms(1), of h] u by simp
qed

text \<open>
  C17. The scheduler never gets stuck. In every state it can be in, some node is free to make its
  next call, and every such call is answered: no assertion of the server or of the client fails,
  no table is read outside its bounds, whatever the clock shows.
\<close>

theorem sched_live:
  assumes "conns_ok conns" "(sched_step conns)\<^sup>*\<^sup>* sched_sys_mk s" "conns \<noteq> []"
  shows "(\<exists>fd t. may_call conns fd t s) \<and>
    (\<forall>fd t clock. may_call conns fd t s \<longrightarrow> (\<exists>s'. update_alloc conns clock fd t s = Inr s'))"
proof -
  have inv: "sched_inv conns s" using sched_reach_inv [OF assms(1,2)] .
  have ok: "\<exists>R. tenant_ok conns s t R" for t using inv by (simp add: sched_inv_def)
  obtain fd t where "(fd, t) \<in> set conns" using assms(3) by (cases conns) auto
  then have t: "nodes_of conns t \<noteq> {}" by (force simp: nodes_of_def)
  have "\<exists>fd t. may_call conns fd t s"
  proof (cases "waits (hnd s) (Suc t) = 0")
    case True
    then show ?thesis using ok [of t] tenant_may_call [OF _ t] by blast
  next
    case False
    then obtain u where u: "0 < occ (hnd s) (Suc u)" "waits (hnd s) (Suc u) = 0"
      using head_ahead [OF inv, of "Suc t"] by blast
    obtain R where R: "tenant_ok conns s u R" using ok by blast
    then have "R \<noteq> 0" using u(1) by (cases R) (simp_all add: tenant_ok_def tenant_base_def)
    then have "nodes_of conns u \<noteq> {}" using R by (auto simp: tenant_ok_def tenant_base_def)
    then show ?thesis using tenant_may_call [OF R _ disjI2] u(2) by blast
  qed
  then show ?thesis using update_alloc_inv [OF assms(1) inv] by blast
qed

theorem sched_live_witness:
  "\<exists>fd t s'. may_call demo_conns fd t sched_sys_mk \<and> update_alloc demo_conns (5, 7) fd t sched_sys_mk = Inr s'"
proof -
  have "demo_conns \<noteq> []" by (simp add: demo_conns_def)
  from sched_live [OF demo_conns_ok rtranclp.rtrancl_refl this] show ?thesis by blast
qed

text \<open>
  C27. No start message is lost or late. A tenant all of whose nodes have made the same number of
  calls and that is at the head of the queue of its block has been told to start: it is in its hot
  period. Conversely a tenant in its hot period is at the head of the queue of its block.
\<close>

theorem sched_no_lost_start:
  assumes "conns_ok conns" "(sched_step conns)\<^sup>*\<^sup>* sched_sys_mk s" "0 < n" "g \<in> nodes_of conns t"
    "\<forall>g \<in> nodes_of conns t. cl_calls (clients s g) = n"
  shows "in_hot_period conns s t \<longleftrightarrow> hd (block_queue (hnd s) ! unat (cl_blk (clients s g))) = Suc t"
proof -
  have inv: "sched_inv conns s" using sched_reach_inv [OF assms(1,2)] .
  then obtain R where ok: "tenant_ok conns s t R" unfolding sched_inv_def by blast
  have wf: "alloc_wf (hnd s)" using inv by (simp add: sched_inv_def)
  have "cl_calls (clients s g) \<le> R" using ok assms(4) unfolding tenant_ok_def tenant_base_def by blast
  then have "R \<noteq> 0" using assms(3-5) by simp
  then obtain h where "h \<in> nodes_of conns t" "cl_calls (clients s h) = R"
    using ok by (auto simp: tenant_ok_def tenant_base_def)
  then have R: "R = n" "R \<noteq> 0" using assms(3,5) by simp_all
  let ?q = "block_queue (hnd s) ! unat (cl_blk (clients s g))"
  have b: "unat (cl_blk (clients s g)) < N_BLOCKS" "Suc t \<in> set ?q" "occ (hnd s) (Suc t) = 1"
    using ok R assms(4,5) by (simp_all add: tenant_ok_def tenant_base_def)
  show ?thesis
  proof
    assume "in_hot_period conns s t"
    then show "hd ?q = Suc t"
      using hot_granted [OF ok _ assms(4)] granted_head(2) [OF inv ok _ _ assms(4)] by fastforce
  next
    assume "hd ?q = Suc t"
    then have "?q = Suc t # tl ?q" using b(2) by (cases ?q) auto
    moreover have "?q \<in> set (block_queue (hnd s))" using b(1) wf_lengths(2) [OF wf] by simp
    ultimately have "waits (hnd s) (Suc t) < 1" using waits_lt_occ b(3) by metis
    then have "overdue conns s t R" using assms(5) R by (simp add: overdue_def)
    then have "granted conns s t R" using ok R by (auto simp: tenant_ok_def)
    then show "in_hot_period conns s t" using R by (simp add: in_hot_period_def granted_def)
  qed
qed

theorem sched_no_lost_start_witness:
  "\<exists>s. (sched_step demo_conns)\<^sup>*\<^sup>* sched_sys_mk s \<and> in_hot_period demo_conns s 0 \<and>
     hd (block_queue (hnd s) ! unat (cl_blk (clients s 10))) = 1"
proof -
  have "case sched_run demo_conns [(10, 0), (11, 0)] sched_sys_mk of Inl _ \<Rightarrow> False
     | Inr s \<Rightarrow> in_hot_period demo_conns s 0 \<and> cl_calls (clients s 10) = 1 \<and> cl_calls (clients s 11) = 1"
    by code_simp
  then obtain s where s: "sched_run demo_conns [(10, 0), (11, 0)] sched_sys_mk = Inr s"
      "in_hot_period demo_conns s 0" "cl_calls (clients s 10) = 1" "cl_calls (clients s 11) = 1"
    by (cases "sched_run demo_conns [(10, 0), (11, 0)] sched_sys_mk") auto
  then have r: "(sched_step demo_conns)\<^sup>*\<^sup>* sched_sys_mk s" using sched_run_steps by blast
  show ?thesis
    using sched_no_lost_start [OF demo_conns_ok r, of 1 10 0] s r by auto
qed

end
