(* ===== verification/Spec2Isabelle.thy ===== *)
theory Spec2Isabelle
  imports P4_Batch P4_Main P4_Barrier P4_Tcp P4_Alloc
begin

text \<open>
  A verification library for p4db, a distributed in-memory transaction engine that runs the operations on the
  hottest keys of each transaction on a programmable switch.

  \<^bold>\<open>The program.\<close> A cluster of nodes holds one table, partitioned by key range. Every node has worker threads,
  each with its share of a trace of transactions of eight reads and writes. The trace and the frequencies of the keys
  are read at start (\<open>main/loader.cpp\<close>, \<open>main/main.cpp\<close>); the frequencies fix which key lies in which
  register of the switch (\<open>layout/declustered_layout.cpp\<close>). A worker takes a batch at a time: it
  splits each transaction into switch and host operations (\<open>ee/hot_cold.cpp\<close>), puts it into the queue of a
  mini-batch in which no other node uses its hottest host key (\<open>ee/sched.cpp\<close>), and runs the host operations under row locks,
  local or by messages (\<open>ee/executor.cpp\<close>, \<open>ee/row.hpp\<close>, \<open>ee/undolog.cpp\<close>, \<open>comm/\<close>). A
  transaction that commits with switch operations becomes a packet (\<open>ee/switch.cpp\<close>); one that cannot commit
  in its batch falls back to the host and is left over. When the batch is done the leader of each node waits for a block of
  the switch, which a scheduler on the switch's control plane shares among tenants
  (\<open>switch_src/01_control_plane\<close>, \<open>ee/sched_intf.cpp\<close>), and sends the packets in step with the other nodes (\<open>ee/hot_period.cpp\<close>);
  then every worker runs its leftover transactions. Barriers separate these phases (\<open>utils/rbarrier.hpp\<close>,
  \<open>comm/handlers/barrier.cpp\<close>).

  \<^bold>\<open>How code becomes definitions.\<close> Structs are records and enums datatypes with the names of the source. A
  call that can fail returns \<open>err + 'a\<close> (\<open>P4_Prelude\<close>): an assertion, an exception, an access outside an array, a division by
  zero and a wait that nothing can end are values of \<open>err\<close>. Machine integers that are packed or wrap are words of their width.
  Pointers to rows are positions. State is passed explicitly: \<open>sys\<close> of \<open>P4_Exec\<close> is a worker together with the nodes
  of the cluster. Code that runs at the same time as other code is a step relation, one step per
  access to shared memory or per message; the invariants go through the locale \<open>inv_system\<close>.

  \<^bold>\<open>The theories.\<close>
  \<^item> \<open>P4_Prelude\<close>: results of fallible calls, the scan for a least weight, invariants of step relations.
  \<^item> \<open>P4_Types\<close>, \<open>P4_Messages\<close>: packed transaction and node ids (\<open>ee/types.hpp\<close>), build and run-time
    configuration, messages, packet buffer and tuple futures (\<open>comm/msg.hpp\<close>, \<open>comm/buffer.hpp\<close>, \<open>ee/future.hpp\<close>).
  \<^item> \<open>P4_Row\<close>: the row lock (\<open>ee/row.hpp\<close>) refines a reader/writer lock (locale \<open>rw_lock\<close>); under any interleaving writers
    exclude all others, and with write locks only the commits of a mini-batch on a row are of one node, local or remote.
  \<^item> \<open>P4_Table\<close>: range partitioning and the table (\<open>ee/partition.hpp\<close>, \<open>ee/table.hpp\<close>): one owner per key, and type safety of
    the table under all its methods.
  \<^item> \<open>P4_Node\<close>: message handler and database of a node (\<open>comm/msg_handler.cpp\<close>, \<open>ee/database.hpp\<close>); any exchange of messages between
    nodes ends.
  \<^item> \<open>P4_Pools\<close>: the allocators of \<open>utils/mempools.hpp\<close> (locale \<open>bump_pool\<close>; the thread caches of the object pools are shared by all pools of a type) and the queue of switch packets.
  \<^item> \<open>P4_Undo\<close>: the undo log.
  \<^item> \<open>P4_Layout\<close>: the placement of keys in registers; both directions are inverse (locale \<open>placement\<close>), and the registers are balanced while the sums of frequencies, which are kept modulo \<open>2 ^ 64\<close>, do not wrap.
  \<^item> \<open>P4_Txn\<close>: transactions and their split; the split keeps every operation and uses a register once per pass.
  \<^item> \<open>P4_Sched\<close>: the scheduler of a batch; every transaction gets one slot, and a slot has one node per hot key.
  \<^item> \<open>P4_Switch\<close>: the packets for the switch carry exactly the operations of the transaction.
  \<^item> \<open>P4_Exec\<close>, \<open>P4_Commit\<close>: every operation of \<open>TxnExecutor\<close>, and that an execution, with arbitrary locks held by others, is
    atomic: it commits exactly when every lock can be granted and then refines the operations applied in turn, and leaves nothing otherwise.
  \<^item> \<open>P4_Leftover\<close>: the fallback to the host undoes the split; when the loop over the leftover transactions ends.
  \<^item> \<open>P4_HotPeriod\<close>: loading the switch, and the packets and barriers of the hot period in step.
  \<^item> \<open>P4_Batch\<close>: the loops of \<open>txn_executor\<close> and \<open>orig_txn_executor\<close>; no transaction of a batch is lost, and when a batch ends.
  \<^item> \<open>P4_Barrier\<close>: spin lock, barrier of the workers and barrier of the nodes; safety, progress, and the deadlock of the latter.
  \<^item> \<open>P4_Tcp\<close>: the TCP transport: one connection per pair of nodes, and messages arrive whole and in order.
  \<^item> \<open>P4_Alloc\<close>: the block scheduler and its clients; which block a request gets; tenants exclude each other on a block, are served in turn and none waits
    forever.
  \<^item> \<open>P4_Util\<close>: integer logarithms and the formatting of sizes (\<open>utils/util.hpp\<close>).
  \<^item> \<open>P4_Main\<close>: the loader, the set-up of the table and the distribution of the trace over the workers.

  \<^bold>\<open>Bounds and loops that may not end.\<close> No definition takes fuel. Three loops may run forever and are partial functions whose value is
  then \<open>None\<close>: \<open>leftover_loop\<close> (and with it \<open>run_leftover_txns\<close>, \<open>single_db_section\<close> and \<open>txn_executor\<close>), \<open>naive_loop\<close> of the logarithms, and
  \<open>recv_loop\<close> of the transport. The theorems on leftover transactions and on a batch say exactly when these return, the logarithms end for every base of
  at least 2, and the receive loop ends on every stream that holds the message. The other loops end by their measure.
  The bounds that theorems assume are those of the code's own types: at most 16 nodes (the packed id has four bits),
  mini-batch numbers below \<open>2 ^ 27\<close>, registers and slots below the widths of \<open>TupleLocation\<close>, fewer packets than the queue has entries.

  \<^bold>\<open>Interleaving.\<close> The executor answers a remote request at once (\<open>deliver\<close>): \<open>deliver_steps\<close> of \<open>P4_Node\<close> shows that this is a run of the
  network's step relation. What other workers do shows as the locks they hold, which are arbitrary in \<open>P4_Commit\<close>, but they do not
  act while a transaction of the modelled worker runs; the interleavings on one row are those of \<open>P4_Row\<close>. The theorems on batches are about one worker whose
  queue of packets has room for all its transactions.

  \<^bold>\<open>Not modelled.\<close>
  \<^item> The P4 programs of the switch and their generator: their meaning is that of the vendor's tools. The reply to a packet is an argument.
  \<^item> Sockets, threads, command line and configuration files (\<open>comm/switch_intf.cpp\<close>, \<open>main/config.cpp\<close>, \<open>p4db.cpp\<close>): calls of the operating
    system and of libraries. Their results are arguments, such as the record \<open>config\<close>.
  \<^item> Clocks, statistics and debugging output, and the dump of a table to a file.
  \<^item> \<open>comm/udp.cpp\<close> and \<open>ee/old_hot_period.cpp\<close>, which the program does not use.
  \<^item> The simulator and the experiments under \<open>mine/\<close>, the workload generators under \<open>generator/\<close> and the scripts: programs apart from the engine.
\<close>

end
